(* ===== verification/Gw_Prelude.thy ===== *)
theory Gw_Prelude
  imports Main "HOL-Library.AList" "HOL-Library.Multiset" "HOL-Library.Sublist"
    "HOL-Library.Char_ord" "HOL-Library.List_Lexorder"
begin

text \<open>
  Shared vocabulary of the development.

  Rust strings and byte buffers are both \<^typ>\<open>string\<close>, the list of their (UTF-8) bytes; a
  \<^verbatim>\<open>String\<close> is such a list that is valid UTF-8. Everything the code does with strings here
  (\<^verbatim>\<open>trim\<close>, \<^verbatim>\<open>split\<close>, \<^verbatim>\<open>to_ascii_lowercase\<close>, \<^verbatim>\<open>starts_with\<close>) is written on the bytes and
  agrees with the character version on valid UTF-8.

  A Rust \<^verbatim>\<open>HashMap\<close> is an association list with distinct keys, in the (arbitrary) order in which
  the map would be iterated; the theorems never depend on that order unless they say so.
  A fallible Rust function returns a sum, \<^term>\<open>Inl\<close> the error, \<^term>\<open>Inr\<close> the value.
\<close>

named_theorems pending_simps \<open>multiset and key facts about pending tables\<close>
named_theorems res_simps \<open>unfolding of the result combinators\<close>

subsection \<open>Results\<close>

type_synonym bytes = string

definition res_bind :: "'e + 'a \<Rightarrow> ('a \<Rightarrow> 'e + 'b) \<Rightarrow> 'e + 'b" where
  "res_bind r f = (case r of Inl e \<Rightarrow> Inl e | Inr a \<Rightarrow> f a)"

definition map_err :: "('e \<Rightarrow> 'f) \<Rightarrow> 'e + 'a \<Rightarrow> 'f + 'a" where
  "map_err g r = (case r of Inl e \<Rightarrow> Inl (g e) | Inr a \<Rightarrow> Inr a)"

definition ok_or :: "'e \<Rightarrow> 'a option \<Rightarrow> 'e + 'a" where
  "ok_or e x = (case x of None \<Rightarrow> Inl e | Some a \<Rightarrow> Inr a)"

lemma res_bind_simps [simp, res_simps]:
  "res_bind (Inl e) f = Inl e"
  "res_bind (Inr a) f = f a"
  by (simp_all add: res_bind_def)

lemma res_bind_Inr_iff [res_simps]: "res_bind r f = Inr b \<longleftrightarrow> (\<exists>a. r = Inr a \<and> f a = Inr b)"
  by (cases r) simp_all

lemma map_err_simps [simp, res_simps]:
  "map_err g (Inl e) = Inl (g e)"
  "map_err g (Inr a) = Inr a"
  by (simp_all add: map_err_def)

lemma map_err_Inr_iff [res_simps]: "map_err g r = Inr a \<longleftrightarrow> r = Inr a"
  by (cases r) simp_all

lemma ok_or_simps [simp, res_simps]:
  "ok_or e None = Inl e"
  "ok_or e (Some a) = Inr a"
  by (simp_all add: ok_or_def)

lemma ok_or_Inr_iff [res_simps]: "ok_or e x = Inr a \<longleftrightarrow> x = Some a"
  by (cases x) simp_all

text \<open>\<^verbatim>\<open>collect::<Option<Vec<_>>>\<close>: all of them, or none.\<close>

fun all_some :: "'a option list \<Rightarrow> 'a list option" where
  "all_some [] = Some []"
| "all_some (None # xs) = None"
| "all_some (Some x # xs) = map_option (Cons x) (all_some xs)"

lemma all_some_map_Some [simp]: "all_some (map (\<lambda>x. Some (f x)) xs) = Some (map f xs)"
  by (induction xs) simp_all

lemma all_some_Some_iff: "all_some xs = Some ys \<longleftrightarrow> xs = map Some ys"
proof (induction xs arbitrary: ys)
  case Nil
  then show ?case by auto
next
  case (Cons x xs)
  then show ?case by (cases x; cases ys) auto
qed

subsection \<open>Strings\<close>

text \<open>
  The UTF-8 encodings of the characters with the Unicode property \<^verbatim>\<open>White_Space\<close>, which is
  what \<^verbatim>\<open>str::trim\<close> removes: U+0009 to U+000D, U+0020, U+0085, U+00A0, U+1680,
  U+2000 to U+200A, U+2028, U+2029, U+202F, U+205F and U+3000.
\<close>

definition whitespace :: "string list" where
  "whitespace =
     [[CHR 0x09], [CHR 0x0A], [CHR 0x0B], [CHR 0x0C], [CHR 0x0D], [CHR 0x20],
      [CHR 0xC2, CHR 0x85], [CHR 0xC2, CHR 0xA0], [CHR 0xE1, CHR 0x9A, CHR 0x80],
      [CHR 0xE2, CHR 0x80, CHR 0x80], [CHR 0xE2, CHR 0x80, CHR 0x81],
      [CHR 0xE2, CHR 0x80, CHR 0x82], [CHR 0xE2, CHR 0x80, CHR 0x83],
      [CHR 0xE2, CHR 0x80, CHR 0x84], [CHR 0xE2, CHR 0x80, CHR 0x85],
      [CHR 0xE2, CHR 0x80, CHR 0x86], [CHR 0xE2, CHR 0x80, CHR 0x87],
      [CHR 0xE2, CHR 0x80, CHR 0x88], [CHR 0xE2, CHR 0x80, CHR 0x89],
      [CHR 0xE2, CHR 0x80, CHR 0x8A], [CHR 0xE2, CHR 0x80, CHR 0xA8],
      [CHR 0xE2, CHR 0x80, CHR 0xA9], [CHR 0xE2, CHR 0x80, CHR 0xAF],
      [CHR 0xE2, CHR 0x81, CHR 0x9F], [CHR 0xE3, CHR 0x80, CHR 0x80]]"

fun strip_first :: "string list \<Rightarrow> string \<Rightarrow> string option" where
  "strip_first [] s = None"
| "strip_first (w # ws) s =
     (if w \<noteq> [] \<and> take (length w) s = w then Some (drop (length w) s) else strip_first ws s)"

lemma strip_first_shorter: "strip_first ws s = Some t \<Longrightarrow> length t < length s"
proof (induction ws s rule: strip_first.induct)
  case (2 w ws s)
  show ?case
  proof (cases "w \<noteq> [] \<and> take (length w) s = w")
    case True
    then have "s \<noteq> []" by auto
    with True "2.prems" show ?thesis by auto
  next
    case False
    with 2 show ?thesis by (auto split: if_splits)
  qed
qed simp

function strip_all :: "string list \<Rightarrow> string \<Rightarrow> string" where
  "strip_all ws s = (case strip_first ws s of None \<Rightarrow> s | Some t \<Rightarrow> strip_all ws t)"
  by pat_completeness auto
termination
  by (relation "measure (\<lambda>(ws, s). length s)") (auto dest: strip_first_shorter)

declare strip_all.simps [simp del]

definition trim_start :: "string \<Rightarrow> string" where
  "trim_start s = strip_all whitespace s"

definition trim_end :: "string \<Rightarrow> string" where
  "trim_end s = rev (strip_all (map rev whitespace) (rev s))"

definition trim :: "string \<Rightarrow> string" where
  "trim s = trim_end (trim_start s)"

lemma strip_first_strip_all [simp]: "strip_first ws (strip_all ws s) = None"
proof (induction ws s rule: strip_all.induct)
  case (1 ws s)
  then show ?case by (subst strip_all.simps) (auto split: option.splits)
qed

lemma strip_all_fixed: "strip_first ws s = None \<Longrightarrow> strip_all ws s = s"
  by (subst strip_all.simps) simp

lemma strip_first_suffix: "strip_first ws s = Some t \<Longrightarrow> suffix t s"
  by (induction ws s rule: strip_first.induct) (auto split: if_splits simp: suffix_drop)

lemma strip_all_suffix: "suffix (strip_all ws s) s"
proof (induction ws s rule: strip_all.induct)
  case (1 ws s)
  then show ?case
    by (subst strip_all.simps)
      (auto split: option.splits dest: strip_first_suffix intro: suffix_order.trans)
qed

lemma strip_first_prefix_None:
  assumes "prefix t s" and "strip_first ws s = None"
  shows "strip_first ws t = None"
  using assms(2)
proof (induction ws)
  case Nil
  then show ?case by simp
next
  case (Cons w ws)
  have "w \<noteq> [] \<and> take (length w) t = w \<Longrightarrow> take (length w) s = w"
    using assms(1) by (metis length_take min.absorb_iff2 prefix_length_le take_is_prefix
        append_eq_conv_conj prefix_def prefix_order.trans)
  with Cons show ?case by (auto split: if_splits)
qed

lemma trim_end_prefix: "prefix (trim_end s) s"
  using strip_all_suffix[of "map rev whitespace" "rev s"]
  by (simp add: trim_end_def suffix_to_prefix)

lemma set_trim_subset: "set (trim s) \<subseteq> set s"
proof -
  have "set (trim_start s) \<subseteq> set s" by (simp add: trim_start_def set_mono_suffix strip_all_suffix)
  with set_mono_prefix[OF trim_end_prefix, of "trim_start s"] show ?thesis by (auto simp: trim_def)
qed

lemma trim_idem [simp]: "trim (trim s) = trim s"
proof -
  let ?t = "trim s"
  have "strip_first whitespace ?t = None"
    using strip_first_prefix_None[OF trim_end_prefix] by (simp add: trim_def trim_start_def)
  then have 1: "trim_start ?t = ?t" by (simp add: trim_start_def strip_all_fixed)
  have "strip_first (map rev whitespace) (rev ?t) = None"
    by (simp add: trim_def trim_end_def)
  then have "trim_end ?t = ?t" by (simp add: trim_end_def strip_all_fixed)
  with 1 show ?thesis by (simp add: trim_def)
qed

text \<open>\<^verbatim>\<open>str::split\<close> on one ASCII character, and \<^verbatim>\<open>split_once\<close>.\<close>

fun split_on :: "char \<Rightarrow> string \<Rightarrow> string list" where
  "split_on c [] = [[]]"
| "split_on c (x # xs) =
     (if x = c then [] # split_on c xs
      else (case split_on c xs of [] \<Rightarrow> [[x]] | p # ps \<Rightarrow> (x # p) # ps))"

lemma split_on_not_Nil [simp]: "split_on c s \<noteq> []"
  by (induction s) (auto split: list.splits)

fun split_once :: "char \<Rightarrow> string \<Rightarrow> (string \<times> string) option" where
  "split_once c [] = None"
| "split_once c (x # xs) =
     (if x = c then Some ([], xs)
      else map_option (\<lambda>(a, b). (x # a, b)) (split_once c xs))"

lemma split_on_no_sep: "c \<notin> set w \<Longrightarrow> split_on c w = [w]"
  by (induction w) auto

lemma split_on_prefix: "c \<notin> set w \<Longrightarrow> split_on c (w @ c # s) = w # split_on c s"
  by (induction w) auto

lemma split_on_head:
  "split_on c s = w # ps \<Longrightarrow> c \<notin> set w \<and> (s = w \<and> ps = [] \<or> (\<exists>t. s = w @ c # t \<and> ps = split_on c t))"
proof (induction s arbitrary: w ps)
  case Nil
  then show ?case by simp
next
  case (Cons a s)
  show ?case
  proof (cases "a = c")
    case True
    with Cons.prems show ?thesis by auto
  next
    case False
    then obtain w' where w': "split_on c s = w' # ps" "w = a # w'"
      using Cons.prems by (cases "split_on c s") auto
    from Cons.IH[OF w'(1)] w'(2) False show ?thesis by auto
  qed
qed

lemma split_once_None_iff: "split_once c s = None \<longleftrightarrow> c \<notin> set s"
  by (induction c s rule: split_once.induct) auto

lemma split_once_Some: "split_once c s = Some (a, b) \<Longrightarrow> s = a @ c # b \<and> c \<notin> set a"
  by (induction c s arbitrary: a b rule: split_once.induct) (auto split: if_splits)

lemma split_on_append:
  "split_on c (a @ b) = butlast (split_on c a) @ split_on c (last (split_on c a) @ b)"
proof (induction a)
  case Nil
  then show ?case by simp
next
  case (Cons x a)
  obtain p ps where p: "split_on c a = p # ps" by (cases "split_on c a") auto
  show ?case
  proof (cases "x = c")
    case True
    with Cons show ?thesis by simp
  next
    case False
    with Cons p show ?thesis
      by (cases ps) (auto split: list.splits)
  qed
qed

definition ascii_lower :: "char \<Rightarrow> char" where
  "ascii_lower c = (let n = of_char c :: nat in if 65 \<le> n \<and> n \<le> 90 then char_of (n + 32) else c)"

definition to_ascii_lowercase :: "string \<Rightarrow> string" where
  "to_ascii_lowercase s = map ascii_lower s"

definition starts_with :: "string \<Rightarrow> string \<Rightarrow> bool" where
  "starts_with p s \<longleftrightarrow> take (length p) s = p"

fun str_join :: "string \<Rightarrow> string list \<Rightarrow> string" where
  "str_join sep [] = []"
| "str_join sep [x] = x"
| "str_join sep (x # y # xs) = x @ sep @ str_join sep (y # xs)"

lemma ascii_lower_idem [simp]: "ascii_lower (ascii_lower c) = ascii_lower c"
  by (simp add: ascii_lower_def Let_def)

lemma to_ascii_lowercase_idem [simp]:
  "to_ascii_lowercase (to_ascii_lowercase s) = to_ascii_lowercase s"
  by (simp add: to_ascii_lowercase_def)

text \<open>Decimal \<^verbatim>\<open>Display\<close> of an unsigned integer.\<close>

fun show_nat :: "nat \<Rightarrow> string" where
  "show_nat n = (if n < 10 then [char_of (48 + n)] else show_nat (n div 10) @ [char_of (48 + n mod 10)])"

declare show_nat.simps [simp del]

text \<open>
  \<^verbatim>\<open>std::str::from_utf8\<close>: well-formed UTF-8 in the sense of the Unicode standard (no overlong
  forms, no surrogates, nothing above U+10FFFF).
\<close>

definition byte_in :: "nat \<Rightarrow> nat \<Rightarrow> char \<Rightarrow> bool" where
  "byte_in lo hi c \<longleftrightarrow> lo \<le> of_char c \<and> of_char c \<le> hi"

fun utf8_valid :: "bytes \<Rightarrow> bool" where
  "utf8_valid [] = True"
| "utf8_valid (a # s) =
     (if byte_in 0 0x7F a then utf8_valid s
      else (case s of [] \<Rightarrow> False
        | b # s1 \<Rightarrow>
          if byte_in 0xC2 0xDF a then byte_in 0x80 0xBF b \<and> utf8_valid s1
          else (case s1 of [] \<Rightarrow> False
            | c # s2 \<Rightarrow>
              if byte_in 0xE0 0xEF a then
                byte_in (if byte_in 0xE0 0xE0 a then 0xA0 else 0x80)
                        (if byte_in 0xED 0xED a then 0x9F else 0xBF) b
                \<and> byte_in 0x80 0xBF c \<and> utf8_valid s2
              else (case s2 of [] \<Rightarrow> False
                | d # s3 \<Rightarrow>
                  byte_in 0xF0 0xF4 a
                  \<and> byte_in (if byte_in 0xF0 0xF0 a then 0x90 else 0x80)
                            (if byte_in 0xF4 0xF4 a then 0x8F else 0xBF) b
                  \<and> byte_in 0x80 0xBF c \<and> byte_in 0x80 0xBF d \<and> utf8_valid s3))))"

subsection \<open>Hash maps\<close>

type_synonym ('k, 'v) hashmap = "('k \<times> 'v) list"

abbreviation hm_get :: "('k, 'v) hashmap \<Rightarrow> 'k \<Rightarrow> 'v option" where
  "hm_get \<equiv> map_of"

abbreviation hm_insert :: "'k \<Rightarrow> 'v \<Rightarrow> ('k, 'v) hashmap \<Rightarrow> ('k, 'v) hashmap" where
  "hm_insert \<equiv> AList.update"

abbreviation hm_delete :: "'k \<Rightarrow> ('k, 'v) hashmap \<Rightarrow> ('k, 'v) hashmap" where
  "hm_delete \<equiv> AList.delete"

definition hm_ok :: "('k, 'v) hashmap \<Rightarrow> bool" where
  "hm_ok m \<longleftrightarrow> distinct (map fst m)"

definition hm_values :: "('k, 'v) hashmap \<Rightarrow> 'v multiset" where
  "hm_values m = mset (map snd m)"

lemma hm_ok_Nil [simp]: "hm_ok []"
  by (simp add: hm_ok_def)

lemma hm_ok_insert [simp]: "hm_ok m \<Longrightarrow> hm_ok (hm_insert k v m)"
  by (simp add: hm_ok_def distinct_update)

lemma hm_ok_delete [simp]: "hm_ok m \<Longrightarrow> hm_ok (hm_delete k m)"
  by (simp add: hm_ok_def distinct_delete)

lemma hm_values_simps [simp, pending_simps]:
  "hm_values [] = {#}"
  "hm_values (p # m) = add_mset (snd p) (hm_values m)"
  by (simp_all add: hm_values_def)

lemma hm_values_append [pending_simps]: "hm_values (a @ b) = hm_values a + hm_values b"
  by (simp add: hm_values_def)

text \<open>Removing a key takes exactly its value out; inserting a fresh one puts it in.\<close>

lemma hm_mset_delete:
  assumes "hm_ok m" and "hm_get m k = Some v"
  shows "mset m = add_mset (k, v) (mset (hm_delete k m))"
  using assms
proof (induction m)
  case Nil
  then show ?case by simp
next
  case (Cons p m)
  show ?case
  proof (cases "fst p = k")
    case True
    with Cons.prems have "k \<notin> fst ` set m" by (auto simp: hm_ok_def)
    then have "hm_delete k m = m" by simp
    with True Cons.prems show ?thesis by (cases p) simp
  next
    case False
    with Cons show ?thesis by (cases p) (auto simp: hm_ok_def)
  qed
qed

lemma hm_values_delete [pending_simps]:
  "hm_ok m \<Longrightarrow> hm_get m k = Some v \<Longrightarrow> hm_values m = add_mset v (hm_values (hm_delete k m))"
  using arg_cong[OF hm_mset_delete, of m k v "image_mset snd"]
  by (simp add: hm_values_def flip: mset_map)

lemma hm_values_insert_fresh [pending_simps]:
  "hm_get m k = None \<Longrightarrow> hm_values (hm_insert k v m) = add_mset v (hm_values m)"
  by (induction m) auto

lemma hm_get_delete [simp]: "hm_get (hm_delete k m) k' = (if k = k' then None else hm_get m k')"
  by (simp add: delete_conv')

lemma hm_get_insert [simp]: "hm_get (hm_insert k v m) k' = (if k = k' then Some v else hm_get m k')"
  by (simp add: update_conv')

lemma hm_keys_insert [simp]: "fst ` set (hm_insert k v m) = insert k (fst ` set m)"
  by (simp add: dom_update)

lemma hm_keys_delete [simp]: "fst ` set (hm_delete k m) = fst ` set m - {k}"
  by (induction m) auto

lemma hm_get_None_iff: "hm_get m k = None \<longleftrightarrow> k \<notin> fst ` set m"
  by (rule map_of_eq_None_iff)

subsection \<open>The contract of a map\<close>

text \<open>
  What the code relies on where it fills a map with one entry after the other, be it a \<^verbatim>\<open>HashMap\<close> or a
  \<^verbatim>\<open>BTreeMap\<close>: a later entry overwrites an earlier one with the same key.
\<close>

locale keyed_map =
  fixes lookup :: "'m \<Rightarrow> 'k \<Rightarrow> 'v option" and put :: "'k \<Rightarrow> 'v \<Rightarrow> 'm \<Rightarrow> 'm" and ok :: "'m \<Rightarrow> bool"
  assumes lookup_put: "lookup (put k v m) = (lookup m)(k \<mapsto> v)"
    and ok_put: "ok m \<Longrightarrow> ok (put k v m)"
begin

lemma lookup_many: "lookup (fold (\<lambda>(k, v). put k v) kvs m) = lookup m ++ map_of (rev kvs)"
  by (induction kvs arbitrary: m) (auto simp: lookup_put fun_eq_iff map_add_def split: option.splits)

lemma lookup_many_distinct: "distinct (map fst kvs) \<Longrightarrow> lookup (fold (\<lambda>(k, v). put k v) kvs m) = lookup m ++ map_of kvs"
  using map_of_inject_set[of "rev kvs" kvs] by (simp add: lookup_many flip: rev_map)

lemma ok_many: "ok m \<Longrightarrow> ok (fold (\<lambda>(k, v). put k v) kvs m)"
  by (induction kvs arbitrary: m) (auto intro: ok_put)

lemma lookup_many_other: "k \<notin> fst ` set kvs \<Longrightarrow> lookup (fold (\<lambda>(k, v). put k v) kvs m) k = lookup m k"
  by (force simp: lookup_many map_add_def split: option.splits dest: map_of_SomeD)

end

interpretation hash: keyed_map hm_get hm_insert hm_ok
  by unfold_locales (auto simp: fun_eq_iff)

end
