(* ===== verification/Gw_Json.thy ===== *)
theory Gw_Json
  imports Gw_Prelude
begin

text \<open>
  JSON documents and the decoders that \<^verbatim>\<open>#[derive(Deserialize)]\<close> gives for the wire structs.

  The text of a document is parsed and printed by \<^verbatim>\<open>serde_json\<close>, which is not part of the
  repository: the parser and the printer are fields of the record \<open>ext\<close>, with every
  other library function the code calls. What the repository fixes is the shape of its structs
  (field names, \<^verbatim>\<open>rename\<close>, \<^verbatim>\<open>default\<close>), and the decoders translate exactly that.
\<close>

datatype json =
    JNull
  | JBool bool
  | JInt int
  | JFloat string
  | JStr string
  | JArr "json list"
  | JObj "(string \<times> json) list"

subsection \<open>Library functions the code calls\<close>

text \<open>
  Errors of library calls, by the input that caused them; their \<^verbatim>\<open>Display\<close> text is
  \<open>x_show_err\<close>. \<open>x_header_name\<close> is \<^verbatim>\<open>HeaderName::from_bytes\<close> (the normalised name, or an
  error), \<open>x_header_value\<close> says whether \<^verbatim>\<open>HeaderValue::from_str\<close> accepts a string,
  \<open>x_status\<close> whether \<^verbatim>\<open>StatusCode::from_u16\<close> accepts a number; \<open>x_b64_enc\<close> and
  \<open>x_b64_dec\<close> are the standard base64 engine; \<open>x_json_parse\<close> and \<open>x_json_print\<close> are the
  \<^verbatim>\<open>serde_json\<close> reader and writer; \<open>x_to_str\<close> says whether \<^verbatim>\<open>HeaderValue::to_str\<close> accepts a value.
\<close>

datatype ext_error =
    BadStatus nat
  | BadHeaderName string
  | BadHeaderValue string
  | BadBase64 string
  | BadJson bytes
  | BadYaml bytes
  | BadEncode
  | Bail string

record ext =
  x_header_name :: "string \<Rightarrow> string option"
  x_header_value :: "string \<Rightarrow> bool"
  x_status :: "nat \<Rightarrow> bool"
  x_b64_enc :: "bytes \<Rightarrow> string"
  x_b64_dec :: "string \<Rightarrow> bytes option"
  x_json_parse :: "bytes \<Rightarrow> json option"
  x_json_print :: "json \<Rightarrow> bytes option"
  x_show_err :: "ext_error \<Rightarrow> string"
  x_to_str :: "string \<Rightarrow> bool"

text \<open>\<^verbatim>\<open>Display\<close> of an \<^verbatim>\<open>anyhow\<close> error: the message itself for \<^verbatim>\<open>bail!\<close>.\<close>

fun show_err :: "ext \<Rightarrow> ext_error \<Rightarrow> string" where
  "show_err x (Bail msg) = msg"
| "show_err x e = x_show_err x e"

subsection \<open>Struct decoding\<close>

text \<open>
  A derived struct decoder reads an object, or (as the derive also allows) an array that lists
  the fields in declaration order. A known field that occurs twice in an object is an error;
  unknown fields are ignored; so is the order of the fields.
\<close>

definition struct_view :: "string list \<Rightarrow> json \<Rightarrow> (string \<times> json) list option" where
  "struct_view names j = (case j of
      JObj kvs \<Rightarrow>
        (let known = filter (\<lambda>(k, v). k \<in> set names) kvs
         in if distinct (map fst known) then Some known else None)
    | JArr xs \<Rightarrow> if length xs \<le> length names then Some (zip names xs) else None
    | _ \<Rightarrow> None)"

definition req_field :: "string \<Rightarrow> (json \<Rightarrow> 'a option) \<Rightarrow> (string \<times> json) list \<Rightarrow> 'a option" where
  "req_field name dec fs = Option.bind (map_of fs name) dec"

definition def_field :: "string \<Rightarrow> (json \<Rightarrow> 'a option) \<Rightarrow> 'a \<Rightarrow> (string \<times> json) list \<Rightarrow> 'a option" where
  "def_field name dec d fs = (case map_of fs name of None \<Rightarrow> Some d | Some j \<Rightarrow> dec j)"

fun dec_uint :: "nat \<Rightarrow> json \<Rightarrow> nat option" where
  "dec_uint bits (JInt i) = (if 0 \<le> i \<and> i < 2 ^ bits then Some (nat i) else None)"
| "dec_uint bits _ = None"

abbreviation dec_u8 :: "json \<Rightarrow> nat option" where
  "dec_u8 \<equiv> dec_uint 8"

abbreviation dec_u16 :: "json \<Rightarrow> nat option" where
  "dec_u16 \<equiv> dec_uint 16"

fun dec_bool :: "json \<Rightarrow> bool option" where
  "dec_bool (JBool b) = Some b"
| "dec_bool _ = None"

fun dec_string :: "json \<Rightarrow> string option" where
  "dec_string (JStr s) = Some s"
| "dec_string _ = None"

fun dec_list :: "(json \<Rightarrow> 'a option) \<Rightarrow> json \<Rightarrow> 'a list option" where
  "dec_list f (JArr xs) = all_some (map f xs)"
| "dec_list f _ = None"

text \<open>\<^verbatim>\<open>HashMap<String, String>\<close>: keys inserted one after the other, a later one overwriting.\<close>

fun dec_str_pairs :: "(string \<times> json) list \<Rightarrow> (string, string) hashmap \<Rightarrow>
    (string, string) hashmap option" where
  "dec_str_pairs [] m = Some m"
| "dec_str_pairs ((k, v) # kvs) m =
     (case dec_string v of None \<Rightarrow> None | Some s \<Rightarrow> dec_str_pairs kvs (hm_insert k s m))"

fun dec_str_map :: "json \<Rightarrow> (string, string) hashmap option" where
  "dec_str_map (JObj kvs) = dec_str_pairs kvs []"
| "dec_str_map _ = None"

fun dec_option :: "(json \<Rightarrow> 'a option) \<Rightarrow> json \<Rightarrow> 'a option option" where
  "dec_option f JNull = Some None"
| "dec_option f j = map_option Some (f j)"

text \<open>
  \<^verbatim>\<open>serde_json::Value\<close>: an object is a \<^verbatim>\<open>BTreeMap\<close>, sorted by the bytes of its keys, that holds each
  key once, with the value that came last. \<open>value_get\<close> is \<^verbatim>\<open>Value::get\<close> with a string,
  \<open>value_str\<close> is \<^verbatim>\<open>Value::as_str\<close>.
\<close>

fun str_less :: "string \<Rightarrow> string \<Rightarrow> bool" where
  "str_less s [] = False"
| "str_less [] (b # t) = True"
| "str_less (a # s) (b # t) = (if a = b then str_less s t else (of_char a :: nat) < of_char b)"

fun bt_insert :: "string \<Rightarrow> 'v \<Rightarrow> (string \<times> 'v) list \<Rightarrow> (string \<times> 'v) list" where
  "bt_insert k v [] = [(k, v)]"
| "bt_insert k v ((k', v') # m) =
     (if k = k' then (k, v) # m else if str_less k k' then (k, v) # (k', v') # m else (k', v') # bt_insert k v m)"

fun last_wins :: "(string \<times> 'v) list \<Rightarrow> (string \<times> 'v) list \<Rightarrow> (string \<times> 'v) list" where
  "last_wins [] m = m"
| "last_wins ((k, v) # kvs) m = last_wins kvs (bt_insert k v m)"

fun to_value :: "json \<Rightarrow> json" where
  "to_value (JArr xs) = JArr (map to_value xs)"
| "to_value (JObj kvs) = JObj (last_wins (map (\<lambda>(k, v). (k, to_value v)) kvs) [])"
| "to_value j = j"

fun value_get :: "json \<Rightarrow> string \<Rightarrow> json option" where
  "value_get (JObj kvs) k = map_of kvs k"
| "value_get _ k = None"

fun value_str :: "json \<Rightarrow> string option" where
  "value_str (JStr s) = Some s"
| "value_str _ = None"

text \<open>\<^verbatim>\<open>serde_json::from_slice\<close> into a struct, given its decoder.\<close>

definition from_slice :: "ext \<Rightarrow> (json \<Rightarrow> 'a option) \<Rightarrow> bytes \<Rightarrow> ext_error + 'a" where
  "from_slice x dec b = ok_or (BadJson b) (Option.bind (x_json_parse x b) dec)"

subsection \<open>Encoding\<close>

definition enc_str_map :: "(string, string) hashmap \<Rightarrow> json" where
  "enc_str_map m = JObj (map (\<lambda>(k, v). (k, JStr v)) m)"

definition enc_str_list :: "string list \<Rightarrow> json" where
  "enc_str_list xs = JArr (map JStr xs)"

definition opt_field :: "string \<Rightarrow> ('a \<Rightarrow> json) \<Rightarrow> 'a option \<Rightarrow> (string \<times> json) list" where
  "opt_field name enc v = (case v of None \<Rightarrow> [] | Some a \<Rightarrow> [(name, enc a)])"

definition map_field :: "string \<Rightarrow> (string, string) hashmap \<Rightarrow> (string \<times> json) list" where
  "map_field name m = (if m = [] then [] else [(name, enc_str_map m)])"

definition list_field :: "string \<Rightarrow> string list \<Rightarrow> (string \<times> json) list" where
  "list_field name xs = (if xs = [] then [] else [(name, enc_str_list xs)])"

definition to_vec :: "ext \<Rightarrow> json \<Rightarrow> ext_error + bytes" where
  "to_vec x j = ok_or BadEncode (x_json_print x j)"

subsection \<open>Decoding what was encoded\<close>

lemma dec_str_pairs_append:
  assumes "distinct (map fst m @ map fst kvs)"
  shows "dec_str_pairs (map (\<lambda>(k, v). (k, JStr v)) kvs) m = Some (m @ kvs)"
  using assms
proof (induction kvs arbitrary: m)
  case Nil
  then show ?case by simp
next
  case (Cons p kvs)
  obtain k v where p: "p = (k, v)" by force
  from Cons.prems p have "k \<notin> fst ` set m" by auto
  then have upd: "hm_insert k v m = m @ [(k, v)]" by (induction m) auto
  from Cons.prems p have "distinct (map fst (m @ [(k, v)]) @ map fst kvs)" by auto
  from Cons.IH[OF this] upd p show ?case by simp
qed

lemma dec_enc_str_map [simp]: "hm_ok m \<Longrightarrow> dec_str_map (enc_str_map m) = Some m"
  using dec_str_pairs_append[of "[]" m] by (simp add: enc_str_map_def hm_ok_def)

lemma dec_enc_str_list [simp]: "dec_list dec_string (enc_str_list xs) = Some xs"
proof -
  have "all_some (map (dec_string \<circ> JStr) xs) = Some xs" by (induction xs) simp_all
  then show ?thesis by (simp add: enc_str_list_def)
qed

lemma dec_str_pairs_ok: "dec_str_pairs kvs m = Some m' \<Longrightarrow> hm_ok m \<Longrightarrow> hm_ok m'"
  by (induction kvs m rule: dec_str_pairs.induct) (auto split: option.splits)

lemma dec_str_map_ok: "dec_str_map j = Some m \<Longrightarrow> hm_ok m"
  by (cases j) (auto dest: dec_str_pairs_ok)

lemma map_of_bt_insert [simp]: "map_of (bt_insert k v m) = (map_of m)(k \<mapsto> v)"
  by (induction k v m rule: bt_insert.induct) (auto simp: fun_eq_iff)

lemma keys_bt_insert [simp]: "fst ` set (bt_insert k v m) = insert k (fst ` set m)"
  by (induction k v m rule: bt_insert.induct) auto

lemma str_less_irrefl [simp]: "\<not> str_less s s"
  by (induction s) auto

lemma str_less_trans: "str_less s t \<Longrightarrow> str_less t u \<Longrightarrow> str_less s u"
proof (induction s t arbitrary: u rule: str_less.induct)
  case (2 b t)
  then show ?case by (cases u) auto
next
  case (3 a s b t)
  then show ?case by (cases u) (auto split: if_splits)
qed simp

lemma str_less_linear: "s \<noteq> t \<Longrightarrow> str_less s t \<or> str_less t s"
proof (induction s t rule: str_less.induct)
  case (1 s)
  then show ?case by (cases s) auto
next
  case (3 a s b t)
  then show ?case by (auto simp: of_char_eq_iff intro: linorder_neqE_nat)
qed simp

text \<open>A \<^verbatim>\<open>BTreeMap\<close> as a list: sorted by its keys.\<close>

definition bt_ok :: "(string \<times> 'v) list \<Rightarrow> bool" where
  "bt_ok m \<longleftrightarrow> sorted_wrt str_less (map fst m)"

lemma bt_ok_simps [simp]:
  "bt_ok []"
  "bt_ok ((k, v) # m) \<longleftrightarrow> (\<forall>k' \<in> fst ` set m. str_less k k') \<and> bt_ok m"
  by (auto simp: bt_ok_def)

lemma bt_insert_ok: "bt_ok m \<Longrightarrow> bt_ok (bt_insert k v m)"
proof (induction m)
  case (Cons p m)
  obtain k' v' where p: "p = (k', v')" by force
  consider "k = k'" | "k \<noteq> k'" "str_less k k'" | "k \<noteq> k'" "\<not> str_less k k'" "str_less k' k"
    using str_less_linear[of k k'] by blast
  then show ?case
  proof cases
    case 1
    with Cons.prems p show ?thesis by simp
  next
    case 2
    with Cons.prems p have "\<forall>k'' \<in> fst ` set m. str_less k k''" by (blast intro: str_less_trans[of k k'] dest: bt_ok_simps(2)[THEN iffD1])
    with 2 Cons.prems p show ?thesis by simp
  next
    case 3
    with Cons p show ?thesis by simp
  qed
qed simp

lemma bt_ok_distinct: "bt_ok m \<Longrightarrow> hm_ok m"
proof (unfold bt_ok_def hm_ok_def)
  have "sorted_wrt str_less ks \<Longrightarrow> distinct ks" for ks by (induction ks) auto
  then show "sorted_wrt str_less (map fst m) \<Longrightarrow> distinct (map fst m)" .
qed

interpretation btree: keyed_map map_of bt_insert bt_ok
  by unfold_locales (auto intro: bt_insert_ok)

lemma last_wins_fold: "last_wins kvs m = fold (\<lambda>(k, v). bt_insert k v) kvs m"
  by (induction kvs m rule: last_wins.induct) auto

lemma last_wins_sorted: "bt_ok m \<Longrightarrow> bt_ok (last_wins kvs m)"
  unfolding last_wins_fold by (rule btree.ok_many)

lemma last_wins_ok: "hm_ok (last_wins kvs [])"
  using last_wins_sorted[of "[]" kvs] by (auto intro: bt_ok_distinct)

lemma last_wins_keys: "fst ` set (last_wins kvs m) = fst ` set kvs \<union> fst ` set m"
  by (induction kvs m rule: last_wins.induct) auto

lemma map_of_last_wins: "distinct (map fst kvs) \<Longrightarrow> map_of (last_wins kvs m) = map_of m ++ map_of kvs"
  unfolding last_wins_fold by (rule btree.lookup_many_distinct)

subsection \<open>A concrete environment\<close>

text \<open>Library functions for the closed examples: base64 is the identity, no document parses.\<close>

definition plain_ext :: ext where
  "plain_ext = \<lparr>x_header_name = (\<lambda>s. Some (to_ascii_lowercase s)), x_header_value = (\<lambda>s. True),
     x_status = (\<lambda>n. 100 \<le> n \<and> n < 1000), x_b64_enc = id, x_b64_dec = Some,
     x_json_parse = (\<lambda>b. None), x_json_print = (\<lambda>j. None), x_show_err = (\<lambda>e. ''error''),
     x_to_str = (\<lambda>s. True)\<rparr>"

end
