(* ===== verification/Gw_Http.thy ===== *)
theory Gw_Http
  imports Gw_Json
begin

text \<open>
  Responses of the gateway and the pure helpers of \<^verbatim>\<open>gateway/src/batching.rs\<close> that turn a
  request into the fields of a batch item and a Lambda record into a client response:
  body encoding and decoding, cookie and \<^verbatim>\<open>x-forwarded-for\<close> parsing, header conversion.
\<close>

subsection \<open>Responses\<close>

record gateway_response_meta =
  rm_batch_size :: nat
  rm_batch_wait_ms :: nat

text \<open>A header map keeps insertion order and may hold several values of one name.\<close>

type_synonym header_map = "(string \<times> string) list"

record gateway_response =
  gr_status :: nat
  gr_headers :: header_map
  gr_body :: bytes
  gr_meta :: "gateway_response_meta option"

definition text_response :: "nat \<Rightarrow> string \<Rightarrow> gateway_response" where
  "text_response status b = \<lparr>gr_status = status, gr_headers = [], gr_body = b, gr_meta = None\<rparr>"

definition with_meta :: "nat \<Rightarrow> nat \<Rightarrow> gateway_response \<Rightarrow> gateway_response" where
  "with_meta batch_size wait_ms r =
     r\<lparr>gr_meta := Some \<lparr>rm_batch_size = batch_size, rm_batch_wait_ms = wait_ms\<rparr>\<rparr>"

definition header_insert :: "string \<Rightarrow> string \<Rightarrow> header_map \<Rightarrow> header_map" where
  "header_insert n v h = filter (\<lambda>p. fst p \<noteq> n) h @ [(n, v)]"

definition header_append :: "string \<Rightarrow> string \<Rightarrow> header_map \<Rightarrow> header_map" where
  "header_append n v h = h @ [(n, v)]"

definition header_get_all :: "string \<Rightarrow> header_map \<Rightarrow> string list" where
  "header_get_all n h = map snd (filter (\<lambda>p. fst p = n) h)"

subsection \<open>Request side\<close>

definition encode_body :: "ext \<Rightarrow> bytes \<Rightarrow> string option \<times> bool" where
  "encode_body x b =
     (if b = [] then (None, False)
      else if CHR 0x00 \<in> set b then (Some (x_b64_enc x b), True)
      else if utf8_valid b then (Some b, False)
      else (Some (x_b64_enc x b), True))"

definition parse_cookie_header :: "(string, string) hashmap \<Rightarrow> string list option" where
  "parse_cookie_header hs =
     (case hm_get hs ''cookie'' of
        None \<Rightarrow> None
      | Some v \<Rightarrow>
          (let cookies = filter (\<lambda>c. c \<noteq> []) (map trim (split_on (CHR '';'') v))
           in if cookies = [] then None else Some cookies))"

definition extract_source_ip :: "(string, string) hashmap \<Rightarrow> string option" where
  "extract_source_ip hs =
     (case hm_get hs ''x-forwarded-for'' of
        None \<Rightarrow> None
      | Some v \<Rightarrow>
          (case split_on (CHR '','') v of
             [] \<Rightarrow> None
           | p # _ \<Rightarrow> (let ip = trim p in if ip = [] then None else Some ip)))"

subsection \<open>Response side\<close>

fun headers_from_map_loop :: "ext \<Rightarrow> (string, string) hashmap \<Rightarrow> header_map \<Rightarrow> ext_error + header_map" where
  "headers_from_map_loop x [] h = Inr h"
| "headers_from_map_loop x ((k, v) # kvs) h =
     (case x_header_name x k of
        None \<Rightarrow> Inl (BadHeaderName k)
      | Some n \<Rightarrow>
          if x_header_value x v then headers_from_map_loop x kvs (header_insert n v h)
          else Inl (BadHeaderValue v))"

definition headers_from_map :: "ext \<Rightarrow> (string, string) hashmap \<Rightarrow> ext_error + header_map" where
  "headers_from_map x m = headers_from_map_loop x m []"

fun append_cookies :: "ext \<Rightarrow> header_map \<Rightarrow> string list \<Rightarrow> ext_error + header_map" where
  "append_cookies x h [] = Inr h"
| "append_cookies x h (c # cs) =
     (let c = trim c
      in if c = [] then append_cookies x h cs
         else if x_header_value x c then append_cookies x (header_append ''set-cookie'' c h) cs
         else Inl (BadHeaderValue c))"

definition decode_body_bytes :: "ext \<Rightarrow> string \<Rightarrow> bool \<Rightarrow> ext_error + bytes" where
  "decode_body_bytes x b is_base64 =
     (if is_base64 then ok_or (BadBase64 b) (x_b64_dec x b) else Inr b)"

definition build_gateway_response_parts ::
  "ext \<Rightarrow> nat \<Rightarrow> (string, string) hashmap \<Rightarrow> string list \<Rightarrow> string \<Rightarrow> bool \<Rightarrow> ext_error + gateway_response" where
  "build_gateway_response_parts x status_code headers_in cookies b is_base64 =
     (if \<not> x_status x status_code then Inl (BadStatus status_code)
      else res_bind (headers_from_map x headers_in) (\<lambda>h.
           res_bind (append_cookies x h cookies) (\<lambda>h.
           res_bind (decode_body_bytes x b is_base64) (\<lambda>bb.
             Inr \<lparr>gr_status = status_code, gr_headers = h, gr_body = bb, gr_meta = None\<rparr>))))"

subsection \<open>Facts\<close>

lemma header_get_all_append [simp]:
  "header_get_all n (a @ b) = header_get_all n a @ header_get_all n b"
  by (simp add: header_get_all_def)

lemma header_get_all_Nil [simp]: "header_get_all n [] = []"
  by (simp add: header_get_all_def)

lemma header_get_all_insert [simp]:
  "header_get_all n (header_insert k v h) = (if n = k then [v] else header_get_all n h)"
  by (auto simp: header_get_all_def header_insert_def intro!: arg_cong[where f = "map snd"] filter_cong)

lemma header_get_all_header_append [simp]:
  "header_get_all n (header_append k v h) = header_get_all n h @ (if n = k then [v] else [])"
  by (simp add: header_get_all_def header_append_def)

text \<open>A body that is sent is read back: text as it is, anything else through base64.\<close>

lemma encode_body_cases:
  "encode_body x b = (None, False) \<and> b = []
   \<or> encode_body x b = (Some b, False) \<and> b \<noteq> [] \<and> utf8_valid b \<and> CHR 0x00 \<notin> set b
   \<or> encode_body x b = (Some (x_b64_enc x b), True) \<and> b \<noteq> []"
  by (auto simp: encode_body_def)

text \<open>The non-empty trimmed cookies, in order, one \<^verbatim>\<open>set-cookie\<close> header each.\<close>

definition clean_cookies :: "string list \<Rightarrow> string list" where
  "clean_cookies cs = filter (\<lambda>c. c \<noteq> []) (map trim cs)"

lemma append_cookies_Inr:
  "append_cookies x h cs = Inr h' \<Longrightarrow> h' = h @ map (Pair ''set-cookie'') (clean_cookies cs)"
  by (induction x h cs rule: append_cookies.induct)
    (auto simp: clean_cookies_def Let_def header_append_def split: if_splits)

lemma append_cookies_total:
  "\<forall>c \<in> set (clean_cookies cs). x_header_value x c \<Longrightarrow>
   append_cookies x h cs = Inr (h @ map (Pair ''set-cookie'') (clean_cookies cs))"
  by (induction x h cs rule: append_cookies.induct)
    (auto simp: clean_cookies_def Let_def header_append_def)

lemma append_cookies_Inl:
  "append_cookies x h cs = Inl e \<Longrightarrow> \<exists>c \<in> set (clean_cookies cs). \<not> x_header_value x c \<and> e = BadHeaderValue c"
  by (induction x h cs rule: append_cookies.induct)
    (auto simp: clean_cookies_def Let_def split: if_splits)

text \<open>
  Header conversion: every accepted header is present under its normalised name with one value,
  and that value comes from the map.
\<close>

lemma headers_from_map_loop_values:
  assumes "headers_from_map_loop x m h = Inr h'"
  shows "header_get_all n h' = (if \<exists>p \<in> set m. x_header_name x (fst p) = Some n
     then [snd (last (filter (\<lambda>p. x_header_name x (fst p) = Some n) m))]
     else header_get_all n h)"
  using assms
proof (induction x m h rule: headers_from_map_loop.induct)
  case (1 x h)
  then show ?case by simp
next
  case (2 x k v kvs h)
  then obtain n' where n': "x_header_name x k = Some n'" "x_header_value x v"
    "headers_from_map_loop x kvs (header_insert n' v h) = Inr h'"
    by (auto split: option.splits if_splits)
  from "2.IH"[OF n'] n'(1) show ?case
    by (auto simp: filter_empty_conv)
qed

lemma headers_from_map_loop_total:
  "\<forall>p \<in> set m. x_header_name x (fst p) \<noteq> None \<and> x_header_value x (snd p) \<Longrightarrow>
   \<exists>h'. headers_from_map_loop x m h = Inr h'"
  by (induction x m h rule: headers_from_map_loop.induct) auto

lemma headers_from_map_loop_Inr_iff:
  "(\<exists>h'. headers_from_map_loop x m h = Inr h') \<longleftrightarrow>
   (\<forall>p \<in> set m. x_header_name x (fst p) \<noteq> None \<and> x_header_value x (snd p))"
  by (induction x m h rule: headers_from_map_loop.induct) (auto split: option.splits)

lemma headers_from_map_values:
  assumes "headers_from_map x m = Inr h"
  shows "header_get_all n h = (if \<exists>p \<in> set m. x_header_name x (fst p) = Some n
     then [snd (last (filter (\<lambda>p. x_header_name x (fst p) = Some n) m))] else [])"
  using headers_from_map_loop_values[of x m "[]" h n] assms by (simp add: headers_from_map_def)

lemma headers_from_map_Inr_iff:
  "(\<exists>h. headers_from_map x m = Inr h) \<longleftrightarrow>
   (\<forall>p \<in> set m. x_header_name x (fst p) \<noteq> None \<and> x_header_value x (snd p))"
  by (simp add: headers_from_map_def headers_from_map_loop_Inr_iff)

lemma with_meta_simps [simp]:
  "gr_status (with_meta b w r) = gr_status r"
  "gr_headers (with_meta b w r) = gr_headers r"
  "gr_body (with_meta b w r) = gr_body r"
  "gr_meta (with_meta b w r) = Some \<lparr>rm_batch_size = b, rm_batch_wait_ms = w\<rparr>"
  by (simp_all add: with_meta_def)

lemma text_response_simps [simp]:
  "gr_status (text_response s b) = s"
  "gr_headers (text_response s b) = []"
  "gr_body (text_response s b) = b"
  "gr_meta (text_response s b) = None"
  by (simp_all add: text_response_def)

end
