(* ===== verification/Gw_Channels.thy ===== *)
theory Gw_Channels
  imports Gw_Http
begin

text \<open>
  The reply channels between the HTTP handlers and the batching tasks, as the tasks use them.

  A \<^verbatim>\<open>oneshot\<close> or \<^verbatim>\<open>mpsc\<close> sender is the number of its channel. Every use of a sender is an
  entry of a log: a send on a one-shot channel, a send on a body channel, and also the implicit
  drop of a sender that goes out of scope unused, because the waiting handler sees it as an error.
  Whether the receiving end still exists when a send is tried depends on the client; the
  environment \<open>env\<close> answers it for every position of the log, so any behaviour of the clients is
  some \<open>env\<close>.
\<close>

type_synonym chan = nat

record stream_head =
  sh_status :: nat
  sh_headers :: header_map
  sh_meta :: gateway_response_meta

datatype stream_init = InitResponse gateway_response | InitStream stream_head

datatype event =
    Reply chan gateway_response
  | ReplyDropped chan
  | Init chan stream_init bool
  | InitDropped chan
  | Body chan bytes bool
  | BodyClosed chan

type_synonym log = "event list"
type_synonym env = "nat \<Rightarrow> chan \<Rightarrow> bool"

text \<open>\<^verbatim>\<open>StreamPending\<close>, and \<^verbatim>\<open>ResponseSink\<close> with the \<^verbatim>\<open>StreamSender\<close> inlined.\<close>

record stream_pending =
  st_init :: "chan option"
  st_body :: chan

datatype response_sink = SinkBuffered chan | SinkStream chan chan

definition send_init :: "env \<Rightarrow> chan \<Rightarrow> stream_init \<Rightarrow> log \<Rightarrow> bool \<times> log" where
  "send_init env c msg log = (let ok = env (length log) c in (ok, log @ [Init c msg ok]))"

definition send_body :: "env \<Rightarrow> chan \<Rightarrow> bytes \<Rightarrow> log \<Rightarrow> bool \<times> log" where
  "send_body env c b log = (let ok = env (length log) c in (ok, log @ [Body c b ok]))"

text \<open>A pending stream entry going out of scope: an unused \<^verbatim>\<open>init\<close> is dropped, the body is closed.\<close>

definition drop_entry :: "stream_pending \<Rightarrow> log \<Rightarrow> log" where
  "drop_entry e log =
     log @ (case st_init e of None \<Rightarrow> [] | Some c \<Rightarrow> [InitDropped c]) @ [BodyClosed (st_body e)]"

subsection \<open>Failing every pending request\<close>

definition fail_all_buffered ::
  "nat \<Rightarrow> nat \<Rightarrow> nat \<Rightarrow> string \<Rightarrow> (string, chan) hashmap \<Rightarrow> log \<Rightarrow> log" where
  "fail_all_buffered batch_size wait_ms status msg pending log =
     log @ map (\<lambda>p. Reply (snd p) (with_meta batch_size wait_ms (text_response status msg))) pending"

fun fail_all_stream ::
  "env \<Rightarrow> nat \<Rightarrow> nat \<Rightarrow> nat \<Rightarrow> string \<Rightarrow> (string, stream_pending) hashmap \<Rightarrow> log \<Rightarrow> log" where
  "fail_all_stream env batch_size wait_ms status msg [] log = log"
| "fail_all_stream env batch_size wait_ms status msg ((i, e) # pending) log =
     (let log = (case st_init e of
          None \<Rightarrow> log
        | Some c \<Rightarrow> snd (send_init env c
            (InitResponse (with_meta batch_size wait_ms (text_response status msg))) log))
      in fail_all_stream env batch_size wait_ms status msg pending (log @ [BodyClosed (st_body e)]))"

subsection \<open>Settled and owed channels\<close>

text \<open>
  A reply channel is settled when something was sent on it or its sender was dropped: then the
  handler waiting on it wakes up. A pending table owes the channels it still holds.
\<close>

fun settled1 :: "event \<Rightarrow> chan multiset" where
  "settled1 (Reply c r) = {#c#}"
| "settled1 (ReplyDropped c) = {#c#}"
| "settled1 (Init c m ok) = {#c#}"
| "settled1 (InitDropped c) = {#c#}"
| "settled1 (Body c b ok) = {#}"
| "settled1 (BodyClosed c) = {#}"

fun closed1 :: "event \<Rightarrow> chan multiset" where
  "closed1 (BodyClosed c) = {#c#}"
| "closed1 _ = {#}"

definition settled :: "log \<Rightarrow> chan multiset" where
  "settled log = sum_list (map settled1 log)"

definition closed :: "log \<Rightarrow> chan multiset" where
  "closed log = sum_list (map closed1 log)"

definition owed_buffered :: "(string, chan) hashmap \<Rightarrow> chan multiset" where
  "owed_buffered m = hm_values m"

definition init_of :: "stream_pending \<Rightarrow> chan multiset" where
  "init_of e = (case st_init e of None \<Rightarrow> {#} | Some c \<Rightarrow> {#c#})"

definition owed_stream :: "(string, stream_pending) hashmap \<Rightarrow> chan multiset" where
  "owed_stream m = sum_list (map (init_of \<circ> snd) m)"

definition open_bodies :: "(string, stream_pending) hashmap \<Rightarrow> chan multiset" where
  "open_bodies m = mset (map (st_body \<circ> snd) m)"

lemma settled_simps [simp, pending_simps]:
  "settled [] = {#}" "settled (e # log) = settled1 e + settled log"
  "settled (a @ b) = settled a + settled b"
  by (simp_all add: settled_def)

lemma closed_simps [simp, pending_simps]:
  "closed [] = {#}" "closed (e # log) = closed1 e + closed log"
  "closed (a @ b) = closed a + closed b"
  by (simp_all add: closed_def)

lemma owed_simps [simp, pending_simps]:
  "owed_buffered [] = {#}" "owed_buffered (p # m) = add_mset (snd p) (owed_buffered m)"
  "owed_stream [] = {#}" "owed_stream (q # n) = init_of (snd q) + owed_stream n"
  "open_bodies [] = {#}" "open_bodies (q # n) = add_mset (st_body (snd q)) (open_bodies n)"
  by (simp_all add: owed_buffered_def owed_stream_def open_bodies_def)

lemma owed_stream_values: "owed_stream m = \<Sum>\<^sub># (image_mset init_of (hm_values m))"
  by (induction m) simp_all

lemma open_bodies_values: "open_bodies m = image_mset st_body (hm_values m)"
  by (induction m) simp_all

lemma owed_buffered_values: "owed_buffered m = hm_values m"
  by (simp add: owed_buffered_def)

lemmas owed_values = owed_stream_values open_bodies_values owed_buffered_values

lemma send_init_settled [simp]:
  "settled (snd (send_init env c m log)) = settled log + {#c#}"
  "closed (snd (send_init env c m log)) = closed log"
  by (simp_all add: send_init_def Let_def)

lemma send_body_settled [simp]:
  "settled (snd (send_body env c b log)) = settled log"
  "closed (snd (send_body env c b log)) = closed log"
  by (simp_all add: send_body_def Let_def)

lemma drop_entry_settled [simp]:
  "settled (drop_entry e log) = settled log + init_of e"
  "closed (drop_entry e log) = closed log + {#st_body e#}"
  by (simp_all add: drop_entry_def init_of_def split: option.splits)

lemma fail_all_buffered_settled [simp]:
  "settled (fail_all_buffered bs w st msg p log) = settled log + owed_buffered p"
  by (induction p) (simp_all add: fail_all_buffered_def)

lemma fail_all_buffered_closed [simp]:
  "closed (fail_all_buffered bs w st msg p log) = closed log"
  by (induction p) (simp_all add: fail_all_buffered_def)

lemma fail_all_stream_settled [simp]:
  "settled (fail_all_stream env bs w st msg p log) = settled log + owed_stream p"
  by (induction env bs w st msg p log rule: fail_all_stream.induct)
    (simp_all add: Let_def init_of_def split: option.splits)

lemma fail_all_stream_closed [simp]:
  "closed (fail_all_stream env bs w st msg p log) = closed log + open_bodies p"
  by (induction env bs w st msg p log rule: fail_all_stream.induct)
    (simp_all add: Let_def split: option.splits)

text \<open>Logs only grow.\<close>

lemma send_init_prefix: "prefix log (snd (send_init env c m log))"
  by (simp add: send_init_def Let_def)

lemma send_body_prefix: "prefix log (snd (send_body env c b log))"
  by (simp add: send_body_def Let_def)

lemma drop_entry_prefix: "prefix log (drop_entry e log)"
  by (simp add: drop_entry_def)

lemma fail_all_buffered_prefix: "prefix log (fail_all_buffered bs w st msg p log)"
  by (simp add: fail_all_buffered_def)

lemma fail_all_stream_prefix: "prefix log (fail_all_stream env bs w st msg p log)"
proof (induction env bs w st msg p log rule: fail_all_stream.induct)
  case (2 env bs w st msg i e pending log)
  let ?log = "case st_init e of None \<Rightarrow> log
     | Some c \<Rightarrow> snd (send_init env c (InitResponse (with_meta bs w (text_response st msg))) log)"
  have "prefix log (?log @ [BodyClosed (st_body e)])"
    by (auto split: option.splits intro: prefix_order.trans[OF send_init_prefix])
  note step = prefix_order.trans[OF this]
  from 2 show ?case by (simp add: Let_def step)
qed simp

lemmas log_prefixes = send_init_prefix send_body_prefix drop_entry_prefix
  fail_all_buffered_prefix fail_all_stream_prefix

subsection \<open>The contract of a failing sink\<close>

text \<open>
  The flush path treats both kinds of pending table the same way: a table that cannot be invoked
  is failed as a whole, and that settles everything it owes and nothing else.
\<close>

locale failing_sink =
  fixes owed :: "(string, 't) hashmap \<Rightarrow> chan multiset"
    and fail_all :: "nat \<Rightarrow> nat \<Rightarrow> nat \<Rightarrow> string \<Rightarrow> (string, 't) hashmap \<Rightarrow> log \<Rightarrow> log"
  assumes owed_by_values: "hm_values m = hm_values a + hm_values b \<Longrightarrow> owed m = owed a + owed b"
    and fail_all_settles: "settled (fail_all bs w st msg p log) = settled log + owed p"
    and fail_all_grows: "prefix log (fail_all bs w st msg p log)"
begin

lemma owed_empty: "owed [] = {#}"
  using owed_by_values[of "[]" "[]" "[]"] by simp

lemma owed_split_many:
  "hm_values m = sum_list (map hm_values ms) \<Longrightarrow> owed m = sum_list (map owed ms)"
proof (induction ms arbitrary: m)
  case Nil
  then have "owed m = owed [] + owed []" by (intro owed_by_values) simp
  then show ?case by (simp add: owed_empty)
next
  case (Cons a ms)
  have "hm_values (concat ms) = sum_list (map hm_values ms)"
    by (induction ms) (simp_all add: hm_values_append)
  with Cons have "owed m = owed a + owed (concat ms)" by (intro owed_by_values) simp
  with Cons.IH[of "concat ms"] \<open>hm_values (concat ms) = _\<close> show ?case by simp
qed

end

interpretation buffered_sink: failing_sink owed_buffered fail_all_buffered
  by unfold_locales (simp_all add: owed_values fail_all_buffered_prefix)

interpretation stream_sink: failing_sink owed_stream "fail_all_stream env" for env
  by unfold_locales (simp_all add: owed_values fail_all_stream_prefix)

end
