(* ===== verification/Gw_Stream.thy ===== *)
theory Gw_Stream
  imports Gw_Channels "HOL-Library.Monad_Syntax"
begin

text \<open>
  The response-stream path of \<^verbatim>\<open>gateway/src/batching.rs\<close>: NDJSON framing over a stream of
  byte chunks, decoding of the two kinds of record, and dispatch of one record to the pending
  request it names (\<^verbatim>\<open>dispatch_response_stream\<close>, \<^verbatim>\<open>parse_stream_record\<close>,
  \<^verbatim>\<open>dispatch_stream_record\<close>, \<^verbatim>\<open>send_stream_head\<close>).
\<close>

subsection \<open>Records\<close>

record legacy_record =
  lr_v :: nat
  lr_id :: string
  lr_status_code :: nat
  lr_headers :: "(string, string) hashmap"
  lr_cookies :: "string list"
  lr_body :: string
  lr_is_base64_encoded :: bool

datatype stream_record_type = RHead | RChunk | REnd | RError

record interleaved_record =
  ir_v :: nat
  ir_id :: string
  ir_type :: stream_record_type
  ir_status_code :: "nat option"
  ir_headers :: "(string, string) hashmap"
  ir_cookies :: "string list"
  ir_body :: "string option"
  ir_is_base64_encoded :: bool
  ir_message :: "string option"

datatype stream_record = Legacy legacy_record | Interleaved interleaved_record

definition record_variant :: "string \<Rightarrow> stream_record_type option" where
  "record_variant s =
     (if s = ''head'' then Some RHead else if s = ''chunk'' then Some RChunk
      else if s = ''end'' then Some REnd else if s = ''error'' then Some RError else None)"

text \<open>A unit variant is written as its name, or as an object with that one key and a null.\<close>

definition dec_record_type :: "json \<Rightarrow> stream_record_type option" where
  "dec_record_type j = (case j of
      JStr s \<Rightarrow> record_variant s
    | JObj [(s, JNull)] \<Rightarrow> record_variant s
    | _ \<Rightarrow> None)"

definition dec_legacy_record :: "json \<Rightarrow> legacy_record option" where
  "dec_legacy_record j = do {
     fs \<leftarrow> struct_view [''v'', ''id'', ''statusCode'', ''headers'', ''cookies'', ''body'', ''isBase64Encoded''] j;
     v \<leftarrow> req_field ''v'' dec_u8 fs;
     i \<leftarrow> req_field ''id'' dec_string fs;
     status_code \<leftarrow> req_field ''statusCode'' dec_u16 fs;
     hs \<leftarrow> def_field ''headers'' dec_str_map [] fs;
     cookies \<leftarrow> def_field ''cookies'' (dec_list dec_string) [] fs;
     b \<leftarrow> def_field ''body'' dec_string [] fs;
     is_base64 \<leftarrow> def_field ''isBase64Encoded'' dec_bool False fs;
     Some \<lparr>lr_v = v, lr_id = i, lr_status_code = status_code, lr_headers = hs, lr_cookies = cookies,
           lr_body = b, lr_is_base64_encoded = is_base64\<rparr>
   }"

definition dec_interleaved_record :: "json \<Rightarrow> interleaved_record option" where
  "dec_interleaved_record j = do {
     fs \<leftarrow> struct_view [''v'', ''id'', ''type'', ''statusCode'', ''headers'', ''cookies'', ''body'',
                         ''isBase64Encoded'', ''message''] j;
     v \<leftarrow> req_field ''v'' dec_u8 fs;
     i \<leftarrow> req_field ''id'' dec_string fs;
     t \<leftarrow> req_field ''type'' dec_record_type fs;
     status_code \<leftarrow> def_field ''statusCode'' (dec_option dec_u16) None fs;
     hs \<leftarrow> def_field ''headers'' dec_str_map [] fs;
     cookies \<leftarrow> def_field ''cookies'' (dec_list dec_string) [] fs;
     b \<leftarrow> def_field ''body'' (dec_option dec_string) None fs;
     is_base64 \<leftarrow> def_field ''isBase64Encoded'' dec_bool False fs;
     msg \<leftarrow> def_field ''message'' (dec_option dec_string) None fs;
     Some \<lparr>ir_v = v, ir_id = i, ir_type = t, ir_status_code = status_code, ir_headers = hs,
           ir_cookies = cookies, ir_body = b, ir_is_base64_encoded = is_base64, ir_message = msg\<rparr>
   }"

definition parse_stream_record :: "ext \<Rightarrow> bytes \<Rightarrow> string + stream_record" where
  "parse_stream_record x line =
     map_err (\<lambda>err. ''bad ndjson record: '' @ show_err x err)
       (res_bind (from_slice x (Some \<circ> to_value) line) (\<lambda>val.
          if value_get val ''type'' \<noteq> None
          then ok_or (BadJson line) (map_option Interleaved (dec_interleaved_record val))
          else ok_or (BadJson line) (map_option Legacy (dec_legacy_record val))))"

subsection \<open>Dispatch of one record\<close>

definition stream_head_of :: "ext \<Rightarrow> nat \<Rightarrow> nat \<Rightarrow> nat \<Rightarrow> (string, string) hashmap \<Rightarrow> string list \<Rightarrow>
    string + stream_head" where
  "stream_head_of x batch_size wait_ms status_code hs cookies =
     (if \<not> x_status x status_code
      then Inl (''bad status code: '' @ show_err x (BadStatus status_code))
      else res_bind (map_err (\<lambda>e. ''bad response headers: '' @ show_err x e) (headers_from_map x hs)) (\<lambda>h.
           res_bind (map_err (\<lambda>e. ''bad response cookies: '' @ show_err x e) (append_cookies x h cookies)) (\<lambda>h.
             Inr \<lparr>sh_status = status_code, sh_headers = h,
                  sh_meta = \<lparr>rm_batch_size = batch_size, rm_batch_wait_ms = wait_ms\<rparr>\<rparr>)))"

text \<open>Result, the entry without its \<^verbatim>\<open>init\<close>, and the log; a taken \<^verbatim>\<open>init\<close> is dropped on an error.\<close>

definition send_stream_head :: "ext \<Rightarrow> env \<Rightarrow> nat \<Rightarrow> nat \<Rightarrow> nat \<Rightarrow> (string, string) hashmap \<Rightarrow>
    string list \<Rightarrow> stream_pending \<Rightarrow> log \<Rightarrow> (string + bool) \<times> stream_pending \<times> log" where
  "send_stream_head x env batch_size wait_ms status_code hs cookies entry log =
     (case st_init entry of
        None \<Rightarrow> (Inr True, entry, log)
      | Some c \<Rightarrow>
          (case stream_head_of x batch_size wait_ms status_code hs cookies of
             Inl msg \<Rightarrow> (Inl msg, entry\<lparr>st_init := None\<rparr>, log @ [InitDropped c])
           | Inr head \<Rightarrow>
               let sent = send_init env c (InitStream head) log
               in (Inr (fst sent), entry\<lparr>st_init := None\<rparr>, snd sent)))"

type_synonym dispatch_state = "(string, stream_pending) hashmap \<times> log"

text \<open>The handlers get the entry already removed from the table.\<close>

definition dispatch_legacy :: "ext \<Rightarrow> env \<Rightarrow> nat \<Rightarrow> nat \<Rightarrow> legacy_record \<Rightarrow> stream_pending \<Rightarrow>
    dispatch_state \<Rightarrow> (string + unit) \<times> dispatch_state" where
  "dispatch_legacy x env batch_size wait_ms rec entry s =
     (case build_gateway_response_parts x (lr_status_code rec) (lr_headers rec) (lr_cookies rec)
             (lr_body rec) (lr_is_base64_encoded rec) of
        Inl err \<Rightarrow> (Inl (''bad response: '' @ show_err x err), fst s, drop_entry entry (snd s))
      | Inr resp \<Rightarrow>
          let log = (case st_init entry of
                None \<Rightarrow> snd s
              | Some c \<Rightarrow> snd (send_init env c (InitResponse (with_meta batch_size wait_ms resp)) (snd s)))
          in (Inr (), fst s, log @ [BodyClosed (st_body entry)]))"

definition dispatch_head :: "ext \<Rightarrow> env \<Rightarrow> nat \<Rightarrow> nat \<Rightarrow> interleaved_record \<Rightarrow> stream_pending \<Rightarrow>
    dispatch_state \<Rightarrow> (string + unit) \<times> dispatch_state" where
  "dispatch_head x env batch_size wait_ms rec entry s =
     (let status_code = (case ir_status_code rec of None \<Rightarrow> 200 | Some c \<Rightarrow> c);
          r = send_stream_head x env batch_size wait_ms status_code (ir_headers rec) (ir_cookies rec) entry (snd s)
      in case fst r of
           Inl msg \<Rightarrow> (Inl msg, fst s, drop_entry (fst (snd r)) (snd (snd r)))
         | Inr keep \<Rightarrow>
             if keep then (Inr (), hm_insert (ir_id rec) (fst (snd r)) (fst s), snd (snd r))
             else (Inr (), fst s, drop_entry (fst (snd r)) (snd (snd r))))"

definition send_chunk :: "ext \<Rightarrow> env \<Rightarrow> interleaved_record \<Rightarrow> stream_pending \<Rightarrow>
    dispatch_state \<Rightarrow> (string + unit) \<times> dispatch_state" where
  "send_chunk x env rec entry s =
     (let body = (case ir_body rec of None \<Rightarrow> [] | Some b \<Rightarrow> b)
      in case decode_body_bytes x body (ir_is_base64_encoded rec) of
           Inl err \<Rightarrow> (Inl (''bad chunk body: '' @ show_err x err), fst s, drop_entry entry (snd s))
         | Inr bs \<Rightarrow>
             let sent = send_body env (st_body entry) bs (snd s)
             in if fst sent then (Inr (), hm_insert (ir_id rec) entry (fst s), snd sent)
                else (Inr (), fst s, drop_entry entry (snd sent)))"

definition dispatch_chunk :: "ext \<Rightarrow> env \<Rightarrow> nat \<Rightarrow> nat \<Rightarrow> interleaved_record \<Rightarrow> stream_pending \<Rightarrow>
    dispatch_state \<Rightarrow> (string + unit) \<times> dispatch_state" where
  "dispatch_chunk x env batch_size wait_ms rec entry s =
     (if st_init entry \<noteq> None then
        (let r = send_stream_head x env batch_size wait_ms 200 [] [] entry (snd s)
         in case fst r of
              Inl msg \<Rightarrow> (Inl msg, fst s, drop_entry (fst (snd r)) (snd (snd r)))
            | Inr keep \<Rightarrow>
                if \<not> keep then (Inr (), fst s, drop_entry (fst (snd r)) (snd (snd r)))
                else send_chunk x env rec (fst (snd r)) (fst s, snd (snd r)))
      else send_chunk x env rec entry s)"

definition dispatch_end :: "ext \<Rightarrow> env \<Rightarrow> nat \<Rightarrow> nat \<Rightarrow> stream_pending \<Rightarrow>
    dispatch_state \<Rightarrow> (string + unit) \<times> dispatch_state" where
  "dispatch_end x env batch_size wait_ms entry s =
     (if st_init entry \<noteq> None then
        (let r = send_stream_head x env batch_size wait_ms 200 [] [] entry (snd s)
         in (res_bind (fst r) (\<lambda>_. Inr ()), fst s, drop_entry (fst (snd r)) (snd (snd r))))
      else (Inr (), fst s, drop_entry entry (snd s)))"

definition dispatch_error :: "ext \<Rightarrow> env \<Rightarrow> nat \<Rightarrow> nat \<Rightarrow> interleaved_record \<Rightarrow> stream_pending \<Rightarrow>
    dispatch_state \<Rightarrow> (string + unit) \<times> dispatch_state" where
  "dispatch_error x env batch_size wait_ms rec entry s =
     (let log = (case st_init entry of
           None \<Rightarrow> snd s
         | Some c \<Rightarrow>
             let status = (case ir_status_code rec of None \<Rightarrow> 502 | Some st \<Rightarrow> st);
                 msg = (case ir_message rec of None \<Rightarrow> ''error'' | Some m \<Rightarrow> m);
                 resp = text_response (if x_status x status then status else 502) msg
             in snd (send_init env c (InitResponse (with_meta batch_size wait_ms resp)) (snd s)))
      in (Inr (), fst s, log @ [BodyClosed (st_body entry)]))"

definition record_v :: "stream_record \<Rightarrow> nat" where
  "record_v r = (case r of Legacy l \<Rightarrow> lr_v l | Interleaved i \<Rightarrow> ir_v i)"

definition record_id :: "stream_record \<Rightarrow> string" where
  "record_id r = (case r of Legacy l \<Rightarrow> lr_id l | Interleaved i \<Rightarrow> ir_id i)"

definition dispatch_entry :: "ext \<Rightarrow> env \<Rightarrow> nat \<Rightarrow> nat \<Rightarrow> stream_record \<Rightarrow> stream_pending \<Rightarrow>
    dispatch_state \<Rightarrow> (string + unit) \<times> dispatch_state" where
  "dispatch_entry x env batch_size wait_ms r entry s =
     (case r of
        Legacy l \<Rightarrow> dispatch_legacy x env batch_size wait_ms l entry s
      | Interleaved i \<Rightarrow>
          (case ir_type i of
             RHead \<Rightarrow> dispatch_head x env batch_size wait_ms i entry s
           | RChunk \<Rightarrow> dispatch_chunk x env batch_size wait_ms i entry s
           | REnd \<Rightarrow> dispatch_end x env batch_size wait_ms entry s
           | RError \<Rightarrow> dispatch_error x env batch_size wait_ms i entry s))"

definition dispatch_stream_record :: "ext \<Rightarrow> env \<Rightarrow> nat \<Rightarrow> nat \<Rightarrow> stream_record \<Rightarrow>
    dispatch_state \<Rightarrow> (string + unit) \<times> dispatch_state" where
  "dispatch_stream_record x env batch_size wait_ms r s =
     (if record_v r \<noteq> 1 then (Inl (''unsupported record version: '' @ show_nat (record_v r)), s)
      else (case hm_get (fst s) (record_id r) of
          None \<Rightarrow> (Inr (), s)
        | Some entry \<Rightarrow>
            dispatch_entry x env batch_size wait_ms r entry (hm_delete (record_id r) (fst s), snd s)))"

subsection \<open>The stream loop\<close>

abbreviation "newline \<equiv> CHR 0x0A"
abbreviation "carriage_return \<equiv> CHR 0x0D"

definition max_buffer_bytes :: nat where
  "max_buffer_bytes = 8 * 1024 * 1024"

definition strip_cr :: "bytes \<Rightarrow> bytes" where
  "strip_cr line = (if line \<noteq> [] \<and> last line = carriage_return then butlast line else line)"

definition strip_tail :: "bytes \<Rightarrow> bytes" where
  "strip_tail b = rev (dropWhile (\<lambda>c. c = newline \<or> c = carriage_return) (rev b))"

text \<open>
  One line: parse and dispatch. \<open>Inl\<close> is the log of a stream given up, every pending request
  failed; \<open>Inr\<close> the state to go on with.
\<close>

definition handle_line :: "ext \<Rightarrow> env \<Rightarrow> nat \<Rightarrow> nat \<Rightarrow> bytes \<Rightarrow> dispatch_state \<Rightarrow> log + dispatch_state" where
  "handle_line x env batch_size wait_ms line s =
     (case parse_stream_record x line of
        Inl err \<Rightarrow> Inl (fail_all_stream env batch_size wait_ms 502 err (fst s) (snd s))
      | Inr r \<Rightarrow>
          (let d = dispatch_stream_record x env batch_size wait_ms r s
           in case fst d of
                Inl msg \<Rightarrow> Inl (fail_all_stream env batch_size wait_ms 502 msg (fst (snd d)) (snd (snd d)))
              | Inr _ \<Rightarrow> Inr (snd d)))"

lemma split_once_shorter: "split_once c s = Some (a, b) \<Longrightarrow> length b < length s"
  by (induction c s arbitrary: a b rule: split_once.induct) (auto split: if_splits)

function drain_lines :: "ext \<Rightarrow> env \<Rightarrow> nat \<Rightarrow> nat \<Rightarrow> bytes \<Rightarrow> dispatch_state \<Rightarrow>
    log + (bytes \<times> dispatch_state)" where
  "drain_lines x env batch_size wait_ms buf s =
     (case split_once newline buf of
        None \<Rightarrow> Inr (buf, s)
      | Some (raw, rest) \<Rightarrow>
          if strip_cr raw = [] then drain_lines x env batch_size wait_ms rest s
          else (case handle_line x env batch_size wait_ms (strip_cr raw) s of
              Inl log \<Rightarrow> Inl log
            | Inr s \<Rightarrow> drain_lines x env batch_size wait_ms rest s))"
  by pat_completeness auto
termination
  by (relation "measure (\<lambda>(x, env, bs, w, buf, s). length buf)") (auto dest: split_once_shorter)

declare drain_lines.simps [simp del]

fun recv_loop :: "ext \<Rightarrow> env \<Rightarrow> nat \<Rightarrow> nat \<Rightarrow> (string + bytes) list \<Rightarrow> bytes \<Rightarrow> dispatch_state \<Rightarrow>
    log + (bytes \<times> dispatch_state)" where
  "recv_loop x env batch_size wait_ms [] buf s = Inr (buf, s)"
| "recv_loop x env batch_size wait_ms (Inl err # chunks) buf s =
     Inl (fail_all_stream env batch_size wait_ms 502 (''response stream error: '' @ err) (fst s) (snd s))"
| "recv_loop x env batch_size wait_ms (Inr chunk # chunks) buf s =
     (if length (buf @ chunk) > max_buffer_bytes
      then Inl (fail_all_stream env batch_size wait_ms 502 ''response stream too large'' (fst s) (snd s))
      else (case drain_lines x env batch_size wait_ms (buf @ chunk) s of
          Inl log \<Rightarrow> Inl log
        | Inr (rest, s) \<Rightarrow> recv_loop x env batch_size wait_ms chunks rest s))"

definition finish_stream :: "ext \<Rightarrow> env \<Rightarrow> nat \<Rightarrow> nat \<Rightarrow> bytes \<Rightarrow> dispatch_state \<Rightarrow> log" where
  "finish_stream x env batch_size wait_ms buf s =
     (let tail = strip_tail buf
      in case (if tail = [] then Inr s else handle_line x env batch_size wait_ms tail s) of
           Inl log \<Rightarrow> log
         | Inr s \<Rightarrow> fail_all_stream env batch_size wait_ms 502 ''missing response record'' (fst s) (snd s))"

definition dispatch_response_stream :: "ext \<Rightarrow> env \<Rightarrow> nat \<Rightarrow> (string + bytes) list \<Rightarrow>
    (string, stream_pending) hashmap \<Rightarrow> log \<Rightarrow> log" where
  "dispatch_response_stream x env wait_ms stream pending log =
     (let batch_size = length pending
      in case recv_loop x env batch_size wait_ms stream [] (pending, log) of
           Inl log \<Rightarrow> log
         | Inr (buf, s) \<Rightarrow> finish_stream x env batch_size wait_ms buf s)"

subsection \<open>Conservation of channels\<close>

text \<open>
  What a state has settled plus what it still owes; and the bodies it has closed plus those that
  are open. Every step of the dispatcher keeps both sums.
\<close>

definition init_total :: "dispatch_state \<Rightarrow> chan multiset" where
  "init_total s = settled (snd s) + owed_stream (fst s)"

definition body_total :: "dispatch_state \<Rightarrow> chan multiset" where
  "body_total s = closed (snd s) + open_bodies (fst s)"

lemma owed_stream_insert [simp]:
  "hm_get m i = None \<Longrightarrow> owed_stream (hm_insert i e m) = init_of e + owed_stream m"
  by (simp add: owed_values hm_values_insert_fresh)

lemma open_bodies_insert [simp]:
  "hm_get m i = None \<Longrightarrow> open_bodies (hm_insert i e m) = add_mset (st_body e) (open_bodies m)"
  by (simp add: owed_values hm_values_insert_fresh)

lemma owed_stream_delete:
  "hm_ok m \<Longrightarrow> hm_get m i = Some e \<Longrightarrow> owed_stream m = init_of e + owed_stream (hm_delete i m)"
  by (simp add: owed_values hm_values_delete[of m i e])

lemma open_bodies_delete:
  "hm_ok m \<Longrightarrow> hm_get m i = Some e \<Longrightarrow> open_bodies m = add_mset (st_body e) (open_bodies (hm_delete i m))"
  by (simp add: owed_values hm_values_delete[of m i e])

lemma init_of_None [simp]: "init_of (e\<lparr>st_init := None\<rparr>) = {#}" "st_init e = None \<Longrightarrow> init_of e = {#}"
  "st_init e = Some c \<Longrightarrow> init_of e = {#c#}"
  by (simp_all add: init_of_def)

lemma send_stream_head_totals:
  assumes "send_stream_head x env bs w st hs cs e log = (r, e', log')"
  shows "settled log' + init_of e' = settled log + init_of e" "closed log' = closed log"
    "st_body e' = st_body e" "st_init e' = None" "prefix log log'"
  using assms
  by (auto simp: send_stream_head_def Let_def send_init_def split: option.splits sum.splits)

lemma send_chunk_totals:
  assumes "send_chunk x env rec e s = (r, s')" and "hm_get (fst s) (ir_id rec) = None"
  shows "init_total s' = init_total s + init_of e" "body_total s' = body_total s + {#st_body e#}"
    "prefix (snd s) (snd s')" "hm_ok (fst s) \<Longrightarrow> hm_ok (fst s')"
  using assms
  by (auto simp: send_chunk_def Let_def init_total_def body_total_def send_body_def drop_entry_def
      init_of_def split: sum.splits if_splits option.splits)

text \<open>What the handling of a record owes to its entry: a handler neither loses nor repeats anything.\<close>

definition conserves :: "stream_pending \<Rightarrow> dispatch_state \<Rightarrow> dispatch_state \<Rightarrow> bool" where
  "conserves e s s' \<longleftrightarrow> init_total s' = init_total s + init_of e \<and> body_total s' = body_total s + {#st_body e#} \<and>
     prefix (snd s) (snd s') \<and> (hm_ok (fst s) \<longrightarrow> hm_ok (fst s'))"

lemma conserves_after_head:
  assumes "send_stream_head x env bs w status headers cookies e log = (r, e', log')" and "conserves e' (p, log') s'"
  shows "conserves e (p, log) s'"
  using send_stream_head_totals[OF assms(1)] assms(2)
  by (auto simp: conserves_def init_total_def body_total_def algebra_simps intro: prefix_order.trans)

lemma conserves_drop: "conserves e (p, log) (p, drop_entry e log)"
  by (auto simp: conserves_def init_total_def body_total_def drop_entry_def init_of_def split: option.splits)

lemma conserves_keep: "hm_get p i = None \<Longrightarrow> conserves e (p, log) (hm_insert i e p, log)"
  by (auto simp: conserves_def init_total_def body_total_def)

lemma send_chunk_conserves:
  "send_chunk x env rec e s = (r, s') \<Longrightarrow> hm_get (fst s) (ir_id rec) = None \<Longrightarrow> conserves e s s'"
  using send_chunk_totals by (simp add: conserves_def)

lemma dispatch_legacy_conserves: "dispatch_legacy x env bs w l e s = (r, s') \<Longrightarrow> conserves e s s'"
  by (cases s) (auto simp: conserves_def dispatch_legacy_def Let_def init_total_def body_total_def init_of_def drop_entry_def
      send_init_def split: sum.splits option.splits)

lemma dispatch_head_conserves:
  assumes "dispatch_head x env bs w i e s = (r, s')" and "hm_get (fst s) (ir_id i) = None"
  shows "conserves e s s'"
proof -
  obtain p log where s: "s = (p, log)" by force
  obtain r1 e1 log1 where h: "send_stream_head x env bs w (case ir_status_code i of None \<Rightarrow> 200 | Some c \<Rightarrow> c)
      (ir_headers i) (ir_cookies i) e log = (r1, e1, log1)" by (metis prod.exhaust)
  with assms s show ?thesis
    by (auto simp: dispatch_head_def Let_def split: sum.splits if_splits
        intro!: conserves_after_head[OF h] conserves_drop conserves_keep)
qed

lemma dispatch_chunk_conserves:
  assumes "dispatch_chunk x env bs w i e s = (r, s')" and "hm_get (fst s) (ir_id i) = None"
  shows "conserves e s s'"
proof (cases "st_init e")
  case None
  with assms send_chunk_conserves show ?thesis by (simp add: dispatch_chunk_def)
next
  case (Some c)
  obtain p log where s: "s = (p, log)" by force
  obtain r1 e1 log1 where h: "send_stream_head x env bs w 200 [] [] e log = (r1, e1, log1)" by (metis prod.exhaust)
  with assms s Some show ?thesis
    by (auto simp: dispatch_chunk_def Let_def split: sum.splits if_splits
        intro!: conserves_after_head[OF h] conserves_drop dest: send_chunk_conserves)
qed

lemma dispatch_end_conserves:
  assumes "dispatch_end x env bs w e s = (r, s')"
  shows "conserves e s s'"
proof (cases "st_init e")
  case None
  with assms show ?thesis by (cases s) (auto simp: dispatch_end_def conserves_drop)
next
  case (Some c)
  obtain p log where s: "s = (p, log)" by force
  obtain r1 e1 log1 where h: "send_stream_head x env bs w 200 [] [] e log = (r1, e1, log1)" by (metis prod.exhaust)
  with assms s Some show ?thesis
    by (auto simp: dispatch_end_def Let_def intro!: conserves_after_head[OF h] conserves_drop)
qed

lemma dispatch_error_conserves: "dispatch_error x env bs w i e s = (r, s') \<Longrightarrow> conserves e s s'"
  by (cases s) (auto simp: conserves_def dispatch_error_def Let_def init_total_def body_total_def init_of_def drop_entry_def
      send_init_def split: option.splits if_splits)

lemma dispatch_entry_conserves:
  assumes "dispatch_entry x env bs w rec e s = (r, s')" and "hm_get (fst s) (record_id rec) = None"
  shows "conserves e s s'"
  using assms
  by (auto simp: dispatch_entry_def record_id_def split: stream_record.splits stream_record_type.splits
      intro: dispatch_legacy_conserves dispatch_head_conserves dispatch_chunk_conserves dispatch_end_conserves
        dispatch_error_conserves)

lemma dispatch_stream_record_totals:
  assumes "hm_ok (fst s)" and "dispatch_stream_record x env bs w rec s = (r, s')"
  shows "init_total s' = init_total s" "body_total s' = body_total s"
    "prefix (snd s) (snd s')" "hm_ok (fst s')"
proof -
  have "init_total s' = init_total s \<and> body_total s' = body_total s \<and> prefix (snd s) (snd s') \<and> hm_ok (fst s')"
  proof (cases "record_v rec \<noteq> 1 \<or> hm_get (fst s) (record_id rec) = None")
    case True
    with assms show ?thesis by (auto simp: dispatch_stream_record_def split: if_splits)
  next
    case False
    then obtain e where e: "hm_get (fst s) (record_id rec) = Some e" and v: "record_v rec = 1" by auto
    let ?s = "(hm_delete (record_id rec) (fst s), snd s)"
    from assms e v have d: "dispatch_entry x env bs w rec e ?s = (r, s')"
      by (simp add: dispatch_stream_record_def)
    have "init_total s = init_total ?s + init_of e" "body_total s = body_total ?s + {#st_body e#}"
      using owed_stream_delete[OF assms(1) e] open_bodies_delete[OF assms(1) e]
      by (simp_all add: init_total_def body_total_def)
    with dispatch_entry_conserves[OF d] assms(1) show ?thesis by (simp add: conserves_def)
  qed
  then show "init_total s' = init_total s" "body_total s' = body_total s"
    "prefix (snd s) (snd s')" "hm_ok (fst s')" by blast+
qed

text \<open>A step either gives the stream up with everything settled, or goes on with the sums kept.\<close>

definition keeps :: "dispatch_state \<Rightarrow> log + dispatch_state \<Rightarrow> bool" where
  "keeps s out = (case out of
      Inl log \<Rightarrow> settled log = init_total s \<and> closed log = body_total s \<and> prefix (snd s) log
    | Inr s' \<Rightarrow> init_total s' = init_total s \<and> body_total s' = body_total s
        \<and> prefix (snd s) (snd s') \<and> hm_ok (fst s'))"

lemma keeps_simps [simp]:
  "keeps s (Inl log) \<longleftrightarrow> settled log = init_total s \<and> closed log = body_total s \<and> prefix (snd s) log"
  "keeps s (Inr s') \<longleftrightarrow> init_total s' = init_total s \<and> body_total s' = body_total s
     \<and> prefix (snd s) (snd s') \<and> hm_ok (fst s')"
  by (simp_all add: keeps_def)

lemma keeps_trans: "keeps s (Inr s1) \<Longrightarrow> keeps s1 out \<Longrightarrow> keeps s out"
  by (cases out) (auto intro: prefix_order.trans)

lemma keeps_refl: "hm_ok (fst s) \<Longrightarrow> keeps s (Inr s)"
  by simp

lemma keeps_fail: "keeps s (Inl (fail_all_stream env bs w st msg (fst s) (snd s)))"
  by (simp add: init_total_def body_total_def fail_all_stream_prefix)

lemma handle_line_keeps:
  assumes "hm_ok (fst s)"
  shows "keeps s (handle_line x env bs w line s)"
proof (cases "parse_stream_record x line")
  case (Inl err)
  then show ?thesis by (simp add: handle_line_def keeps_fail del: keeps_simps)
next
  case (Inr rec)
  obtain r s1 where d: "dispatch_stream_record x env bs w rec s = (r, s1)" by (metis prod.exhaust)
  with dispatch_stream_record_totals[OF assms d] have k: "keeps s (Inr s1)" by simp
  show ?thesis
    by (cases r) (simp_all add: handle_line_def Inr d Let_def k keeps_trans[OF k keeps_fail] del: keeps_simps)
qed

lemma drain_lines_keeps:
  "hm_ok (fst s) \<Longrightarrow> keeps s (case drain_lines x env bs w buf s of Inl log \<Rightarrow> Inl log | Inr q \<Rightarrow> Inr (snd q))"
proof (induction x env bs w buf s rule: drain_lines.induct)
  case (1 x env bs w buf s)
  note unfold = drain_lines.simps[of x env bs w buf s]
  show ?case
  proof (cases "split_once newline buf")
    case None
    with "1.prems" show ?thesis by (simp add: unfold)
  next
    case (Some q)
    obtain raw rest where q: "split_once newline buf = Some (raw, rest)" using Some by (cases q) auto
    show ?thesis
    proof (cases "strip_cr raw = []")
      case True
      with "1.IH"(1)[OF q refl True "1.prems"] q show ?thesis by (simp add: unfold)
    next
      case False
      note h = handle_line_keeps[OF "1.prems", of x env bs w "strip_cr raw"]
      show ?thesis
      proof (cases "handle_line x env bs w (strip_cr raw) s")
        case (Inl log)
        with h q False show ?thesis by (simp add: unfold)
      next
        case (Inr s1)
        with h have "hm_ok (fst s1)" by simp
        from "1.IH"(2)[OF q refl False Inr this] h Inr q False show ?thesis
          by (simp add: unfold keeps_trans del: keeps_simps)
      qed
    qed
  qed
qed

lemma recv_loop_keeps:
  "hm_ok (fst s) \<Longrightarrow>
   keeps s (case recv_loop x env bs w chunks buf s of Inl log \<Rightarrow> Inl log | Inr q \<Rightarrow> Inr (snd q))"
proof (induction x env bs w chunks buf s rule: recv_loop.induct)
  case (1 x env bs w buf s)
  then show ?case by simp
next
  case (2 x env bs w err chunks buf s)
  then show ?case by (simp add: keeps_fail del: keeps_simps)
next
  case (3 x env bs w chunk chunks buf s)
  note d = drain_lines_keeps[OF "3.prems", of x env bs w "buf @ chunk"]
  show ?case
  proof (cases "length (buf @ chunk) > max_buffer_bytes")
    case True
    then show ?thesis by (simp add: keeps_fail del: keeps_simps)
  next
    case False
    show ?thesis
    proof (cases "drain_lines x env bs w (buf @ chunk) s")
      case (Inl log)
      with d False show ?thesis by simp
    next
      case (Inr q)
      obtain rest s1 where q: "q = (rest, s1)" by (metis prod.exhaust)
      with d Inr have k: "keeps s (Inr s1)" by simp
      then have "hm_ok (fst s1)" by simp
      with "3.IH"[OF False Inr q[symmetric] this] Inr q False k show ?thesis
        by (simp add: keeps_trans del: keeps_simps)
    qed
  qed
qed

lemma finish_stream_keeps:
  assumes "hm_ok (fst s)"
  shows "keeps s (Inl (finish_stream x env bs w buf s))"
proof -
  let ?out = "if strip_tail buf = [] then Inr s else handle_line x env bs w (strip_tail buf) s"
  have k: "keeps s ?out" using assms handle_line_keeps[OF assms] by simp
  show ?thesis
  proof (cases ?out)
    case (Inl log)
    with k show ?thesis by (simp add: finish_stream_def Let_def)
  next
    case (Inr s1)
    with k have "keeps s (Inr s1)" by simp
    from keeps_trans[OF this keeps_fail] Inr show ?thesis
      by (simp add: finish_stream_def Let_def del: keeps_simps)
  qed
qed

lemma dispatch_response_stream_keeps:
  assumes "hm_ok pending"
  shows "keeps (pending, log) (Inl (dispatch_response_stream x env w stream pending log))"
proof -
  have k: "keeps (pending, log) (case recv_loop x env (length pending) w stream [] (pending, log) of
      Inl log \<Rightarrow> Inl log | Inr q \<Rightarrow> Inr (snd q))"
    using recv_loop_keeps[of "(pending, log)"] assms by simp
  show ?thesis
  proof (cases "recv_loop x env (length pending) w stream [] (pending, log)")
    case (Inl l)
    with k show ?thesis by (simp add: dispatch_response_stream_def)
  next
    case (Inr q)
    obtain buf s where q: "q = (buf, s)" by (metis prod.exhaust)
    with k Inr have k': "keeps (pending, log) (Inr s)" by simp
    then have "hm_ok (fst s)" by simp
    from keeps_trans[OF k' finish_stream_keeps[OF this]] Inr q show ?thesis
      by (simp add: dispatch_response_stream_def del: keeps_simps)
  qed
qed

lemma dispatch_response_stream_settled:
  assumes "hm_ok pending"
  shows "settled (dispatch_response_stream x env w stream pending log) = settled log + owed_stream pending"
    "closed (dispatch_response_stream x env w stream pending log) = closed log + open_bodies pending"
    "prefix log (dispatch_response_stream x env w stream pending log)"
  using dispatch_response_stream_keeps[OF assms] by (simp_all add: init_total_def body_total_def)

end
