(* ===== verification/Gw_Framing.thy ===== *)
theory Gw_Framing
  imports Gw_Stream
begin

text \<open>
  What the NDJSON loop of \<^verbatim>\<open>dispatch_response_stream\<close> computes, without its buffer: the lines of
  the whole text are handled one after the other, however the bytes were cut into chunks.
\<close>

subsection \<open>Lines of a text\<close>

definition lines_of :: "bytes \<Rightarrow> bytes list" where
  "lines_of text = filter (\<lambda>l. l \<noteq> []) (map strip_cr (butlast (split_on newline text)))"

definition rest_of :: "bytes \<Rightarrow> bytes" where
  "rest_of text = last (split_on newline text)"

lemma lines_of_no_newline: "newline \<notin> set s \<Longrightarrow> lines_of s = [] \<and> rest_of s = s"
  using split_on_no_sep[of newline s] by (simp add: lines_of_def rest_of_def)

lemma lines_of_line:
  assumes "newline \<notin> set raw"
  shows "lines_of (raw @ newline # s) = (if strip_cr raw = [] then lines_of s else strip_cr raw # lines_of s)"
    "rest_of (raw @ newline # s) = rest_of s"
  using split_on_prefix[OF assms, of s] by (simp_all add: lines_of_def rest_of_def)

lemma lines_of_append: "lines_of (a @ b) = lines_of a @ lines_of (rest_of a @ b)"
  "rest_of (a @ b) = rest_of (rest_of a @ b)"
  by (simp_all add: lines_of_def rest_of_def split_on_append[of newline a b] butlast_append)

lemma rest_of_suffix: "suffix (rest_of s) s \<and> newline \<notin> set (rest_of s)"
proof (induction s rule: length_induct)
  case (1 s)
  show ?case
  proof (cases "split_once newline s")
    case None
    then show ?thesis by (simp add: split_once_None_iff lines_of_no_newline)
  next
    case (Some q)
    obtain raw t where "split_once newline s = Some (raw, t)" using Some by (cases q) auto
    from split_once_Some[OF this] have s: "s = raw @ newline # t" "newline \<notin> set raw" by auto
    with 1 have "suffix (rest_of t) t \<and> newline \<notin> set (rest_of t)" by simp
    with s show ?thesis by (auto simp: lines_of_line intro: suffix_appendI suffix_ConsI)
  qed
qed

lemma rest_of_length: "length (rest_of s) \<le> length s"
  using rest_of_suffix[of s] by (auto dest: suffix_length_le)

subsection \<open>Handling the lines\<close>

fun run_lines :: "ext \<Rightarrow> env \<Rightarrow> nat \<Rightarrow> nat \<Rightarrow> bytes list \<Rightarrow> dispatch_state \<Rightarrow> log + dispatch_state" where
  "run_lines x env bs w [] s = Inr s"
| "run_lines x env bs w (l # ls) s =
     (case handle_line x env bs w l s of Inl log \<Rightarrow> Inl log | Inr s \<Rightarrow> run_lines x env bs w ls s)"

lemma run_lines_append:
  "run_lines x env bs w (a @ b) s =
     (case run_lines x env bs w a s of Inl log \<Rightarrow> Inl log | Inr s \<Rightarrow> run_lines x env bs w b s)"
  by (induction x env bs w a s rule: run_lines.induct) (simp_all split: sum.splits)

definition text_outcome :: "ext \<Rightarrow> env \<Rightarrow> nat \<Rightarrow> nat \<Rightarrow> bytes \<Rightarrow> dispatch_state \<Rightarrow>
    log + (bytes \<times> dispatch_state)" where
  "text_outcome x env bs w text s =
     (case run_lines x env bs w (lines_of text) s of Inl log \<Rightarrow> Inl log | Inr s' \<Rightarrow> Inr (rest_of text, s'))"

lemma drain_lines_text: "drain_lines x env bs w buf s = text_outcome x env bs w buf s"
proof (induction x env bs w buf s rule: drain_lines.induct)
  case (1 x env bs w buf s)
  note unfold = drain_lines.simps[of x env bs w buf s]
  show ?case
  proof (cases "split_once newline buf")
    case None
    then have "newline \<notin> set buf" unfolding split_once_None_iff .
    with None show ?thesis by (simp add: unfold text_outcome_def lines_of_no_newline)
  next
    case (Some q)
    obtain raw rest where q: "split_once newline buf = Some (raw, rest)" using Some by (cases q) auto
    from split_once_Some[OF q] have buf: "buf = raw @ newline # rest" "newline \<notin> set raw" by auto
    note l = lines_of_line[OF buf(2), of rest, folded buf(1)]
    show ?thesis
    proof (cases "strip_cr raw = []")
      case True
      with "1.IH"(1)[OF q refl True] q l show ?thesis by (simp add: unfold text_outcome_def split: sum.split)
    next
      case False
      show ?thesis
      proof (cases "handle_line x env bs w (strip_cr raw) s")
        case (Inl log)
        with q False l show ?thesis by (simp add: unfold text_outcome_def split: sum.split)
      next
        case (Inr s1)
        with "1.IH"(2)[OF q refl False Inr] q False l show ?thesis by (simp add: unfold text_outcome_def split: sum.split)
      qed
    qed
  qed
qed

lemma recv_loop_text:
  assumes "length (buf @ concat cs) \<le> max_buffer_bytes" and "newline \<notin> set buf"
  shows "recv_loop x env bs w (map Inr cs) buf s = text_outcome x env bs w (buf @ concat cs) s"
  using assms
proof (induction cs arbitrary: buf s)
  case Nil
  then show ?case by (simp add: text_outcome_def lines_of_no_newline)
next
  case (Cons c cs)
  have fits: "\<not> length (buf @ c) > max_buffer_bytes" using Cons.prems(1) by simp
  have "length (rest_of (buf @ c) @ concat cs) \<le> max_buffer_bytes"
    using Cons.prems(1) rest_of_length[of "buf @ c"] by simp
  note IH = Cons.IH[OF this]
  have lines: "lines_of (buf @ c @ concat cs) = lines_of (buf @ c) @ lines_of (rest_of (buf @ c) @ concat cs)"
    "rest_of (buf @ c @ concat cs) = rest_of (rest_of (buf @ c) @ concat cs)"
    using lines_of_append[of "buf @ c" "concat cs"] by simp_all
  show ?case
  proof (cases "run_lines x env bs w (lines_of (buf @ c)) s")
    case (Inl log)
    with fits lines show ?thesis
      by (simp add: drain_lines_text text_outcome_def run_lines_append)
  next
    case (Inr s1)
    with fits lines IH rest_of_suffix[of "buf @ c"] show ?thesis
      by (simp add: drain_lines_text text_outcome_def run_lines_append split: sum.split)
  qed
qed

text \<open>The specification of a whole response stream, by its text.\<close>

definition stream_text :: "ext \<Rightarrow> env \<Rightarrow> nat \<Rightarrow> bytes \<Rightarrow> (string, stream_pending) hashmap \<Rightarrow> log \<Rightarrow> log" where
  "stream_text x env w text pending log =
     (case run_lines x env (length pending) w (lines_of text) (pending, log) of
        Inl log \<Rightarrow> log
      | Inr s \<Rightarrow> finish_stream x env (length pending) w (rest_of text) s)"

lemma dispatch_response_stream_text:
  assumes "length (concat cs) \<le> max_buffer_bytes"
  shows "dispatch_response_stream x env w (map Inr cs) pending log = stream_text x env w (concat cs) pending log"
  using recv_loop_text[of "[]" cs x env "length pending" w "(pending, log)"] assms
  by (simp add: dispatch_response_stream_def stream_text_def text_outcome_def split: sum.splits)

end
