(* ===== verification/Gw_Session.thy ===== *)
theory Gw_Session
  imports Gw_Framing
begin

text \<open>
  The protocol a streaming client sees: one \<^verbatim>\<open>init\<close> message; if it is a delivered stream head,
  body chunks; then the body is closed, once. It is an automaton over the log, and every path of
  the stream dispatcher drives it, for every client, to its final phase.
\<close>

subsection \<open>The automaton\<close>

datatype phase = Waiting | Streaming | Ending | Finished | Broken

fun client_step :: "chan \<Rightarrow> chan \<Rightarrow> phase \<Rightarrow> event \<Rightarrow> phase" where
  "client_step c b ph (Init c' m ok) =
     (if c' \<noteq> c then ph
      else if ph = Waiting then
        (case m of InitStream _ \<Rightarrow> if ok then Streaming else Ending | InitResponse _ \<Rightarrow> Ending)
      else Broken)"
| "client_step c b ph (InitDropped c') =
     (if c' \<noteq> c then ph else if ph = Waiting then Ending else Broken)"
| "client_step c b ph (Body b' bs ok) =
     (if b' \<noteq> b then ph else if ph = Streaming then (if ok then Streaming else Ending) else Broken)"
| "client_step c b ph (BodyClosed b') =
     (if b' \<noteq> b then ph else if ph = Streaming \<or> ph = Ending then Finished else Broken)"
| "client_step c b ph (Reply _ _) = ph"
| "client_step c b ph (ReplyDropped _) = ph"

definition client_phase_from :: "chan \<Rightarrow> chan \<Rightarrow> phase \<Rightarrow> log \<Rightarrow> phase" where
  "client_phase_from c b ph log = foldl (client_step c b) ph log"

definition client_phase :: "chan \<Rightarrow> chan \<Rightarrow> log \<Rightarrow> phase" where
  "client_phase c b log = client_phase_from c b Waiting log"

lemma client_phase_from_simps [simp]:
  "client_phase_from c b ph [] = ph"
  "client_phase_from c b ph (e # es) = client_phase_from c b (client_step c b ph e) es"
  "client_phase_from c b ph (xs @ ys) = client_phase_from c b (client_phase_from c b ph xs) ys"
  by (simp_all add: client_phase_from_def)

lemma client_phase_append [simp]:
  "client_phase c b (xs @ ys) = client_phase_from c b (client_phase c b xs) ys"
  by (simp add: client_phase_def)

subsection \<open>What one step writes\<close>

definition entry_phase :: "stream_pending \<Rightarrow> phase" where
  "entry_phase e = (case st_init e of None \<Rightarrow> Streaming | Some _ \<Rightarrow> Waiting)"

definition owns :: "chan \<Rightarrow> chan \<Rightarrow> stream_pending \<Rightarrow> bool" where
  "owns c b e \<longleftrightarrow> st_body e = b \<and> (st_init e = None \<or> st_init e = Some c)"

fun about :: "stream_pending \<Rightarrow> event \<Rightarrow> bool" where
  "about e (Init c m ok) = (st_init e = Some c)"
| "about e (InitDropped c) = (st_init e = Some c)"
| "about e (Body b bs ok) = (st_body e = b)"
| "about e (BodyClosed b) = (st_body e = b)"
| "about e _ = False"

lemma about_other:
  "list_all (about e) new \<Longrightarrow> st_init e \<noteq> Some c \<Longrightarrow> st_body e \<noteq> b \<Longrightarrow> client_phase_from c b ph new = ph"
proof (induction new arbitrary: ph)
  case (Cons ev new)
  then have "client_step c b ph ev = ph" by (cases ev) auto
  with Cons show ?case by simp
qed simp

text \<open>
  A segment written for an entry: its events are about that entry, and they take its client from
  where it was to \<open>ph\<close>.
\<close>

definition wrote :: "stream_pending \<Rightarrow> log \<Rightarrow> log \<Rightarrow> phase \<Rightarrow> bool" where
  "wrote e log log' ph \<longleftrightarrow> (\<exists>new. log' = log @ new \<and> list_all (about e) new \<and>
     (\<forall>c. owns c (st_body e) e \<longrightarrow> client_phase_from c (st_body e) (entry_phase e) new = ph))"

lemma wroteI:
  "log' = log @ new \<Longrightarrow> list_all (about e) new \<Longrightarrow>
   (\<And>c. owns c (st_body e) e \<Longrightarrow> client_phase_from c (st_body e) (entry_phase e) new = ph) \<Longrightarrow> wrote e log log' ph"
  by (auto simp: wrote_def)

lemma send_stream_head_wrote:
  assumes "send_stream_head x env bs w st hs cookies e log = (r, e', log')"
  shows "\<exists>new. log' = log @ new \<and> list_all (about e) new \<and> e' = e\<lparr>st_init := None\<rparr> \<and>
     (\<forall>c. owns c (st_body e) e \<longrightarrow>
        client_phase_from c (st_body e) (entry_phase e) new = (if r = Inr True then Streaming else Ending))"
  using assms
  by (auto simp: send_stream_head_def Let_def send_init_def entry_phase_def owns_def
      split: option.splits sum.splits)

definition entry_outcome :: "string \<Rightarrow> stream_pending \<Rightarrow> dispatch_state \<Rightarrow> dispatch_state \<Rightarrow> bool" where
  "entry_outcome i e s s' \<longleftrightarrow>
     fst s' = fst s \<and> wrote e (snd s) (snd s') Finished \<or>
     fst s' = hm_insert i (e\<lparr>st_init := None\<rparr>) (fst s) \<and> wrote e (snd s) (snd s') Streaming"

lemma send_chunk_outcome:
  assumes "send_chunk x env rec e s = (r, s')" and "st_init e = None"
  shows "entry_outcome (ir_id rec) e s s'"
proof -
  have e: "e\<lparr>st_init := None\<rparr> = e" using assms(2) by simp
  show ?thesis
    using assms
    by (auto simp: send_chunk_def Let_def send_body_def drop_entry_def entry_outcome_def wrote_def e
        entry_phase_def owns_def split: sum.splits if_splits option.splits)
qed

lemma wrote_trans_head:
  assumes "log1 = log @ new" "list_all (about e) new"
    and "\<And>c. owns c (st_body e) e \<Longrightarrow> client_phase_from c (st_body e) (entry_phase e) new = ph"
    and "list_all (about e) mo" "\<And>c. client_phase_from c (st_body e) ph mo = ph'"
  shows "wrote e log (log1 @ mo) ph'"
  using assms by (intro wroteI[of _ _ "new @ mo"]) auto

lemma drop_after_head:
  "e' = e\<lparr>st_init := None\<rparr> \<Longrightarrow> drop_entry e' log = log @ [BodyClosed (st_body e)]"
  by (simp add: drop_entry_def)

lemma record_id_simps [simp]:
  "record_id (Legacy l) = lr_id l" "record_id (Interleaved i) = ir_id i"
  by (simp_all add: record_id_def)

text \<open>One lemma for each kind of record; those that send a head start from this.\<close>

lemma head_sent:
  assumes "send_stream_head x env bs w st hs cookies e log = (r, e', log')"
  shows "\<exists>new. log' = log @ new \<and> list_all (about e) new \<and> e' = e\<lparr>st_init := None\<rparr> \<and>
    (\<forall>c. owns c (st_body e) e \<longrightarrow>
       client_phase_from c (st_body e) (entry_phase e) new = (if r = Inr True then Streaming else Ending)) \<and>
    wrote e log (log' @ [BodyClosed (st_body e)]) Finished"
proof -
  from send_stream_head_wrote[OF assms] obtain new where new: "log' = log @ new" "list_all (about e) new"
    "e' = e\<lparr>st_init := None\<rparr>" "\<And>c. owns c (st_body e) e \<Longrightarrow>
       client_phase_from c (st_body e) (entry_phase e) new = (if r = Inr True then Streaming else Ending)"
    by blast
  have "wrote e log (log' @ [BodyClosed (st_body e)]) Finished"
    by (rule wrote_trans_head[OF new(1,2,4)]) simp_all
  with new show ?thesis by blast
qed

lemma dispatch_legacy_outcome:
  "dispatch_legacy x env bs w l e s = (r, s') \<Longrightarrow> entry_outcome (lr_id l) e s s'"
  by (auto simp: dispatch_legacy_def Let_def entry_outcome_def wrote_def drop_entry_def send_init_def entry_phase_def
      owns_def split: sum.splits option.splits)

lemma dispatch_error_outcome:
  "dispatch_error x env bs w i e s = (r, s') \<Longrightarrow> entry_outcome (ir_id i) e s s'"
  by (auto simp: dispatch_error_def Let_def entry_outcome_def wrote_def send_init_def entry_phase_def owns_def
      split: option.splits)

lemma dispatch_end_outcome:
  assumes "dispatch_end x env bs w e s = (r, s')"
  shows "entry_outcome i e s s'"
proof (cases "st_init e")
  case None
  with assms show ?thesis
    by (auto simp: dispatch_end_def entry_outcome_def wrote_def drop_entry_def entry_phase_def)
next
  case (Some c)
  obtain r1 e1 log1 where h: "send_stream_head x env bs w 200 [] [] e (snd s) = (r1, e1, log1)" by (metis prod.exhaust)
  with head_sent[OF h] assms Some show ?thesis
    by (auto simp: dispatch_end_def Let_def entry_outcome_def drop_after_head)
qed

lemma dispatch_head_outcome:
  assumes "dispatch_head x env bs w i e s = (r, s')"
  shows "entry_outcome (ir_id i) e s s'"
proof -
  let ?st = "case ir_status_code i of None \<Rightarrow> 200 | Some c \<Rightarrow> c"
  obtain r1 e1 log1 where h: "send_stream_head x env bs w ?st (ir_headers i) (ir_cookies i) e (snd s) = (r1, e1, log1)"
    by (metis prod.exhaust)
  from head_sent[OF h] obtain new where new: "log1 = snd s @ new" "list_all (about e) new" "e1 = e\<lparr>st_init := None\<rparr>"
    "\<And>c. owns c (st_body e) e \<Longrightarrow>
       client_phase_from c (st_body e) (entry_phase e) new = (if r1 = Inr True then Streaming else Ending)"
    "wrote e (snd s) (log1 @ [BodyClosed (st_body e)]) Finished" by blast
  have "wrote e (snd s) log1 Streaming" if "r1 = Inr True"
    using that new(1,2,4) by (intro wroteI[of _ _ new]) auto
  then show ?thesis
    using assms h drop_after_head[OF new(3)] new(3,5)
    by (auto simp: dispatch_head_def Let_def entry_outcome_def split: sum.splits if_splits)
qed

text \<open>A chunk after the head it made: the two segments are one.\<close>

lemma chunk_after_head:
  assumes "log1 = snd s @ new" "list_all (about e) new" "e1 = e\<lparr>st_init := None\<rparr>"
    and "\<And>c. owns c (st_body e) e \<Longrightarrow> client_phase_from c (st_body e) (entry_phase e) new = Streaming"
    and "send_chunk x env i e1 (fst s, log1) = (r, s')"
  shows "entry_outcome (ir_id i) e s s'"
proof -
  have "st_init e1 = None" using assms(3) by simp
  from send_chunk_outcome[OF assms(5) this] assms(3)
  consider "fst s' = fst s" "wrote e1 log1 (snd s') Finished"
    | "fst s' = hm_insert (ir_id i) e1 (fst s)" "wrote e1 log1 (snd s') Streaming"
    by (auto simp: entry_outcome_def)
  moreover have "wrote e (snd s) (snd s') ph" if wrote: "wrote e1 log1 (snd s') ph" for ph
  proof -
    from wrote obtain mo where mo: "snd s' = log1 @ mo" "list_all (about e1) mo"
      "\<And>c. client_phase_from c (st_body e) Streaming mo = ph"
      using assms(3) by (auto simp: wrote_def owns_def entry_phase_def)
    have "about e ev" if "about e1 ev" for ev using that assms(3) by (cases ev) auto
    with mo(2) have "list_all (about e) mo" by (auto simp: list_all_iff)
    with wrote_trans_head[OF assms(1,2) _ _ mo(3)] assms(4) mo(1) show ?thesis by simp
  qed
  ultimately show ?thesis using assms(3) by cases (auto simp: entry_outcome_def)
qed

lemma dispatch_chunk_outcome:
  assumes "dispatch_chunk x env bs w i e s = (r, s')"
  shows "entry_outcome (ir_id i) e s s'"
proof (cases "st_init e")
  case None
  with assms send_chunk_outcome[of x env i e s r s'] show ?thesis by (simp add: dispatch_chunk_def)
next
  case (Some c)
  obtain r1 e1 log1 where h: "send_stream_head x env bs w 200 [] [] e (snd s) = (r1, e1, log1)" by (metis prod.exhaust)
  from head_sent[OF h] obtain new where new: "log1 = snd s @ new" "list_all (about e) new" "e1 = e\<lparr>st_init := None\<rparr>"
    "\<And>c. owns c (st_body e) e \<Longrightarrow>
       client_phase_from c (st_body e) (entry_phase e) new = (if r1 = Inr True then Streaming else Ending)"
    "wrote e (snd s) (log1 @ [BodyClosed (st_body e)]) Finished" by blast
  have "entry_outcome (ir_id i) e s s'" if "r1 = Inr True" "send_chunk x env i e1 (fst s, log1) = (r, s')"
    using chunk_after_head[OF new(1-3) _ that(2)] new(4) that(1) by simp
  with assms Some h drop_after_head[OF new(3)] new(5) show ?thesis
    by (auto simp: dispatch_chunk_def Let_def entry_outcome_def split: sum.splits if_splits)
qed

lemma dispatch_entry_outcome:
  "dispatch_entry x env bs w rec e s = (r, s') \<Longrightarrow> entry_outcome (record_id rec) e s s'"
  by (auto simp: dispatch_entry_def record_id_def split: stream_record.splits stream_record_type.splits
      intro: dispatch_legacy_outcome dispatch_head_outcome dispatch_chunk_outcome dispatch_end_outcome dispatch_error_outcome)

subsection \<open>The session invariant\<close>

text \<open>The clients of a batch: each id with its two channels, no channel shared.\<close>

type_synonym clients = "(string \<times> chan \<times> chan) list"

definition clients_ok :: "clients \<Rightarrow> bool" where
  "clients_ok cs \<longleftrightarrow> distinct (map fst cs) \<and> distinct (map (fst \<circ> snd) cs) \<and> distinct (map (snd \<circ> snd) cs)"

definition client_ok :: "dispatch_state \<Rightarrow> string \<times> chan \<times> chan \<Rightarrow> bool" where
  "client_ok s k = (case k of (i, c, b) \<Rightarrow>
     (case hm_get (fst s) i of
        None \<Rightarrow> client_phase c b (snd s) = Finished
      | Some e \<Rightarrow> owns c b e \<and> client_phase c b (snd s) = entry_phase e))"

definition session_inv :: "clients \<Rightarrow> dispatch_state \<Rightarrow> bool" where
  "session_inv cs s \<longleftrightarrow> clients_ok cs \<and> hm_ok (fst s) \<and> fst ` set (fst s) \<subseteq> fst ` set cs \<and> list_all (client_ok s) cs"

lemma clients_unique:
  assumes "clients_ok cs" "k \<in> set cs" "k' \<in> set cs"
  shows "fst k = fst k' \<longleftrightarrow> k = k'" "fst (snd k) = fst (snd k') \<longleftrightarrow> k = k'"
    "snd (snd k) = snd (snd k') \<longleftrightarrow> k = k'"
proof -
  from assms(1) have inj: "inj_on fst (set cs)" "inj_on (fst \<circ> snd) (set cs)" "inj_on (snd \<circ> snd) (set cs)"
    by (simp_all only: clients_ok_def distinct_map)
  show "fst k = fst k' \<longleftrightarrow> k = k'" using inj_onD[OF inj(1) _ assms(2,3)] by blast
  show "fst (snd k) = fst (snd k') \<longleftrightarrow> k = k'" using inj_onD[OF inj(2) _ assms(2,3)] by auto
  show "snd (snd k) = snd (snd k') \<longleftrightarrow> k = k'" using inj_onD[OF inj(3) _ assms(2,3)] by auto
qed

text \<open>A step that writes for one client and leaves the table of the others alone keeps it.\<close>

lemma session_inv_step:
  assumes inv: "session_inv cs s" and e: "hm_get (fst s) i = Some e"
    and wr: "wrote e (snd s) (snd s') ph"
    and tab: "\<And>j. j \<noteq> i \<Longrightarrow> hm_get (fst s') j = hm_get (fst s) j"
    and ok: "hm_ok (fst s')"
    and own: "case hm_get (fst s') i of None \<Rightarrow> ph = Finished
       | Some e' \<Rightarrow> ph = entry_phase e' \<and> (\<forall>c. owns c (st_body e) e \<longrightarrow> owns c (st_body e) e')"
  shows "session_inv cs s'"
proof -
  from wr obtain new where new: "snd s' = snd s @ new" "list_all (about e) new"
    "\<And>c. owns c (st_body e) e \<Longrightarrow> client_phase_from c (st_body e) (entry_phase e) new = ph"
    by (auto simp: wrote_def)
  from e have "i \<in> fst ` set (fst s)" by (metis hm_get_None_iff option.distinct(1))
  with inv obtain c b where k: "(i, c, b) \<in> set cs" by (force simp: session_inv_def)
  with inv e have cb: "owns c b e" "client_phase c b (snd s) = entry_phase e"
    by (auto simp: session_inv_def client_ok_def list_all_iff)
  have "client_ok s' (j, c', b')" if j: "(j, c', b') \<in> set cs" for j c' b'
  proof (cases "j = i")
    case True
    with clients_unique(1)[OF _ j k] inv have "c' = c" "b' = b" by (auto simp: session_inv_def)
    moreover have b: "b = st_body e" using cb(1) by (simp add: owns_def)
    with cb new(3)[of c] have "client_phase c b (snd s') = ph" by (simp add: new(1))
    ultimately show ?thesis
      using own cb(1) b True by (auto simp: client_ok_def split: option.splits)
  next
    case False
    from clients_unique[OF _ j k] False inv have "c' \<noteq> c" "b' \<noteq> b"
      by (auto simp: session_inv_def)
    with cb(1) about_other[OF new(2), of c' b'] have "client_phase c' b' (snd s') = client_phase c' b' (snd s)"
      by (auto simp: new(1) owns_def)
    with inv j tab[OF False] show ?thesis
      by (auto simp: session_inv_def client_ok_def list_all_iff split: option.splits)
  qed
  moreover have "fst ` set (fst s') \<subseteq> fst ` set cs"
  proof
    fix j assume "j \<in> fst ` set (fst s')"
    then have "hm_get (fst s') j \<noteq> None" by (simp add: hm_get_None_iff)
    with tab e have "hm_get (fst s) j \<noteq> None" by (cases "j = i") auto
    then have "j \<in> fst ` set (fst s)" by (simp add: hm_get_None_iff)
    with inv show "j \<in> fst ` set cs" by (auto simp: session_inv_def)
  qed
  ultimately show ?thesis using inv ok by (auto simp: session_inv_def list_all_iff)
qed

lemma dispatch_stream_record_session:
  assumes inv: "session_inv cs s" and d: "dispatch_stream_record x env bs w rec s = (r, s')"
  shows "session_inv cs s'"
proof (cases "record_v rec \<noteq> 1 \<or> hm_get (fst s) (record_id rec) = None")
  case True
  with assms show ?thesis by (auto simp: dispatch_stream_record_def split: if_splits)
next
  case False
  then obtain e where e: "hm_get (fst s) (record_id rec) = Some e" by auto
  let ?s = "(hm_delete (record_id rec) (fst s), snd s)"
  from d e False have de: "dispatch_entry x env bs w rec e ?s = (r, s')"
    by (simp add: dispatch_stream_record_def)
  from inv have ok: "hm_ok (fst s)" by (simp add: session_inv_def)
  from dispatch_stream_record_totals(4)[OF ok d] have ok': "hm_ok (fst s')" .
  from dispatch_entry_outcome[OF de]
  consider "fst s' = hm_delete (record_id rec) (fst s)" "wrote e (snd s) (snd s') Finished"
    | "fst s' = hm_insert (record_id rec) (e\<lparr>st_init := None\<rparr>) (hm_delete (record_id rec) (fst s))"
      "wrote e (snd s) (snd s') Streaming"
    by (auto simp: entry_outcome_def)
  then show ?thesis
    by cases (auto intro!: session_inv_step[OF inv e _ _ ok'] simp: owns_def entry_phase_def)
qed

text \<open>Giving up the whole table finishes every client.\<close>

lemma fail_all_stream_session:
  assumes "session_inv cs (p, log)" and "(i, c, b) \<in> set cs"
  shows "client_phase c b (fail_all_stream env bs w st msg p log) = Finished"
proof -
  have "session_inv cs (p, log) \<Longrightarrow> session_inv cs ([], fail_all_stream env bs w st msg p log)"
  proof (induction env bs w st msg p log rule: fail_all_stream.induct)
    case (1 env bs w st msg log)
    then show ?case by simp
  next
    case (2 env bs w st msg j e p log)
    let ?log = "(case st_init e of None \<Rightarrow> log
       | Some c \<Rightarrow> snd (send_init env c (InitResponse (with_meta bs w (text_response st msg))) log))
       @ [BodyClosed (st_body e)]"
    have ok: "hm_ok p" "j \<notin> fst ` set p" using "2.prems" by (auto simp: session_inv_def hm_ok_def)
    have wr: "wrote e log ?log Finished"
      by (auto simp: wrote_def send_init_def Let_def owns_def entry_phase_def split: option.splits)
    have "session_inv cs (p, ?log)"
    proof (rule session_inv_step[OF "2.prems"])
      show "hm_get (fst ((j, e) # p, log)) j = Some e" by simp
      show "wrote e (snd ((j, e) # p, log)) (snd (p, ?log)) Finished" using wr by simp
      show "hm_get (fst (p, ?log)) k = hm_get (fst ((j, e) # p, log)) k" if "k \<noteq> j" for k
        using that by simp
      show "hm_ok (fst (p, ?log))" using ok by simp
      have "hm_get p j = None" using ok(2) unfolding hm_get_None_iff .
      then show "case hm_get (fst (p, ?log)) j of None \<Rightarrow> Finished = Finished
         | Some e' \<Rightarrow> Finished = entry_phase e' \<and> (\<forall>c. owns c (st_body e) e \<longrightarrow> owns c (st_body e) e')"
        by simp
    qed
    from "2.IH"[OF refl this] show ?case by (simp add: Let_def)
  qed
  from this[OF assms(1)] assms(2) show ?thesis
    by (auto simp: session_inv_def client_ok_def list_all_iff)
qed

subsection \<open>The whole stream\<close>

lemma fail_all_stream_all:
  assumes "session_inv cs s"
  shows "list_all (\<lambda>k. client_phase (fst (snd k)) (snd (snd k)) (fail_all_stream env bs w st msg (fst s) (snd s)) = Finished) cs"
  using fail_all_stream_session[of cs "fst s" "snd s"] assms by (auto simp: list_all_iff)

definition session_out :: "clients \<Rightarrow> log + dispatch_state \<Rightarrow> bool" where
  "session_out cs out = (case out of
      Inl log \<Rightarrow> list_all (\<lambda>k. client_phase (fst (snd k)) (snd (snd k)) log = Finished) cs
    | Inr s \<Rightarrow> session_inv cs s)"

lemma session_out_simps [simp]:
  "session_out cs (Inl log) = list_all (\<lambda>k. client_phase (fst (snd k)) (snd (snd k)) log = Finished) cs"
  "session_out cs (Inr s) = session_inv cs s"
  by (simp_all add: session_out_def)

lemma handle_line_session:
  assumes "session_inv cs s"
  shows "session_out cs (handle_line x env bs w line s)"
proof (cases "parse_stream_record x line")
  case (Inl err)
  with assms show ?thesis by (simp add: handle_line_def fail_all_stream_all)
next
  case (Inr rec)
  obtain r s1 where d: "dispatch_stream_record x env bs w rec s = (r, s1)" by (metis prod.exhaust)
  from dispatch_stream_record_session[OF assms d] have k: "session_inv cs s1" .
  show ?thesis
    by (cases r) (simp_all add: handle_line_def Inr d Let_def k fail_all_stream_all)
qed

lemma run_lines_session:
  "session_inv cs s \<Longrightarrow> session_out cs (run_lines x env bs w ls s)"
proof (induction x env bs w ls s rule: run_lines.induct)
  case (2 x env bs w l ls s)
  note h = handle_line_session[OF "2.prems", of x env bs w l]
  show ?case
  proof (cases "handle_line x env bs w l s")
    case (Inl log)
    with h show ?thesis by simp
  next
    case (Inr s1)
    with h have "session_inv cs s1" by simp
    from "2.IH"[OF Inr this] Inr show ?thesis by simp
  qed
qed simp

lemma finish_stream_session:
  assumes "session_inv cs s"
  shows "session_out cs (Inl (finish_stream x env bs w buf s))"
proof -
  let ?out = "if strip_tail buf = [] then Inr s else handle_line x env bs w (strip_tail buf) s"
  have k: "session_out cs ?out" using assms handle_line_session[OF assms] by simp
  show ?thesis
  proof (cases ?out)
    case (Inl log)
    with k show ?thesis by (simp add: finish_stream_def Let_def)
  next
    case (Inr s1)
    with k have "session_inv cs s1" by simp
    with Inr show ?thesis by (simp add: finish_stream_def Let_def fail_all_stream_all)
  qed
qed

lemma recv_loop_session:
  "session_inv cs s \<Longrightarrow>
   session_out cs (case recv_loop x env bs w chunks buf s of Inl log \<Rightarrow> Inl log | Inr q \<Rightarrow> Inr (snd q))"
proof (induction x env bs w chunks buf s rule: recv_loop.induct)
  case (1 x env bs w buf s)
  then show ?case by simp
next
  case (2 x env bs w err chunks buf s)
  then show ?case by (simp add: fail_all_stream_all)
next
  case (3 x env bs w chunk chunks buf s)
  show ?case
  proof (cases "length (buf @ chunk) > max_buffer_bytes")
    case True
    with "3.prems" show ?thesis by (simp add: fail_all_stream_all)
  next
    case False
    note d = run_lines_session[OF "3.prems", of x env bs w "lines_of (buf @ chunk)"]
    show ?thesis
    proof (cases "run_lines x env bs w (lines_of (buf @ chunk)) s")
      case (Inl log)
      with d False show ?thesis by (simp add: drain_lines_text text_outcome_def)
    next
      case (Inr s1)
      then have dr: "drain_lines x env bs w (buf @ chunk) s = Inr (rest_of (buf @ chunk), s1)"
        by (simp add: drain_lines_text text_outcome_def)
      from d Inr have "session_inv cs s1" by simp
      from "3.IH"[OF False dr refl this] dr False show ?thesis by simp
    qed
  qed
qed

lemma dispatch_response_stream_session:
  assumes "session_inv cs (pending, log)"
  shows "session_out cs (Inl (dispatch_response_stream x env w stream pending log))"
proof (cases "recv_loop x env (length pending) w stream [] (pending, log)")
  case (Inl l)
  with recv_loop_session[OF assms, of x env "length pending" w stream "[]"] show ?thesis
    by (simp add: dispatch_response_stream_def)
next
  case (Inr q)
  obtain buf s where q: "q = (buf, s)" by (metis prod.exhaust)
  with recv_loop_session[OF assms, of x env "length pending" w stream "[]"] Inr have "session_inv cs s"
    by simp
  from finish_stream_session[OF this] Inr q show ?thesis
    by (simp add: dispatch_response_stream_def)
qed

text \<open>The table of a batch that is about to be streamed.\<close>

definition start_table :: "clients \<Rightarrow> (string, stream_pending) hashmap" where
  "start_table cs = map (\<lambda>(i, c, b). (i, \<lparr>st_init = Some c, st_body = b\<rparr>)) cs"

lemma start_table_inv:
  assumes "clients_ok cs"
  shows "session_inv cs (start_table cs, [])"
proof -
  have fst: "map fst (start_table cs) = map fst cs" by (auto simp: start_table_def)
  then have ok: "hm_ok (start_table cs)" using assms by (simp add: hm_ok_def clients_ok_def)
  have "client_ok (start_table cs, []) (i, c, b)" if "(i, c, b) \<in> set cs" for i c b
  proof -
    have "(i, \<lparr>st_init = Some c, st_body = b\<rparr>) \<in> set (start_table cs)"
      using that by (force simp: start_table_def)
    with ok have "hm_get (start_table cs) i = Some \<lparr>st_init = Some c, st_body = b\<rparr>"
      by (simp add: hm_ok_def)
    then show ?thesis by (simp add: client_ok_def owns_def entry_phase_def client_phase_def)
  qed
  with assms ok arg_cong[OF fst, of set] show ?thesis by (auto simp: session_inv_def list_all_iff)
qed

end
