(* ===== verification/Gw_Response_Stream.thy ===== *)
theory Gw_Response_Stream
  imports Gw_Session
begin

text \<open>
  What \<^verbatim>\<open>dispatch_response_stream\<close> of \<^verbatim>\<open>gateway/src/batching.rs\<close> guarantees: the protocol every
  client sees, settlement, independence of the chunking, early delivery, and what a bad record does.
\<close>

subsection \<open>A concrete environment\<close>

text \<open>Three documents: a head and a chunk for \<open>a\<close>, and a record without an id.\<close>

definition stream_ext :: ext where
  "stream_ext = plain_ext\<lparr>x_json_parse := (\<lambda>b.
     if b = ''H'' then Some (JObj [(''v'', JInt 1), (''id'', JStr ''a''), (''type'', JStr ''head''), (''statusCode'', JInt 201)])
     else if b = ''C'' then Some (JObj [(''v'', JInt 1), (''id'', JStr ''a''), (''type'', JStr ''chunk''), (''body'', JStr ''hi'')])
     else if b = ''L'' then Some (JObj [(''v'', JInt 1), (''id'', JStr ''a''), (''statusCode'', JInt 7)])
     else if b = ''N'' then Some (JObj [(''v'', JInt 1), (''statusCode'', JInt 200)])
     else None)\<rparr>"

definition two_clients :: clients where
  "two_clients = [(''a'', 1, 11), (''b'', 2, 12)]"

lemma two_clients_ok: "clients_ok two_clients"
  by (simp add: clients_ok_def two_clients_def)

subsection \<open>Properties\<close>



text \<open>
  However a response stream ends, every init channel of the pending table is settled
  exactly once, every body channel is closed exactly once, and no other channel is touched so.
\<close>

theorem response_stream_settles:
  assumes "hm_ok pending"
  shows "settled (dispatch_response_stream x env w stream pending log) = settled log + owed_stream pending
    \<and> closed (dispatch_response_stream x env w stream pending log) = closed log + open_bodies pending"
  using dispatch_response_stream_settled[OF assms] by simp

theorem response_stream_settles_witness:
  "settled (dispatch_response_stream stream_ext (\<lambda>n c. True) 5 [Inr ''H''] (start_table two_clients) []) = {#1, 2#}"
proof -
  have "hm_ok (start_table two_clients)" by (simp add: hm_ok_def start_table_def two_clients_def)
  from response_stream_settles[OF this, of stream_ext "\<lambda>n c. True" 5 "[Inr ''H'']" "[]"] show ?thesis
    by (simp add: start_table_def two_clients_def init_of_def)
qed

text \<open>
  Property C14: the dispatch depends on the text of the response stream and not on how the
  transport cut it into chunks, as long as the text fits the 8 MiB line buffer.
\<close>

theorem response_stream_chunking:
  assumes "concat cs = concat ds" and "length (concat cs) \<le> max_buffer_bytes"
  shows "dispatch_response_stream x env w (map Inr cs) pending log
    = dispatch_response_stream x env w (map Inr ds) pending log"
  using assms by (simp add: dispatch_response_stream_text)

theorem response_stream_chunking_witness:
  "dispatch_response_stream stream_ext (\<lambda>n c. True) 5 [Inr ''H'', Inr (newline # ''C''), Inr [newline]]
     (start_table two_clients) [] =
   dispatch_response_stream stream_ext (\<lambda>n c. True) 5 [Inr (''H'' @ [newline]), Inr (''C'' @ [newline])]
     (start_table two_clients) []"
  using response_stream_chunking[of "[''H'', newline # ''C'', [newline]]" "[''H'' @ [newline], ''C'' @ [newline]]"
      stream_ext "\<lambda>n c. True" 5 "start_table two_clients" "[]"]
  by (simp add: max_buffer_bytes_def)

lemma recv_loop_append:
  "recv_loop x env bs w (a @ b) buf s =
     (case recv_loop x env bs w a buf s of Inl log \<Rightarrow> Inl log | Inr q \<Rightarrow> recv_loop x env bs w b (fst q) (snd q))"
  by (induction x env bs w a buf s rule: recv_loop.induct) (auto split: sum.splits prod.splits)

text \<open>
  Property C23: records are dispatched as soon as their line is complete. After any chunks of a
  stream, the lines those chunks complete have been handled in order, only the unfinished last line
  is kept back, and what was delivered is never revised by the rest of the stream.
\<close>

theorem response_stream_early_delivery:
  assumes "length (concat cs) \<le> max_buffer_bytes" and "hm_ok pending"
    and "recv_loop x env (length pending) w (map Inr cs) [] (pending, log) = Inr (buf, s)"
  shows "run_lines x env (length pending) w (lines_of (concat cs)) (pending, log) = Inr s
    \<and> buf = rest_of (concat cs)
    \<and> prefix (snd s) (dispatch_response_stream x env w (map Inr cs @ more_chunks) pending log)"
proof -
  have t: "recv_loop x env (length pending) w (map Inr cs) [] (pending, log)
      = text_outcome x env (length pending) w (concat cs) (pending, log)"
    using recv_loop_text[of "[]" cs x env "length pending" w "(pending, log)"] assms(1) by simp
  then have r: "run_lines x env (length pending) w (lines_of (concat cs)) (pending, log) = Inr s"
    "buf = rest_of (concat cs)"
    using assms(3) by (auto simp: text_outcome_def split: sum.splits)
  have ok: "hm_ok (fst s)"
    using recv_loop_keeps[of "(pending, log)" x env "length pending" w "map Inr cs" "[]"] assms(2,3) by simp
  have k: "keeps s (Inl (case recv_loop x env (length pending) w more_chunks buf s of
      Inl log \<Rightarrow> log | Inr q \<Rightarrow> finish_stream x env (length pending) w (fst q) (snd q)))"
  proof (cases "recv_loop x env (length pending) w more_chunks buf s")
    case (Inl l)
    with recv_loop_keeps[OF ok, of x env "length pending" w more_chunks buf] show ?thesis by simp
  next
    case (Inr q)
    with recv_loop_keeps[OF ok, of x env "length pending" w more_chunks buf]
    have kq: "keeps s (Inr (snd q))" by simp
    then have "hm_ok (fst (snd q))" by simp
    from keeps_trans[OF kq finish_stream_keeps[OF this]] Inr show ?thesis by (simp del: keeps_simps)
  qed
  have "dispatch_response_stream x env w (map Inr cs @ more_chunks) pending log =
      (case recv_loop x env (length pending) w more_chunks buf s of
         Inl log \<Rightarrow> log | Inr q \<Rightarrow> finish_stream x env (length pending) w (fst q) (snd q))"
    using assms(3) by (simp add: dispatch_response_stream_def recv_loop_append split: sum.split)
  with k r show ?thesis by simp
qed

theorem response_stream_early_delivery_witness:
  "prefix [Init 1 (InitStream \<lparr>sh_status = 201, sh_headers = [],
          sh_meta = \<lparr>rm_batch_size = 2, rm_batch_wait_ms = 5\<rparr>\<rparr>) True]
     (dispatch_response_stream stream_ext (\<lambda>n c. True) 5
          ([Inr (''H'' @ [newline] @ ''C''), Inl ''reset'']) (start_table two_clients) [])"
proof -
  let ?p = "start_table two_clients"
  let ?lg = "[Init 1 (InitStream \<lparr>sh_status = 201, sh_headers = [],
          sh_meta = \<lparr>rm_batch_size = 2, rm_batch_wait_ms = 5\<rparr>\<rparr>) True]"
  have ok: "hm_ok ?p" by (simp add: hm_ok_def start_table_def two_clients_def)
  have len: "length (concat [''H'' @ [newline] @ ''C'']) \<le> max_buffer_bytes" by (simp add: max_buffer_bytes_def)
  have "map_sum id snd (handle_line stream_ext (\<lambda>n c. True) (length ?p) 5 ''H'' (?p, [])) = Inr ?lg"
    by code_simp
  then obtain s where s: "handle_line stream_ext (\<lambda>n c. True) (length ?p) 5 ''H'' (?p, []) = Inr s" "snd s = ?lg"
    by (cases "handle_line stream_ext (\<lambda>n c. True) (length ?p) 5 ''H'' (?p, [])") auto
  have l: "lines_of (''H'' @ [newline] @ ''C'') = [''H'']" "rest_of (''H'' @ [newline] @ ''C'') = ''C''"
    by (simp_all add: lines_of_def rest_of_def strip_cr_def)
  have t: "recv_loop stream_ext (\<lambda>n c. True) (length ?p) 5 (map Inr [''H'' @ [newline] @ ''C'']) [] (?p, [])
      = Inr (''C'', s)"
    using recv_loop_text[of "[]" "[''H'' @ [newline] @ ''C'']" stream_ext "\<lambda>n c. True" "length ?p" 5 "(?p, [])"] len s(1) l
    by (simp add: text_outcome_def)
  from response_stream_early_delivery[OF len ok t, of "[Inl ''reset'']"] s(2) show ?thesis by simp
qed

text \<open>
  Property C35: one record that cannot be turned into a response ends the whole streamed batch. Its
  own client gets no message at all, its init is dropped and its body closed, and every other client
  is failed with a 502, although nothing was wrong with their records. (The buffered dispatcher
  answers a 502 to the one client and goes on with the others.)
\<close>

theorem bad_legacy_record_fails_batch:
  assumes "parse_stream_record x line = Inr (Legacy l)" and "lr_v l = 1"
    and "hm_get pending (lr_id l) = Some e" and "st_init e = Some c"
    and "build_gateway_response_parts x (lr_status_code l) (lr_headers l) (lr_cookies l) (lr_body l)
      (lr_is_base64_encoded l) = Inl err"
  shows "handle_line x env bs w line (pending, log) =
    Inl (fail_all_stream env bs w 502 (''bad response: '' @ show_err x err)
      (hm_delete (lr_id l) pending) (log @ [InitDropped c, BodyClosed (st_body e)]))"
  using assms
  by (simp add: handle_line_def dispatch_stream_record_def record_v_def dispatch_entry_def
      dispatch_legacy_def drop_entry_def)

theorem bad_legacy_record_fails_batch_witness:
  "handle_line stream_ext (\<lambda>n c. True) 2 5 ''L'' (start_table two_clients, []) =
   Inl [InitDropped 1, BodyClosed 11,
        Init 2 (InitResponse (with_meta 2 5 (text_response 502 ''bad response: error''))) True, BodyClosed 12]"
proof -
  let ?l = "\<lparr>lr_v = 1, lr_id = ''a'', lr_status_code = 7, lr_headers = [], lr_cookies = [], lr_body = [],
    lr_is_base64_encoded = False\<rparr>"
  have p: "parse_stream_record stream_ext ''L'' = Inr (Legacy ?l)" by code_simp
  have b: "build_gateway_response_parts stream_ext (lr_status_code ?l) (lr_headers ?l) (lr_cookies ?l) (lr_body ?l)
      (lr_is_base64_encoded ?l) = Inl (BadStatus 7)" by code_simp
  have g: "hm_get (start_table two_clients) (lr_id ?l) = Some \<lparr>st_init = Some 1, st_body = 11\<rparr>"
    by (simp add: start_table_def two_clients_def)
  from bad_legacy_record_fails_batch[OF p _ g _ b, of 1 "\<lambda>n c. True" 2 5 "[]"] show ?thesis
    by (simp add: start_table_def two_clients_def send_init_def Let_def stream_ext_def plain_ext_def)
qed

lemma map_of_filter_None: "map_of m k = None \<Longrightarrow> map_of (filter P m) k = None"
  by (auto simp: map_of_eq_None_iff)

lemma no_id_decode:
  assumes "map_of m ''id'' = None"
  shows "dec_legacy_record (JObj m) = None" "dec_interleaved_record (JObj m) = None"
  using map_of_filter_None[OF assms]
  by (auto simp: dec_legacy_record_def dec_interleaved_record_def struct_view_def req_field_def Let_def
      bind_eq_None_conv)

text \<open>
  A record without an \<^verbatim>\<open>id\<close> is not skipped: the stream is given up there and every
  pending request of the batch is failed with a 502 that says the record is bad.
\<close>

theorem record_without_id_fails_batch:
  assumes "x_json_parse x line = Some (JObj kvs)" and "''id'' \<notin> fst ` set kvs"
  shows "handle_line x env bs w line s =
    Inl (fail_all_stream env bs w 502 (''bad ndjson record: '' @ show_err x (BadJson line)) (fst s) (snd s))"
proof -
  let ?m = "last_wins (map (\<lambda>(k, v). (k, to_value v)) kvs) []"
  have "''id'' \<notin> fst ` set ?m" using assms(2) by (auto simp: last_wins_keys image_iff)
  then have "map_of ?m ''id'' = None" unfolding map_of_eq_None_iff .
  from no_id_decode[OF this] assms(1) show ?thesis
    by (simp add: handle_line_def parse_stream_record_def from_slice_def)
qed

theorem record_without_id_fails_batch_witness:
  "handle_line stream_ext (\<lambda>n c. True) 1 5 ''N'' ([(''b'', \<lparr>st_init = Some 2, st_body = 12\<rparr>)], []) =
   Inl [Init 2 (InitResponse (with_meta 1 5 (text_response 502 ''bad ndjson record: error''))) True, BodyClosed 12]"
  using record_without_id_fails_batch[of stream_ext "''N''" "[(''v'', JInt 1), (''statusCode'', JInt 200)]"
      "\<lambda>n c. True" 1 5 "([(''b'', \<lparr>st_init = Some 2, st_body = 12\<rparr>)], [])"]
  by (simp add: stream_ext_def plain_ext_def send_init_def Let_def)

end
