(* ===== verification/Gw_Float.thy ===== *)
theory Gw_Float
  imports Complex_Main "HOL-Library.Log_Nat"
begin

text \<open>
  Rust's \<^verbatim>\<open>f64\<close>: NaN, the infinities and the finite values, which are dyadic rationals. Each
  arithmetic operation computes the exact rational result and rounds it to the nearest binary64
  value, ties to even, overflowing to an infinity (IEEE 754). The two zeros are one value here;
  no operation below distinguishes them.
\<close>

datatype f64 = F_NaN | F_PosInf | F_NegInf | F_Fin rat

subsection \<open>Rounding\<close>

definition ilog2 :: "rat \<Rightarrow> int" where
  "ilog2 x = (let q = quotient_of x; e = bitlen (fst q) - bitlen (snd q)
              in if 2 powi e \<le> x then e else e - 1)"

definition round_half_even :: "rat \<Rightarrow> int" where
  "round_half_even x =
     (let f = \<lfloor>x\<rfloor>; d = x - of_int f
      in if d < 1 / 2 then f else if d > 1 / 2 then f + 1 else if even f then f else f + 1)"

definition ulp_exp :: "rat \<Rightarrow> int" where
  "ulp_exp x = max (ilog2 x - 52) (- 1074)"

definition round_mag :: "rat \<Rightarrow> rat" where
  "round_mag x =
     (if x \<le> 0 then 0 else of_int (round_half_even (x / 2 powi ulp_exp x)) * 2 powi ulp_exp x)"

definition fl :: "rat \<Rightarrow> f64" where
  "fl x =
     (let r = round_mag \<bar>x\<bar>
      in if r \<ge> 2 ^ 1024 then (if x < 0 then F_NegInf else F_PosInf)
         else F_Fin (if x < 0 then - r else r))"

subsection \<open>Operations\<close>

definition f_of_nat :: "nat \<Rightarrow> f64" where
  "f_of_nat n = fl (of_nat n)"

fun f_neg :: "f64 \<Rightarrow> f64" where
  "f_neg F_NaN = F_NaN"
| "f_neg F_PosInf = F_NegInf"
| "f_neg F_NegInf = F_PosInf"
| "f_neg (F_Fin x) = F_Fin (- x)"

fun f_add :: "f64 \<Rightarrow> f64 \<Rightarrow> f64" where
  "f_add (F_Fin x) (F_Fin y) = fl (x + y)"
| "f_add F_NaN _ = F_NaN"
| "f_add _ F_NaN = F_NaN"
| "f_add F_PosInf F_NegInf = F_NaN"
| "f_add F_NegInf F_PosInf = F_NaN"
| "f_add F_PosInf _ = F_PosInf"
| "f_add F_NegInf _ = F_NegInf"
| "f_add (F_Fin _) y = y"

definition f_sub :: "f64 \<Rightarrow> f64 \<Rightarrow> f64" where
  "f_sub a b = f_add a (f_neg b)"

definition f_inf :: "bool \<Rightarrow> f64" where
  "f_inf neg = (if neg then F_NegInf else F_PosInf)"

fun f_mul :: "f64 \<Rightarrow> f64 \<Rightarrow> f64" where
  "f_mul (F_Fin x) (F_Fin y) = fl (x * y)"
| "f_mul F_NaN _ = F_NaN"
| "f_mul _ F_NaN = F_NaN"
| "f_mul (F_Fin x) y = (if x = 0 then F_NaN else f_inf ((x < 0) \<noteq> (y = F_NegInf)))"
| "f_mul x (F_Fin y) = (if y = 0 then F_NaN else f_inf ((y < 0) \<noteq> (x = F_NegInf)))"
| "f_mul x y = f_inf (x \<noteq> y)"

text \<open>Division by zero is an infinity with the sign of the dividend (only used with positive zero).\<close>

fun f_div :: "f64 \<Rightarrow> f64 \<Rightarrow> f64" where
  "f_div (F_Fin x) (F_Fin y) =
     (if y = 0 then (if x = 0 then F_NaN else f_inf (x < 0)) else fl (x / y))"
| "f_div F_NaN _ = F_NaN"
| "f_div _ F_NaN = F_NaN"
| "f_div (F_Fin x) _ = F_Fin 0"
| "f_div x (F_Fin y) = f_inf ((y < 0) \<noteq> (x = F_NegInf))"
| "f_div _ _ = F_NaN"

fun f_less :: "f64 \<Rightarrow> f64 \<Rightarrow> bool" where
  "f_less (F_Fin x) (F_Fin y) = (x < y)"
| "f_less F_NaN _ = False"
| "f_less _ F_NaN = False"
| "f_less F_NegInf y = (y \<noteq> F_NegInf)"
| "f_less _ F_NegInf = False"
| "f_less F_PosInf _ = False"
| "f_less _ F_PosInf = True"

definition f_is_finite :: "f64 \<Rightarrow> bool" where
  "f_is_finite a = (case a of F_Fin _ \<Rightarrow> True | _ \<Rightarrow> False)"

text \<open>\<^verbatim>\<open>round\<close> (half away from zero), \<^verbatim>\<open>trunc\<close>, \<^verbatim>\<open>clamp\<close>, and the saturating cast to \<^verbatim>\<open>u64\<close>.\<close>

definition rat_round :: "rat \<Rightarrow> int" where
  "rat_round x = (if x < 0 then - \<lfloor>- x + 1 / 2\<rfloor> else \<lfloor>x + 1 / 2\<rfloor>)"

definition rat_trunc :: "rat \<Rightarrow> int" where
  "rat_trunc x = (if x < 0 then - \<lfloor>- x\<rfloor> else \<lfloor>x\<rfloor>)"

definition f_round :: "f64 \<Rightarrow> f64" where
  "f_round a = (case a of F_Fin x \<Rightarrow> F_Fin (of_int (rat_round x)) | _ \<Rightarrow> a)"

definition f_trunc :: "f64 \<Rightarrow> f64" where
  "f_trunc a = (case a of F_Fin x \<Rightarrow> F_Fin (of_int (rat_trunc x)) | _ \<Rightarrow> a)"

definition f_clamp :: "f64 \<Rightarrow> f64 \<Rightarrow> f64 \<Rightarrow> f64" where
  "f_clamp a lo hi =
     (let a = (if f_less a lo then lo else a) in if f_less hi a then hi else a)"

fun f_to_u64 :: "f64 \<Rightarrow> nat" where
  "f_to_u64 F_NaN = 0"
| "f_to_u64 F_PosInf = 2 ^ 64 - 1"
| "f_to_u64 F_NegInf = 0"
| "f_to_u64 (F_Fin x) = min (nat (rat_trunc x)) (2 ^ 64 - 1)"

subsection \<open>Facts\<close>

lemma round_mag_nonneg: "0 \<le> round_mag x"
proof -
  have "0 \<le> round_half_even y" if "0 \<le> y" for y :: rat
  proof -
    have "0 \<le> \<lfloor>y\<rfloor>" using that by simp
    then show ?thesis by (simp add: round_half_even_def Let_def)
  qed
  then have "0 \<le> round_half_even (x / 2 powi ulp_exp x)" if "0 < x" using that by simp
  then show ?thesis by (simp add: round_mag_def)
qed

lemma fl_not_NaN [simp]: "fl x \<noteq> F_NaN"
  by (simp add: fl_def Let_def)

text \<open>Values that are neither negative nor NaN.\<close>

fun f_nonneg :: "f64 \<Rightarrow> bool" where
  "f_nonneg (F_Fin x) = (0 \<le> x)"
| "f_nonneg F_PosInf = True"
| "f_nonneg _ = False"

lemma fl_nonneg: "0 \<le> x \<Longrightarrow> f_nonneg (fl x)"
  by (simp add: fl_def Let_def round_mag_nonneg)

lemma f_of_nat_nonneg: "f_nonneg (f_of_nat n)"
  by (simp add: f_of_nat_def fl_nonneg)

lemma f_add_nonneg: "f_nonneg a \<Longrightarrow> f_nonneg b \<Longrightarrow> f_nonneg (f_add a b)"
  by (cases a; cases b) (simp_all add: fl_nonneg)

lemma f_div_nonneg: "f_nonneg a \<Longrightarrow> f_less (F_Fin 0) b \<Longrightarrow> a \<noteq> F_PosInf \<Longrightarrow> f_nonneg (f_div a b)"
  by (cases a; cases b) (simp_all add: fl_nonneg)

text \<open>Integers below \<open>2 ^ 53\<close> are represented exactly.\<close>

lemma quotient_of_of_nat: "quotient_of (of_nat n) = (int n, 1)"
  using quotient_of_int[of "int n"] by (simp add: Rat.of_int_def quotient_of_number)

lemma bitlen_one: "bitlen 1 = 1"
  by (simp add: bitlen_alt_def)

lemma bitlen_positive: "0 < x \<Longrightarrow> 0 < bitlen x"
  using bitlen_nonneg[of x] bitlen_eq_zero_iff[of x] by linarith

lemma ilog2_nat:
  assumes "0 < n"
  shows "ilog2 (of_nat n) = bitlen (int n) - 1"
proof -
  have b: "0 < bitlen (int n)" using assms by (simp add: bitlen_positive)
  have "2 ^ nat (bitlen (int n) - 1) \<le> int n" using bitlen_bounds[of "int n"] assms by simp
  then have "(2 :: rat) ^ nat (bitlen (int n) - 1) \<le> of_nat n"
    by (metis of_int_le_iff of_int_of_nat_eq of_int_power of_int_numeral)
  then have "(2 :: rat) powi (bitlen (int n) - 1) \<le> of_nat n"
    using b by (simp add: power_int_def)
  then show ?thesis by (simp add: ilog2_def quotient_of_of_nat bitlen_one Let_def)
qed

lemma round_half_even_int [simp]: "round_half_even (of_int k) = k"
  by (simp add: round_half_even_def Let_def)

lemma fl_of_nat:
  assumes "n < 2 ^ 53"
  shows "fl (of_nat n) = F_Fin (of_nat n)"
proof (cases "n = 0")
  case True
  then show ?thesis by (simp add: fl_def round_mag_def Let_def)
next
  case False
  have "int n < 2 ^ 53" using assms by (metis of_nat_less_iff of_nat_numeral of_nat_power)
  then have "bitlen (int n) \<le> 53" using bitlen_le_iff_power[of "int n" 53] False by simp
  moreover have "0 < bitlen (int n)" using False by (simp add: bitlen_positive)
  ultimately have u: "ulp_exp (of_nat n) = bitlen (int n) - 53" "ulp_exp (of_nat n) \<le> 0"
    using ilog2_nat[of n] False by (simp_all add: ulp_exp_def)
  define k where "k = nat (- ulp_exp (of_nat n))"
  have "(2 :: rat) powi ulp_exp (of_nat n) = 1 / 2 ^ k"
  proof -
    have "ulp_exp (of_nat n) = - int k" using u(2) by (simp add: k_def)
    then show ?thesis by (simp only: power_int_minus power_int_of_nat inverse_eq_divide)
  qed
  moreover have "of_nat n * 2 ^ k = (of_int (int n * 2 ^ k) :: rat)" by simp
  ultimately have "round_mag (of_nat n) = of_nat n"
    using False round_half_even_int[of "int n * 2 ^ k"] by (simp add: round_mag_def)
  moreover have "(of_nat n :: rat) < 2 ^ 1024"
  proof -
    have "(2 :: nat) ^ 53 \<le> 2 ^ 1024" by (rule power_increasing) simp_all
    with assms have "n < 2 ^ 1024" by linarith
    then show ?thesis by (metis of_nat_less_iff of_nat_numeral of_nat_power)
  qed
  ultimately show ?thesis by (simp add: fl_def Let_def)
qed

lemma f_of_nat_exact: "n < 2 ^ 53 \<Longrightarrow> f_of_nat n = F_Fin (of_nat n)"
  unfolding f_of_nat_def by (rule fl_of_nat)

text \<open>No 64-bit integer overflows.\<close>

lemma round_half_even_le: "round_half_even x \<le> \<lfloor>x\<rfloor> + 1"
  by (simp add: round_half_even_def Let_def)

lemma f_of_nat_finite:
  assumes "n < 2 ^ 64"
  shows "f_of_nat n \<noteq> F_PosInf"
proof (cases "n = 0")
  case True
  then show ?thesis by (simp add: f_of_nat_def fl_def round_mag_def Let_def)
next
  case False
  have "int n < 2 ^ 64" using assms by (metis of_nat_less_iff of_nat_numeral of_nat_power)
  then have "bitlen (int n) \<le> 64" using bitlen_le_iff_power[of "int n" 64] False by simp
  moreover have "0 < bitlen (int n)" using False by (simp add: bitlen_positive)
  ultimately have "ulp_exp (of_nat n) \<le> 11" using ilog2_nat[of n] False by (simp add: ulp_exp_def)
  then have u: "(2 :: rat) powi ulp_exp (of_nat n) \<le> 2 powi 11" by (intro power_int_increasing) simp_all
  define p where "p = (2 :: rat) powi ulp_exp (of_nat n)"
  have p: "0 < p" "p \<le> 2048" using u by (simp_all add: p_def)
  have "round_mag (of_nat n) = of_int (round_half_even (of_nat n / p)) * p" using False by (simp add: round_mag_def p_def)
  also have "\<dots> \<le> (of_nat n / p + 1) * p"
  proof (rule mult_right_mono)
    have "(of_int (round_half_even (of_nat n / p)) :: rat) \<le> of_int (\<lfloor>of_nat n / p\<rfloor> + 1)"
      using round_half_even_le[of "of_nat n / p"] by (simp only: of_int_le_iff)
    also have "\<dots> \<le> of_nat n / p + 1" by simp
    finally show "of_int (round_half_even (of_nat n / p)) \<le> of_nat n / p + 1" .
  qed (use p in simp)
  also have "\<dots> = of_nat n + p" using p(1) by (simp add: field_simps)
  also have "\<dots> \<le> of_nat n + 2048" using p(2) by simp
  also have "\<dots> < 2 ^ 65"
  proof -
    have "n + 2048 < 2 ^ 65" using assms by simp
    then have "(of_nat (n + 2048) :: rat) < of_nat (2 ^ 65)" by (simp only: of_nat_less_iff)
    then show ?thesis by simp
  qed
  also have "(2 :: rat) ^ 65 \<le> 2 ^ 1024" by (rule power_increasing) simp_all
  finally have "round_mag (of_nat n) < 2 ^ 1024" .
  then show ?thesis by (simp add: f_of_nat_def fl_def Let_def)
qed

end
