(* ===== verification/Gw_Spec.thy ===== *)
theory Gw_Spec
  imports Gw_Json Gw_Float
begin

text \<open>
  \<^verbatim>\<open>gateway/src/spec.rs\<close>: the OpenAPI-like routing spec, its validation, and request matching.
  The path router (\<^verbatim>\<open>matchit::Router\<close>) is a library: its operations are the fields of the
  record \<open>router_ops\<close>, and the theorems name what they need of it.
\<close>

subsection \<open>HTTP methods\<close>

datatype http_method = Method (method_str: string)

instantiation http_method :: linorder
begin

definition less_eq_http_method :: "http_method \<Rightarrow> http_method \<Rightarrow> bool" where
  "less_eq_http_method a b \<longleftrightarrow> method_str a \<le> method_str b"

definition less_http_method :: "http_method \<Rightarrow> http_method \<Rightarrow> bool" where
  "less_http_method a b \<longleftrightarrow> method_str a < method_str b"

instance
  by standard
    (auto simp: less_eq_http_method_def less_http_method_def intro: http_method.expand)

end

abbreviation "GET \<equiv> Method ''GET''"
abbreviation "POST \<equiv> Method ''POST''"
abbreviation "PUT \<equiv> Method ''PUT''"
abbreviation "DELETE \<equiv> Method ''DELETE''"
abbreviation "PATCH \<equiv> Method ''PATCH''"
abbreviation "HEAD \<equiv> Method ''HEAD''"
abbreviation "OPTIONS \<equiv> Method ''OPTIONS''"

subsection \<open>Configuration data\<close>

datatype invoke_mode = Buffered | ResponseStream

record dynamic_wait_config =
  dw_min_wait_ms :: nat
  dw_target_rps :: f64
  dw_steepness :: f64
  dw_sampling_interval_ms :: nat
  dw_smoothing_samples :: nat

record smug_operation_config =
  so_max_wait_ms :: nat
  so_max_batch_size :: nat
  so_key :: "string list"
  so_timeout_ms :: "nat option"
  so_invoke_mode :: invoke_mode
  so_dynamic_wait :: "dynamic_wait_config option"

datatype batch_key_dimension = Header string | Query string

record operation =
  op_operation_id :: "string option"
  op_target_lambda :: string
  op_smug :: smug_operation_config

record path_item =
  pi_get :: "operation option"
  pi_post :: "operation option"
  pi_put :: "operation option"
  pi_delete :: "operation option"
  pi_patch :: "operation option"
  pi_head :: "operation option"
  pi_options :: "operation option"

text \<open>\<^verbatim>\<open>paths\<close> is a \<^verbatim>\<open>BTreeMap\<close>: the list of its entries in key order.\<close>

record openapi_like_spec =
  sp_paths :: "(string \<times> path_item) list"

record operation_config =
  oc_route_template :: string
  oc_method :: http_method
  oc_operation_id :: "string option"
  oc_target_lambda :: string
  oc_max_wait_ms :: nat
  oc_max_batch_size :: nat
  oc_key :: "batch_key_dimension list"
  oc_timeout_ms :: nat
  oc_invoke_mode :: invoke_mode
  oc_dynamic_wait :: "dynamic_wait_config option"

type_synonym route_config = "(http_method, operation_config) hashmap"

datatype route_match =
    NotFound
  | MethodNotAllowed "http_method list"
  | Matched operation_config "(string, string) hashmap"

record 'r router_ops =
  ro_new :: 'r
  ro_insert :: "'r \<Rightarrow> string \<Rightarrow> route_config \<Rightarrow> string + 'r"
  ro_at :: "'r \<Rightarrow> string \<Rightarrow> (route_config \<times> (string \<times> string) list) option"

subsection \<open>Validation\<close>

definition is_lambda_function_arn :: "string \<Rightarrow> bool" where
  "is_lambda_function_arn v =
     (let v = trim v; parts = split_on (CHR '':'') v
      in if \<not> starts_with ''arn:'' v then False
         else if length parts < 7 then False
         else if parts ! 2 \<noteq> ''lambda'' then False
         else if parts ! 5 \<noteq> ''function'' then False
         else parts ! 6 \<noteq> [])"

text \<open>The loop carries the dimensions found so far and the two sets of names already used.\<close>

fun parse_dims_loop :: "ext \<Rightarrow> string list \<Rightarrow> batch_key_dimension list \<Rightarrow> string list \<Rightarrow>
    string list \<Rightarrow> ext_error + batch_key_dimension list" where
  "parse_dims_loop x [] dims headers queries = Inr dims"
| "parse_dims_loop x (entry # raw) dims headers queries =
     (let entry = trim entry; lowered = to_ascii_lowercase entry
      in if entry = [] then Inl (Bail ''empty key entry'')
         else if lowered = ''method'' \<or> lowered = ''route'' \<or> lowered = ''lambda''
              \<or> lowered = ''target_lambda'' \<or> lowered = ''target-lambda''
         then parse_dims_loop x raw dims headers queries
         else (case split_once (CHR '':'') entry of
             None \<Rightarrow> Inl (Bail (''unsupported key dimension: '' @ entry))
           | Some (kind, rest) \<Rightarrow>
               let kind = to_ascii_lowercase (trim kind); name = trim rest
               in if kind = ''header'' then
                    if name = [] then Inl (Bail ''header dimension requires a name'')
                    else (case x_header_name x (to_ascii_lowercase name) of
                        None \<Rightarrow> Inl (BadHeaderName (to_ascii_lowercase name))
                      | Some header \<Rightarrow>
                          if header \<in> set headers
                          then Inl (Bail (''duplicate header dimension: '' @ header))
                          else parse_dims_loop x raw (dims @ [Header header]) (header # headers) queries)
                  else if kind = ''query'' then
                    if name = [] then Inl (Bail ''query dimension requires a name'')
                    else if name \<in> set queries
                    then Inl (Bail (''duplicate query dimension: '' @ name))
                    else parse_dims_loop x raw (dims @ [Query name]) headers (name # queries)
                  else Inl (Bail (''unsupported key dimension type: '' @ kind))))"

definition parse_batch_key_dimensions :: "ext \<Rightarrow> string list \<Rightarrow> ext_error + batch_key_dimension list" where
  "parse_batch_key_dimensions x raw = parse_dims_loop x raw [] [] []"

definition where_op :: "http_method \<Rightarrow> string \<Rightarrow> string" where
  "where_op m route = '' for '' @ method_str m @ '' '' @ route"

definition check_dynamic :: "http_method \<Rightarrow> string \<Rightarrow> nat \<Rightarrow> dynamic_wait_config \<Rightarrow> ext_error + unit" where
  "check_dynamic m route max_wait_ms d =
     (if dw_min_wait_ms d > max_wait_ms
      then Inl (Bail (''x-smug.dynamicWait.minWaitMs must be <= x-smug.maxWaitMs'' @ where_op m route))
      else if dw_sampling_interval_ms d = 0
      then Inl (Bail (''x-smug.dynamicWait.samplingIntervalMs must be > 0'' @ where_op m route))
      else if dw_smoothing_samples d = 0
      then Inl (Bail (''x-smug.dynamicWait.smoothingSamples must be > 0'' @ where_op m route))
      else if \<not> f_is_finite (dw_target_rps d) \<or> f_less (dw_target_rps d) (F_Fin 0)
      then Inl (Bail (''x-smug.dynamicWait.targetRps must be a finite non-negative number'' @ where_op m route))
      else if \<not> f_is_finite (dw_steepness d) \<or> f_less (dw_steepness d) (F_Fin 0) \<or> dw_steepness d = F_Fin 0
      then Inl (Bail (''x-smug.dynamicWait.steepness must be a finite number > 0'' @ where_op m route))
      else Inr ())"

definition add_op :: "ext \<Rightarrow> string \<Rightarrow> nat \<Rightarrow> http_method \<Rightarrow> operation option \<Rightarrow> route_config \<Rightarrow>
    ext_error + route_config" where
  "add_op x route default_timeout_ms m op_opt ops =
     (case op_opt of
        None \<Rightarrow> Inr ops
      | Some op \<Rightarrow>
          let smug = op_smug op
          in if \<not> is_lambda_function_arn (op_target_lambda op)
             then Inl (Bail (''x-target-lambda must be a Lambda function ARN'' @ where_op m route
                              @ '' (got: '' @ op_target_lambda op @ '')''))
             else if so_max_batch_size smug = 0
             then Inl (Bail (''x-smug.maxBatchSize must be > 0'' @ where_op m route))
             else
               res_bind (map_err (\<lambda>e. Bail (''invalid x-smug.key'' @ where_op m route @ '': '' @ show_err x e))
                          (parse_batch_key_dimensions x (so_key smug))) (\<lambda>key.
               res_bind (case so_dynamic_wait smug of None \<Rightarrow> Inr ()
                         | Some d \<Rightarrow> check_dynamic m route (so_max_wait_ms smug) d) (\<lambda>_.
                 Inr (hm_insert m
                   \<lparr>oc_route_template = route, oc_method = m, oc_operation_id = op_operation_id op,
                    oc_target_lambda = op_target_lambda op, oc_max_wait_ms = so_max_wait_ms smug,
                    oc_max_batch_size = so_max_batch_size smug, oc_key = key,
                    oc_timeout_ms = (case so_timeout_ms smug of None \<Rightarrow> default_timeout_ms | Some t \<Rightarrow> t),
                    oc_invoke_mode = so_invoke_mode smug, oc_dynamic_wait = so_dynamic_wait smug\<rparr> ops))))"

subsection \<open>Path templates\<close>

text \<open>The character loop: whether a parameter is open, and its name so far.\<close>

fun template_loop :: "string \<Rightarrow> string \<Rightarrow> bool \<Rightarrow> string \<Rightarrow> ext_error + bool" where
  "template_loop path [] in_param name = Inr in_param"
| "template_loop path (ch # s) in_param name =
     (if ch = CHR ''{'' then
        if in_param then Inl (Bail (''nested '' @ [CHR 0x27, CHR ''{'', CHR 0x27] @ '' in path template: '' @ path))
        else template_loop path s True []
      else if ch = CHR ''}'' then
        if \<not> in_param then Inl (Bail (''unmatched '' @ [CHR 0x27, CHR ''}'', CHR 0x27] @ '' in path template: '' @ path))
        else if name = [] then Inl (Bail (''empty '' @ [CHR 0x27, CHR ''{'', CHR ''}'', CHR 0x27] @ '' param in path template: '' @ path))
        else template_loop path s False name
      else template_loop path s in_param (if in_param then name @ [ch] else name))"

definition openapi_path_to_matchit :: "string \<Rightarrow> ext_error + string" where
  "openapi_path_to_matchit path =
     (if \<not> starts_with ''/'' path
      then Inl (Bail (''path templates must start with '' @ [CHR 0x27, CHR ''/'', CHR 0x27] @ '': '' @ path))
      else res_bind (template_loop path path False []) (\<lambda>in_param.
        if in_param then Inl (Bail (''unclosed '' @ [CHR 0x27, CHR ''{'', CHR 0x27] @ '' in path template: '' @ path))
        else Inr path))"

subsection \<open>Compilation and matching\<close>

definition compile_item :: "ext \<Rightarrow> nat \<Rightarrow> string \<Rightarrow> path_item \<Rightarrow> ext_error + route_config" where
  "compile_item x default_timeout_ms route item =
     res_bind (add_op x route default_timeout_ms GET (pi_get item) []) (\<lambda>ops.
     res_bind (add_op x route default_timeout_ms POST (pi_post item) ops) (\<lambda>ops.
     res_bind (add_op x route default_timeout_ms PUT (pi_put item) ops) (\<lambda>ops.
     res_bind (add_op x route default_timeout_ms DELETE (pi_delete item) ops) (\<lambda>ops.
     res_bind (add_op x route default_timeout_ms PATCH (pi_patch item) ops) (\<lambda>ops.
     res_bind (add_op x route default_timeout_ms HEAD (pi_head item) ops) (\<lambda>ops.
     add_op x route default_timeout_ms OPTIONS (pi_options item) ops))))))"

fun compile_loop :: "ext \<Rightarrow> 'r router_ops \<Rightarrow> nat \<Rightarrow> (string \<times> path_item) list \<Rightarrow> 'r \<Rightarrow> ext_error + 'r" where
  "compile_loop x ro default_timeout_ms [] router = Inr router"
| "compile_loop x ro default_timeout_ms ((route, item) # paths) router =
     res_bind (openapi_path_to_matchit route) (\<lambda>matchit_path.
     res_bind (compile_item x default_timeout_ms route item) (\<lambda>ops.
       if ops = [] then compile_loop x ro default_timeout_ms paths router
       else res_bind (map_err Bail (ro_insert ro router matchit_path ops))
              (compile_loop x ro default_timeout_ms paths)))"

definition compile :: "ext \<Rightarrow> 'r router_ops \<Rightarrow> openapi_like_spec \<Rightarrow> nat \<Rightarrow> ext_error + 'r" where
  "compile x ro spec default_timeout_ms =
     compile_loop x ro default_timeout_ms (sp_paths spec) (ro_new ro)"

definition path_params_of :: "(string \<times> string) list \<Rightarrow> (string, string) hashmap" where
  "path_params_of ps = fold (\<lambda>(k, v). hm_insert k v) ps []"

definition match_request :: "'r router_ops \<Rightarrow> 'r \<Rightarrow> http_method \<Rightarrow> string \<Rightarrow> route_match" where
  "match_request ro router m path =
     (case ro_at ro router path of
        None \<Rightarrow> NotFound
      | Some (ops, params) \<Rightarrow>
          (case hm_get ops m of
             Some op \<Rightarrow> Matched op (path_params_of params)
           | None \<Rightarrow> MethodNotAllowed (sort (map fst ops))))"

subsection \<open>What the validation guarantees\<close>

definition dynamic_ok :: "nat \<Rightarrow> dynamic_wait_config \<Rightarrow> bool" where
  "dynamic_ok max_wait_ms d \<longleftrightarrow>
     dw_min_wait_ms d \<le> max_wait_ms \<and> 0 < dw_sampling_interval_ms d \<and> 0 < dw_smoothing_samples d
     \<and> (\<exists>t. dw_target_rps d = F_Fin t \<and> 0 \<le> t) \<and> (\<exists>s. dw_steepness d = F_Fin s \<and> 0 < s)"

definition op_config_ok :: "operation_config \<Rightarrow> bool" where
  "op_config_ok oc \<longleftrightarrow>
     is_lambda_function_arn (oc_target_lambda oc) \<and> 0 < oc_max_batch_size oc \<and> distinct (oc_key oc)
     \<and> (\<forall>d. oc_dynamic_wait oc = Some d \<longrightarrow> dynamic_ok (oc_max_wait_ms oc) d)"

definition route_config_ok :: "string \<Rightarrow> route_config \<Rightarrow> bool" where
  "route_config_ok route ops \<longleftrightarrow> hm_ok ops \<and>
     (\<forall>m oc. hm_get ops m = Some oc \<longrightarrow> oc_method oc = m \<and> oc_route_template oc = route \<and> op_config_ok oc)"

lemma check_dynamic_Inr_iff: "check_dynamic m route w d = Inr () \<longleftrightarrow> dynamic_ok w d"
proof -
  have fin: "(f_is_finite a \<and> \<not> f_less a (F_Fin 0)) = (\<exists>t. a = F_Fin t \<and> 0 \<le> t)" for a
    by (cases a) (auto simp: f_is_finite_def)
  have pos: "(f_is_finite a \<and> \<not> f_less a (F_Fin 0) \<and> a \<noteq> F_Fin 0) = (\<exists>t. a = F_Fin t \<and> 0 < t)" for a
    by (cases a) (auto simp: f_is_finite_def)
  show ?thesis
    unfolding check_dynamic_def dynamic_ok_def fin[symmetric] pos[symmetric] by auto
qed

text \<open>
  The reference for one key entry: ignored (the built-in dimensions), a dimension, or an error.
  A list of entries is accepted when each one is and no dimension is repeated.
\<close>

definition classify_dim :: "ext \<Rightarrow> string \<Rightarrow> batch_key_dimension option option" where
  "classify_dim x raw =
     (let entry = trim raw
      in if entry = [] then None
         else if to_ascii_lowercase entry \<in>
              {''method'', ''route'', ''lambda'', ''target_lambda'', ''target-lambda''} then Some None
         else Option.bind (split_once (CHR '':'') entry) (\<lambda>(kind, rest).
           let kind = to_ascii_lowercase (trim kind); name = trim rest
           in if name = [] then None
              else if kind = ''header''
              then map_option (Some \<circ> Header) (x_header_name x (to_ascii_lowercase name))
              else if kind = ''query'' then Some (Some (Query name)) else None))"

definition some_dims :: "'a option list \<Rightarrow> 'a list" where
  "some_dims ds = map the (filter (\<lambda>d. d \<noteq> None) ds)"

lemma some_dims_simps [simp]:
  "some_dims [] = []" "some_dims (None # ds) = some_dims ds" "some_dims (Some d # ds) = d # some_dims ds"
  by (simp_all add: some_dims_def)

definition used_names :: "batch_key_dimension list \<Rightarrow> string list \<Rightarrow> string list \<Rightarrow> bool" where
  "used_names dims hs qs \<longleftrightarrow> distinct dims \<and>
     (\<forall>h. Header h \<in> set dims \<longleftrightarrow> h \<in> set hs) \<and> (\<forall>q. Query q \<in> set dims \<longleftrightarrow> q \<in> set qs)"

text \<open>One round of the loop, by what the entry is.\<close>

lemma parse_dims_step_error:
  "classify_dim x e = None \<Longrightarrow> \<exists>err. parse_dims_loop x (e # raw) dims hs qs = Inl err"
  by (auto simp: classify_dim_def Let_def split: option.splits if_splits prod.splits bind_splits)

lemma parse_dims_step_ignored:
  "classify_dim x e = Some None \<Longrightarrow> parse_dims_loop x (e # raw) dims hs qs = parse_dims_loop x raw dims hs qs"
  by (auto simp: classify_dim_def Let_def split: option.splits if_splits prod.splits bind_splits)

lemma parse_dims_step_header:
  "classify_dim x e = Some (Some (Header h)) \<Longrightarrow>
   (h \<in> set hs \<longrightarrow> (\<exists>err. parse_dims_loop x (e # raw) dims hs qs = Inl err)) \<and>
   (h \<notin> set hs \<longrightarrow> parse_dims_loop x (e # raw) dims hs qs = parse_dims_loop x raw (dims @ [Header h]) (h # hs) qs)"
  by (auto simp: classify_dim_def Let_def split: option.splits if_splits prod.splits bind_splits)

lemma parse_dims_step_query:
  "classify_dim x e = Some (Some (Query q)) \<Longrightarrow>
   (q \<in> set qs \<longrightarrow> (\<exists>err. parse_dims_loop x (e # raw) dims hs qs = Inl err)) \<and>
   (q \<notin> set qs \<longrightarrow> parse_dims_loop x (e # raw) dims hs qs = parse_dims_loop x raw (dims @ [Query q]) hs (q # qs))"
  by (auto simp: classify_dim_def Let_def split: option.splits if_splits prod.splits bind_splits)

lemma parse_dims_step:
  assumes "classify_dim x e = Some (Some bd)" and "used_names dims hs qs"
  shows "bd \<in> set dims \<Longrightarrow> \<exists>err. parse_dims_loop x (e # raw) dims hs qs = Inl err"
    and "bd \<notin> set dims \<Longrightarrow> \<exists>hs' qs'. used_names (dims @ [bd]) hs' qs' \<and>
      parse_dims_loop x (e # raw) dims hs qs = parse_dims_loop x raw (dims @ [bd]) hs' qs'"
proof -
  show "\<exists>err. parse_dims_loop x (e # raw) dims hs qs = Inl err" if "bd \<in> set dims"
  proof (cases bd)
    case (Header h)
    with assms that have "h \<in> set hs" by (simp add: used_names_def)
    with assms(1) Header parse_dims_step_header show ?thesis by blast
  next
    case (Query q)
    with assms that have "q \<in> set qs" by (simp add: used_names_def)
    with assms(1) Query parse_dims_step_query show ?thesis by blast
  qed
  show "\<exists>hs' qs'. used_names (dims @ [bd]) hs' qs' \<and>
      parse_dims_loop x (e # raw) dims hs qs = parse_dims_loop x raw (dims @ [bd]) hs' qs'" if "bd \<notin> set dims"
  proof (cases bd)
    case (Header h)
    with assms that have "h \<notin> set hs" "used_names (dims @ [bd]) (h # hs) qs" by (auto simp: used_names_def)
    with assms(1) Header parse_dims_step_header show ?thesis by blast
  next
    case (Query q)
    with assms that have "q \<notin> set qs" "used_names (dims @ [bd]) hs (q # qs)" by (auto simp: used_names_def)
    with assms(1) Query parse_dims_step_query show ?thesis by blast
  qed
qed

lemma classified_Cons:
  "(\<exists>ds. map (classify_dim x) (e # raw) = map Some ds \<and> P ds) \<longleftrightarrow>
     (\<exists>d ds. classify_dim x e = Some d \<and> map (classify_dim x) raw = map Some ds \<and> P (d # ds))"
  by (auto simp: Cons_eq_map_conv)

lemma parse_dims_loop_iff:
  "used_names dims hs qs \<Longrightarrow>
   parse_dims_loop x raw dims hs qs = Inr out \<longleftrightarrow>
   (\<exists>ds. map (classify_dim x) raw = map Some ds \<and> out = dims @ some_dims ds \<and> distinct out)"
proof (induction raw arbitrary: dims hs qs)
  case Nil
  then show ?case by (auto simp: used_names_def)
next
  case (Cons e raw)
  consider (bad) "classify_dim x e = None" | (ignored) "classify_dim x e = Some None"
    | (kept) bd where "classify_dim x e = Some (Some bd)" by (metis option.exhaust)
  then show ?case
  proof cases
    case bad
    then show ?thesis using parse_dims_step_error[OF bad, of raw dims hs qs] by auto
  next
    case ignored
    with Cons show ?thesis unfolding classified_Cons by (simp add: parse_dims_step_ignored del: parse_dims_loop.simps)
  next
    case kept
    show ?thesis
    proof (cases "bd \<in> set dims")
      case True
      with parse_dims_step(1)[OF kept Cons.prems, of raw] kept show ?thesis
        unfolding classified_Cons by (auto simp del: parse_dims_loop.simps)
    next
      case False
      with parse_dims_step(2)[OF kept Cons.prems, of raw] obtain hs' qs' where "used_names (dims @ [bd]) hs' qs'"
        "parse_dims_loop x (e # raw) dims hs qs = parse_dims_loop x raw (dims @ [bd]) hs' qs'" by blast
      with Cons.IH kept show ?thesis unfolding classified_Cons by simp
    qed
  qed
qed

lemma parse_batch_key_dimensions_iff:
  "parse_batch_key_dimensions x raw = Inr dims \<longleftrightarrow>
   (\<exists>ds. map (classify_dim x) raw = map Some ds \<and> dims = some_dims ds \<and> distinct dims)"
  using parse_dims_loop_iff[of "[]" "[]" "[]" x raw dims]
  by (simp add: parse_batch_key_dimensions_def used_names_def)

lemma parse_batch_key_dimensions_distinct:
  "parse_batch_key_dimensions x raw = Inr dims \<Longrightarrow> distinct dims"
  by (auto simp: parse_batch_key_dimensions_iff)

subsection \<open>Path templates: the loop against a grammar\<close>

inductive template :: "string \<Rightarrow> bool" where
  template_nil: "template []"
| template_lit: "c \<noteq> CHR ''{'' \<Longrightarrow> c \<noteq> CHR ''}'' \<Longrightarrow> template s \<Longrightarrow> template (c # s)"
| template_param: "n \<noteq> [] \<Longrightarrow> CHR ''{'' \<notin> set n \<Longrightarrow> CHR ''}'' \<notin> set n \<Longrightarrow> template s \<Longrightarrow>
    template (CHR ''{'' # n @ CHR ''}'' # s)"

inductive_simps template_Nil_iff [simp]: "template []"
inductive_cases template_ConsE: "template (c # s)"

definition template_rest :: "string \<Rightarrow> string \<Rightarrow> bool" where
  "template_rest name s \<longleftrightarrow> (\<exists>n t. s = n @ CHR ''}'' # t \<and> name @ n \<noteq> []
      \<and> CHR ''{'' \<notin> set n \<and> CHR ''}'' \<notin> set n \<and> template t)"

lemma template_rest_Nil [simp]: "\<not> template_rest name []"
  by (simp add: template_rest_def)

lemma template_rest_close: "template_rest name (CHR ''}'' # s) \<longleftrightarrow> name \<noteq> [] \<and> template s"
proof
  assume "name \<noteq> [] \<and> template s"
  then have "CHR ''}'' # s = [] @ CHR ''}'' # s" "name @ [] \<noteq> []" "template s" by simp_all
  then show "template_rest name (CHR ''}'' # s)"
    unfolding template_rest_def by (metis empty_iff list.set(1))
qed (auto simp: template_rest_def Cons_eq_append_conv)

lemma template_rest_open: "\<not> template_rest name (CHR ''{'' # s)"
  by (auto simp: template_rest_def Cons_eq_append_conv)

lemma template_rest_lit:
  assumes "c \<noteq> CHR ''{''" and "c \<noteq> CHR ''}''"
  shows "template_rest name (c # s) \<longleftrightarrow> template_rest (name @ [c]) s"
proof
  assume "template_rest name (c # s)"
  with assms show "template_rest (name @ [c]) s"
    by (fastforce simp: template_rest_def Cons_eq_append_conv)
next
  assume "template_rest (name @ [c]) s"
  then obtain n t where "s = n @ CHR ''}'' # t" "CHR ''{'' \<notin> set n" "CHR ''}'' \<notin> set n" "template t"
    by (auto simp: template_rest_def)
  with assms have "c # s = (c # n) @ CHR ''}'' # t" "name @ (c # n) \<noteq> []"
    "CHR ''{'' \<notin> set (c # n)" "CHR ''}'' \<notin> set (c # n)" "template t"
    by auto
  then show "template_rest name (c # s)" unfolding template_rest_def by blast
qed

lemma template_open_iff: "template (CHR ''{'' # s) \<longleftrightarrow> template_rest [] s"
proof
  assume "template (CHR ''{'' # s)"
  then show "template_rest [] s"
    by (rule template_ConsE) (auto simp: template_rest_def)
next
  assume "template_rest [] s"
  then show "template (CHR ''{'' # s)"
    by (auto simp: template_rest_def intro: template.template_param)
qed

lemma template_close_iff: "\<not> template (CHR ''}'' # s)"
  by (auto elim: template_ConsE)

lemma template_lit_iff: "c \<noteq> CHR ''{'' \<Longrightarrow> c \<noteq> CHR ''}'' \<Longrightarrow> template (c # s) \<longleftrightarrow> template s"
  by (auto elim: template_ConsE intro: template.template_lit)

lemmas template_iffs = template_rest_close template_rest_open template_rest_lit
  template_open_iff template_close_iff template_lit_iff

lemma template_loop_iff:
  "(template_loop path s False name = Inr False \<longleftrightarrow> template s) \<and>
   (template_loop path s True name = Inr False \<longleftrightarrow> template_rest name s)"
proof (induction s arbitrary: name)
  case Nil
  then show ?case by simp
next
  case (Cons c s)
  consider "c = CHR ''{''" | "c = CHR ''}''" | "c \<noteq> CHR ''{''" "c \<noteq> CHR ''}''" by blast
  then show ?case
  proof cases
    case 1
    with Cons.IH[of "[]"] show ?thesis by (simp add: template_iffs)
  next
    case 2
    with Cons.IH[of name] show ?thesis by (simp add: template_iffs)
  next
    case 3
    with Cons.IH[of name] Cons.IH[of "name @ [c]"] show ?thesis by (simp add: template_iffs)
  qed
qed

text \<open>
  Property C34: a path template is accepted exactly when it starts with a slash and is a sequence
  of literal characters and non-empty, brace-free parameters in braces; it is passed on unchanged.
\<close>

theorem openapi_path_to_matchit_iff:
  "openapi_path_to_matchit path = Inr p \<longleftrightarrow> p = path \<and> starts_with ''/'' path \<and> template path"
proof (cases "template_loop path path False []")
  case (Inl e)
  with template_loop_iff[of path path "[]"] show ?thesis
    by (auto simp: openapi_path_to_matchit_def)
next
  case (Inr b)
  with template_loop_iff[of path path "[]"] show ?thesis
    by (cases b) (auto simp: openapi_path_to_matchit_def)
qed

subsection \<open>Lambda ARNs\<close>

lemma starts_with_iff: "starts_with p s \<longleftrightarrow> (\<exists>t. s = p @ t)"
  by (auto simp: starts_with_def) (metis append_take_drop_id)

lemma starts_with_split:
  assumes "c \<notin> set w"
  shows "starts_with (w @ [c]) s \<longleftrightarrow> (\<exists>ps. ps \<noteq> [] \<and> split_on c s = w # ps)"
proof
  assume "starts_with (w @ [c]) s"
  with assms show "\<exists>ps. ps \<noteq> [] \<and> split_on c s = w # ps"
    by (auto simp: starts_with_iff split_on_prefix)
next
  assume "\<exists>ps. ps \<noteq> [] \<and> split_on c s = w # ps"
  then show "starts_with (w @ [c]) s"
    by (auto simp: starts_with_iff dest: split_on_head)
qed

text \<open>
  A target is taken for a Lambda function ARN exactly when, trimmed, its
  colon-separated fields are \<^verbatim>\<open>arn\<close>, a partition, \<^verbatim>\<open>lambda\<close>, a region, an account,
  \<^verbatim>\<open>function\<close> and a non-empty name, with anything after that.
\<close>

theorem is_lambda_function_arn_iff:
  "is_lambda_function_arn v \<longleftrightarrow>
   (\<exists>p r a f rest. f \<noteq> [] \<and>
      split_on (CHR '':'') (trim v) = [''arn'', p, ''lambda'', r, a, ''function'', f] @ rest)"
proof -
  let ?ps = "split_on (CHR '':'') (trim v)"
  have sw: "starts_with ''arn:'' (trim v) \<longleftrightarrow> (\<exists>ps. ps \<noteq> [] \<and> ?ps = ''arn'' # ps)"
    using starts_with_split[of "CHR '':''" "''arn''" "trim v"] by simp
  have len: "7 \<le> length xs \<longleftrightarrow> (\<exists>a b c d e f g rest. xs = [a, b, c, d, e, f, g] @ rest)" for xs :: "string list"
    by (auto simp: eval_nat_numeral Suc_le_length_iff)
  show ?thesis
  proof
    assume "is_lambda_function_arn v"
    then have *: "starts_with ''arn:'' (trim v)" "7 \<le> length ?ps" "?ps ! 2 = ''lambda''"
      "?ps ! 5 = ''function''" "?ps ! 6 \<noteq> []"
      by (auto simp: is_lambda_function_arn_def Let_def split: if_splits)
    then show "\<exists>p r a f rest. f \<noteq> [] \<and> ?ps = [''arn'', p, ''lambda'', r, a, ''function'', f] @ rest"
      unfolding len sw by auto
  next
    assume "\<exists>p r a f rest. f \<noteq> [] \<and> ?ps = [''arn'', p, ''lambda'', r, a, ''function'', f] @ rest"
    then show "is_lambda_function_arn v"
      unfolding is_lambda_function_arn_def Let_def sw by auto
  qed
qed

subsection \<open>Compiled routes\<close>

lemma add_op_Inr:
  assumes "add_op x route t m op_opt ops = Inr ops'"
  shows "ops' = ops \<and> op_opt = None \<or>
    (\<exists>oc. ops' = hm_insert m oc ops \<and> oc_method oc = m \<and> oc_route_template oc = route \<and> op_config_ok oc)"
proof (cases op_opt)
  case None
  with assms show ?thesis by (simp add: add_op_def)
next
  case (Some op)
  let ?smug = "op_smug op"
  from assms Some obtain key where arn: "is_lambda_function_arn (op_target_lambda op)"
    and size: "so_max_batch_size ?smug \<noteq> 0"
    and key: "parse_batch_key_dimensions x (so_key ?smug) = Inr key"
    and dyn: "(case so_dynamic_wait ?smug of None \<Rightarrow> Inr () | Some d \<Rightarrow>
                check_dynamic m route (so_max_wait_ms ?smug) d) = Inr ()"
    and ops': "ops' = hm_insert m
       \<lparr>oc_route_template = route, oc_method = m, oc_operation_id = op_operation_id op,
        oc_target_lambda = op_target_lambda op, oc_max_wait_ms = so_max_wait_ms ?smug,
        oc_max_batch_size = so_max_batch_size ?smug, oc_key = key,
        oc_timeout_ms = (case so_timeout_ms ?smug of None \<Rightarrow> t | Some t \<Rightarrow> t),
        oc_invoke_mode = so_invoke_mode ?smug, oc_dynamic_wait = so_dynamic_wait ?smug\<rparr> ops"
    by (auto simp: add_op_def Let_def res_simps split: if_splits)
  from dyn have "\<forall>d. so_dynamic_wait ?smug = Some d \<longrightarrow> dynamic_ok (so_max_wait_ms ?smug) d"
    by (auto simp: check_dynamic_Inr_iff)
  with arn size parse_batch_key_dimensions_distinct[OF key] ops' show ?thesis
    by (auto simp: op_config_ok_def)
qed

lemma add_op_route_config_ok:
  assumes "add_op x route t m op_opt ops = Inr ops'" and "route_config_ok route ops"
  shows "route_config_ok route ops'"
  using add_op_Inr[OF assms(1)] assms(2)
  by (auto simp: route_config_ok_def split: if_splits)

lemma compile_item_ok:
  assumes "compile_item x t route item = Inr ops"
  shows "route_config_ok route ops"
proof -
  have base: "route_config_ok route []" by (simp add: route_config_ok_def)
  from assms obtain o1 o2 o3 o4 o5 o6 where
    1: "add_op x route t GET (pi_get item) [] = Inr o1" and
    2: "add_op x route t POST (pi_post item) o1 = Inr o2" and
    3: "add_op x route t PUT (pi_put item) o2 = Inr o3" and
    4: "add_op x route t DELETE (pi_delete item) o3 = Inr o4" and
    5: "add_op x route t PATCH (pi_patch item) o4 = Inr o5" and
    6: "add_op x route t HEAD (pi_head item) o5 = Inr o6" and
    7: "add_op x route t OPTIONS (pi_options item) o6 = Inr ops"
    unfolding compile_item_def res_bind_Inr_iff by blast
  note ok = add_op_route_config_ok
  show ?thesis by (rule ok[OF 7 ok[OF 6 ok[OF 5 ok[OF 4 ok[OF 3 ok[OF 2 ok[OF 1 base]]]]]]])
qed

text \<open>
  What the gateway needs of the path router: an empty router matches nothing, and after an
  insertion a lookup returns the inserted value or a value that was already stored.
\<close>

definition router_sound :: "'r router_ops \<Rightarrow> bool" where
  "router_sound ro \<longleftrightarrow>
     (\<forall>p. ro_at ro (ro_new ro) p = None) \<and>
     (\<forall>r t v r' p w ps. ro_insert ro r t v = Inr r' \<longrightarrow> ro_at ro r' p = Some (w, ps) \<longrightarrow>
        w = v \<or> (\<exists>q qs. ro_at ro r q = Some (w, qs)))"

lemma compile_loop_values:
  assumes "compile_loop x ro t paths r = Inr r'" and "router_sound ro"
    and "ro_at ro r' p = Some (ops, ps)"
  shows "(\<exists>q qs. ro_at ro r q = Some (ops, qs)) \<or>
    (\<exists>route item. (route, item) \<in> set paths \<and> compile_item x t route item = Inr ops \<and> ops \<noteq> []
        \<and> starts_with ''/'' route \<and> template route)"
  using assms
proof (induction x ro t paths r rule: compile_loop.induct)
  case (1 x ro t router)
  then show ?case by auto
next
  case (2 x ro t route item paths router)
  from "2.prems"(1) obtain mp ops0 where mp: "openapi_path_to_matchit route = Inr mp"
    and ops0: "compile_item x t route item = Inr ops0"
    and rest: "(if ops0 = [] then compile_loop x ro t paths router
       else res_bind (map_err Bail (ro_insert ro router mp ops0)) (compile_loop x ro t paths)) = Inr r'"
    by (auto simp: res_simps)
  note path_ok = openapi_path_to_matchit_iff[THEN iffD1, OF mp]
  show ?case
  proof (cases "ops0 = []")
    case True
    with rest have "compile_loop x ro t paths router = Inr r'" by simp
    from "2.IH"(1)[OF True this "2.prems"(2,3)] show ?thesis by auto
  next
    case False
    with rest obtain r1 where r1: "ro_insert ro router mp ops0 = Inr r1"
      "compile_loop x ro t paths r1 = Inr r'" by (auto simp: res_simps)
    from "2.IH"(2)[OF False r1(2) "2.prems"(2,3)]
    consider q qs where "ro_at ro r1 q = Some (ops, qs)"
      | route' item' where "(route', item') \<in> set paths" "compile_item x t route' item' = Inr ops" "ops \<noteq> []"
        "starts_with ''/'' route'" "template route'"
      by blast
    then show ?thesis
    proof cases
      case 1
      with "2.prems"(2) r1(1) have "ops = ops0 \<or> (\<exists>q qs. ro_at ro router q = Some (ops, qs))"
        unfolding router_sound_def by blast
      with ops0 False path_ok show ?thesis by auto
    next
      case 2
      then show ?thesis by auto
    qed
  qed
qed

lemma compiled_match:
  assumes "compile x ro spec t = Inr r" and "router_sound ro"
    and "match_request ro r m path = Matched oc params"
  shows "op_config_ok oc \<and> oc_method oc = m \<and> oc_route_template oc \<in> fst ` set (sp_paths spec)
    \<and> starts_with ''/'' (oc_route_template oc) \<and> template (oc_route_template oc)"
proof -
  from assms(3) obtain ops ps where at: "ro_at ro r path = Some (ops, ps)" and oc: "hm_get ops m = Some oc"
    by (auto simp: match_request_def split: option.splits)
  from assms(1) have "compile_loop x ro t (sp_paths spec) (ro_new ro) = Inr r"
    by (simp add: compile_def)
  note vals = compile_loop_values[OF this assms(2) at]
  have "ro_at ro (ro_new ro) q = None" for q using assms(2) by (simp add: router_sound_def)
  with vals obtain route item where
    "(route, item) \<in> set (sp_paths spec)" "compile_item x t route item = Inr ops"
    "starts_with ''/'' route" "template route"
    by auto
  with compile_item_ok[of x t route item ops] oc show ?thesis
    by (force simp: route_config_ok_def)
qed

text \<open>
  Property C24: whatever operation a compiled spec matches a request to has been validated: its
  target is a Lambda ARN, its batch size is positive, its key dimensions are distinct, its
  dynamic wait settings are in range, it is stored under the request's method, and its route is a
  well-formed template of the spec. (\<open>router_sound\<close> is what the path router promises.)
\<close>

theorem compile_match_validated:
  assumes "compile x ro spec t = Inr r" and "router_sound ro"
    and "match_request ro r m path = Matched oc params"
  shows "op_config_ok oc \<and> oc_method oc = m \<and> oc_route_template oc \<in> fst ` set (sp_paths spec)
    \<and> starts_with ''/'' (oc_route_template oc) \<and> template (oc_route_template oc)"
  by (rule compiled_match[OF assms])

text \<open>A concrete router with exact matching, and a spec with one operation.\<close>

definition exact_router :: "(string \<times> route_config) list router_ops" where
  "exact_router = \<lparr>ro_new = [],
     ro_insert = (\<lambda>r t v. if map_of r t = None then Inr ((t, v) # r) else Inl ''conflict''),
     ro_at = (\<lambda>r p. map_option (\<lambda>v. (v, [])) (map_of r p))\<rparr>"

lemma router_sound_exact: "router_sound exact_router"
  by (auto simp: router_sound_def exact_router_def split: if_splits)

definition sample_operation :: operation where
  "sample_operation = \<lparr>op_operation_id = None, op_target_lambda = ''arn:aws:lambda:r:1:function:f'',
     op_smug = \<lparr>so_max_wait_ms = 25, so_max_batch_size = 4, so_key = [''header:x-tenant-id''],
       so_timeout_ms = None, so_invoke_mode = Buffered, so_dynamic_wait = None\<rparr>\<rparr>"

definition sample_spec :: openapi_like_spec where
  "sample_spec = \<lparr>sp_paths = [(''/hello'', \<lparr>pi_get = Some sample_operation, pi_post = None,
     pi_put = None, pi_delete = None, pi_patch = None, pi_head = None, pi_options = None\<rparr>)]\<rparr>"

definition sample_config :: operation_config where
  "sample_config = \<lparr>oc_route_template = ''/hello'', oc_method = GET, oc_operation_id = None,
     oc_target_lambda = ''arn:aws:lambda:r:1:function:f'', oc_max_wait_ms = 25, oc_max_batch_size = 4,
     oc_key = [Header ''x-tenant-id''], oc_timeout_ms = 2000, oc_invoke_mode = Buffered,
     oc_dynamic_wait = None\<rparr>"

lemma compile_sample:
  "compile plain_ext exact_router sample_spec 2000 = Inr [(''/hello'', [(GET, sample_config)])]"
  by code_simp

lemma match_sample:
  "match_request exact_router [(''/hello'', [(GET, sample_config)])] GET ''/hello'' = Matched sample_config []"
  by code_simp

theorem compile_match_validated_witness:
  "op_config_ok sample_config \<and> oc_route_template sample_config \<in> fst ` set (sp_paths sample_spec)"
  using compile_match_validated[OF compile_sample router_sound_exact match_sample] by blast

text \<open>
  A request for a known path with an unconfigured method is answered with the sorted
  list of exactly the methods that are configured, each once; a configured one is matched.
\<close>

theorem match_request_methods:
  assumes "ro_at ro r path = Some (ops, ps)" and "hm_ok ops"
  shows "if m \<in> fst ` set ops
    then \<exists>oc. (m, oc) \<in> set ops \<and> match_request ro r m path = Matched oc (path_params_of ps)
    else \<exists>ms. match_request ro r m path = MethodNotAllowed ms \<and> sorted ms \<and> distinct ms \<and> set ms = fst ` set ops"
proof (cases "hm_get ops m")
  case None
  with assms(1) have "match_request ro r m path = MethodNotAllowed (sort (map fst ops))"
    by (simp add: match_request_def)
  moreover from None have "m \<notin> fst ` set ops" by (simp add: hm_get_None_iff)
  moreover from assms(2) have "sorted (sort (map fst ops))" "distinct (sort (map fst ops))"
    "set (sort (map fst ops)) = fst ` set ops"
    by (simp_all add: hm_ok_def)
  ultimately show ?thesis by (simp only: if_False) blast
next
  case (Some oc)
  then have "(m, oc) \<in> set ops" by (rule map_of_SomeD)
  with Some assms show ?thesis by (force simp: match_request_def)
qed

theorem match_request_methods_witness:
  "\<exists>ms. match_request exact_router [(''/hello'', [(GET, sample_config)])] POST ''/hello'' = MethodNotAllowed ms
     \<and> sorted ms \<and> distinct ms \<and> set ms = {GET}"
  using match_request_methods[of exact_router "[(''/hello'', [(GET, sample_config)])]" "''/hello''"
      "[(GET, sample_config)]" "[]" POST]
  by (simp add: exact_router_def hm_ok_def)

end
