(* ===== verification/Gw_Plan.thy ===== *)
theory Gw_Plan
  imports Gw_Channels Gw_Spec "HOL-Library.Word"
begin

text \<open>
  Batch keys, batch items and the splitting of a batch into Lambda invocations
  (\<^verbatim>\<open>gateway/src/batching.rs\<close>: \<^verbatim>\<open>BatchKey\<close>, \<^verbatim>\<open>BatchItem\<close>, \<^verbatim>\<open>build_payload_bytes\<close>,
  \<^verbatim>\<open>split_pending\<close>, \<^verbatim>\<open>plan_invocations\<close>).
\<close>

subsection \<open>Requests and batch keys\<close>

record pending_request =
  pr_id :: string
  pr_method :: http_method
  pr_path :: string
  pr_route :: string
  pr_path_params :: "(string, string) hashmap"
  pr_headers :: "(string, string) hashmap"
  pr_query :: "(string, string) hashmap"
  pr_raw_query_string :: string
  pr_body :: bytes
  pr_respond_to :: response_sink

record batch_key =
  bk_target_lambda :: string
  bk_method :: http_method
  bk_route :: string
  bk_invoke_mode :: invoke_mode
  bk_key_values :: "string option list"

definition batch_key_of :: "operation_config \<Rightarrow> pending_request \<Rightarrow> batch_key" where
  "batch_key_of op req =
     \<lparr>bk_target_lambda = oc_target_lambda op, bk_method = oc_method op, bk_route = oc_route_template op,
      bk_invoke_mode = oc_invoke_mode op,
      bk_key_values = map (\<lambda>dim. case dim of
          Header name \<Rightarrow> hm_get (pr_headers req) name
        | Query name \<Rightarrow> hm_get (pr_query req) name) (oc_key op)\<rparr>"

subsection \<open>Batch items and their JSON\<close>

record http_description =
  hd_method :: string
  hd_path :: string
  hd_protocol :: string
  hd_source_ip :: "string option"
  hd_user_agent :: "string option"

record request_context =
  rc_account_id :: "string option"
  rc_api_id :: "string option"
  rc_domain_name :: "string option"
  rc_domain_prefix :: "string option"
  rc_route_key :: string
  rc_stage :: string
  rc_request_id :: string
  rc_time :: "string option"
  rc_time_epoch :: int
  rc_http :: http_description

record batch_item =
  bi_id :: string
  bi_version :: string
  bi_route_key :: string
  bi_raw_path :: string
  bi_raw_query_string :: string
  bi_cookies :: "string list option"
  bi_headers :: "(string, string) hashmap"
  bi_query_string_parameters :: "(string, string) hashmap"
  bi_path_parameters :: "(string, string) hashmap"
  bi_request_context :: request_context
  bi_stage_variables :: "(string, string) hashmap"
  bi_body :: "string option"
  bi_is_base64_encoded :: bool

definition enc_http_description :: "http_description \<Rightarrow> json" where
  "enc_http_description h = JObj
     ([(''method'', JStr (hd_method h)), (''path'', JStr (hd_path h)), (''protocol'', JStr (hd_protocol h))]
      @ opt_field ''sourceIp'' JStr (hd_source_ip h)
      @ opt_field ''userAgent'' JStr (hd_user_agent h))"

definition enc_request_context :: "request_context \<Rightarrow> json" where
  "enc_request_context c = JObj
     (opt_field ''accountId'' JStr (rc_account_id c)
      @ opt_field ''apiId'' JStr (rc_api_id c)
      @ opt_field ''domainName'' JStr (rc_domain_name c)
      @ opt_field ''domainPrefix'' JStr (rc_domain_prefix c)
      @ [(''routeKey'', JStr (rc_route_key c)), (''stage'', JStr (rc_stage c)),
         (''requestId'', JStr (rc_request_id c))]
      @ opt_field ''time'' JStr (rc_time c)
      @ [(''timeEpoch'', JInt (rc_time_epoch c)), (''http'', enc_http_description (rc_http c))])"

text \<open>\<^verbatim>\<open>id\<close> itself is not serialized; it travels as \<^verbatim>\<open>requestContext.requestId\<close>.\<close>

definition enc_batch_item :: "batch_item \<Rightarrow> json" where
  "enc_batch_item b = JObj
     ([(''version'', JStr (bi_version b)), (''routeKey'', JStr (bi_route_key b)),
       (''rawPath'', JStr (bi_raw_path b)), (''rawQueryString'', JStr (bi_raw_query_string b))]
      @ opt_field ''cookies'' enc_str_list (bi_cookies b)
      @ [(''headers'', enc_str_map (bi_headers b))]
      @ map_field ''queryStringParameters'' (bi_query_string_parameters b)
      @ map_field ''pathParameters'' (bi_path_parameters b)
      @ [(''requestContext'', enc_request_context (bi_request_context b))]
      @ map_field ''stageVariables'' (bi_stage_variables b)
      @ opt_field ''body'' JStr (bi_body b)
      @ [(''isBase64Encoded'', JBool (bi_is_base64_encoded b))])"

definition batch_event :: "batch_key \<Rightarrow> 64 word \<Rightarrow> batch_item list \<Rightarrow> json" where
  "batch_event key received_at_ms items = JObj
     [(''v'', JInt 1),
      (''meta'', JObj [(''gateway'', JStr ''simple-multiplexer-gateway''), (''route'', JStr (bk_route key)),
                       (''receivedAtMs'', JInt (uint received_at_ms))]),
      (''batch'', JArr (map enc_batch_item items))]"

definition build_payload_bytes :: "ext \<Rightarrow> batch_key \<Rightarrow> 64 word \<Rightarrow> batch_item list \<Rightarrow> ext_error + bytes" where
  "build_payload_bytes x key received_at_ms items = to_vec x (batch_event key received_at_ms items)"

text \<open>The item of a request, as the flush loop builds it.\<close>

definition batch_item_of :: "ext \<Rightarrow> 64 word \<Rightarrow> pending_request \<Rightarrow> batch_item" where
  "batch_item_of x received_at_ms req =
     (let route_key = method_str (pr_method req) @ '' '' @ pr_route req;
          source_ip = extract_source_ip (pr_headers req);
          user_agent = hm_get (pr_headers req) ''user-agent'';
          cookies = parse_cookie_header (pr_headers req);
          body_b64 = encode_body x (pr_body req)
      in \<lparr>bi_id = pr_id req, bi_version = ''2.0'', bi_route_key = route_key, bi_raw_path = pr_path req,
          bi_raw_query_string = pr_raw_query_string req, bi_cookies = cookies,
          bi_headers = pr_headers req, bi_query_string_parameters = pr_query req,
          bi_path_parameters = pr_path_params req,
          bi_request_context =
            \<lparr>rc_account_id = None, rc_api_id = None, rc_domain_name = None, rc_domain_prefix = None,
             rc_route_key = route_key, rc_stage = ''$default'', rc_request_id = pr_id req,
             rc_time = None, rc_time_epoch = sint received_at_ms,
             rc_http = \<lparr>hd_method = method_str (pr_method req), hd_path = pr_path req,
               hd_protocol = ''HTTP/1.1'', hd_source_ip = source_ip, hd_user_agent = user_agent\<rparr>\<rparr>,
          bi_stage_variables = [], bi_body = fst body_b64, bi_is_base64_encoded = snd body_b64\<rparr>)"

subsection \<open>Splitting a batch into invocations\<close>

datatype 't invocation_plan =
    Invoke (plan_pending: "(string, 't) hashmap") bytes
  | Fail (plan_pending: "(string, 't) hashmap") nat string

fun split_pending_loop :: "batch_item list \<Rightarrow> (string, 't) hashmap \<Rightarrow> (string, 't) hashmap \<Rightarrow>
    (string, 't) hashmap \<times> (string, 't) hashmap" where
  "split_pending_loop [] pending left = (left, pending)"
| "split_pending_loop (item # items) pending left =
     (case hm_get pending (bi_id item) of
        None \<Rightarrow> split_pending_loop items pending left
      | Some tx \<Rightarrow> split_pending_loop items (hm_delete (bi_id item) pending) (hm_insert (bi_id item) tx left))"

definition split_pending :: "(string, 't) hashmap \<Rightarrow> batch_item list \<Rightarrow>
    (string, 't) hashmap \<times> (string, 't) hashmap" where
  "split_pending pending left_items = split_pending_loop left_items pending []"

function plan_invocations :: "ext \<Rightarrow> batch_key \<Rightarrow> 64 word \<Rightarrow> nat \<Rightarrow> (string, 't) hashmap \<Rightarrow>
    batch_item list \<Rightarrow> 't invocation_plan list" where
  "plan_invocations x key received_at_ms max_bytes pending batch_items =
     (case build_payload_bytes x key received_at_ms batch_items of
        Inl err \<Rightarrow> [Fail pending 500 (''encode: '' @ show_err x err)]
      | Inr payload \<Rightarrow>
          if length payload \<le> max_bytes then [Invoke pending payload]
          else if length batch_items \<le> 1 then [Fail pending 502 ''invoke payload too large'']
          else
            let mid = length batch_items div 2;
                left_items = take mid batch_items; right_items = drop mid batch_items;
                pendings = split_pending pending left_items
            in plan_invocations x key received_at_ms max_bytes (fst pendings) left_items
               @ plan_invocations x key received_at_ms max_bytes (snd pendings) right_items)"
  by pat_completeness auto
termination
  by (relation "measure (\<lambda>(x, key, t, mx, pending, items). length items)") auto

declare plan_invocations.simps [simp del]

subsection \<open>Splitting the pending table\<close>

lemma split_pending_loop_values:
  assumes "hm_ok pending" and "\<And>i. i \<in> fst ` set left \<Longrightarrow> i \<notin> fst ` set pending"
  shows "hm_values (fst (split_pending_loop items pending left))
       + hm_values (snd (split_pending_loop items pending left)) = hm_values left + hm_values pending"
  using assms
proof (induction items pending left rule: split_pending_loop.induct)
  case (1 pending left)
  then show ?case by simp
next
  case (2 item items pending left)
  show ?case
  proof (cases "hm_get pending (bi_id item)")
    case None
    with 2 show ?thesis by simp
  next
    case (Some tx)
    then have "bi_id item \<in> fst ` set pending" by (force dest: map_of_SomeD)
    with "2.prems"(2) have fresh: "hm_get left (bi_id item) = None"
      unfolding hm_get_None_iff by blast
    from "2.prems" have "\<And>i. i \<in> fst ` set (hm_insert (bi_id item) tx left)
        \<Longrightarrow> i \<notin> fst ` set (hm_delete (bi_id item) pending)" by auto
    from "2.IH"(2)[OF Some hm_ok_delete[OF "2.prems"(1)] this] Some
      hm_values_delete[OF "2.prems"(1) Some] hm_values_insert_fresh[OF fresh, of tx]
    show ?thesis by simp
  qed
qed

lemma split_pending_loop_ok:
  "hm_ok pending \<Longrightarrow> hm_ok left \<Longrightarrow>
   hm_ok (fst (split_pending_loop items pending left)) \<and> hm_ok (snd (split_pending_loop items pending left))"
  by (induction items pending left rule: split_pending_loop.induct) (auto split: option.splits)

lemma split_pending_loop_get:
  "hm_get (fst (split_pending_loop items pending left)) i =
     (if i \<in> bi_id ` set items \<and> hm_get pending i \<noteq> None then hm_get pending i else hm_get left i) \<and>
   hm_get (snd (split_pending_loop items pending left)) i =
     (if i \<in> bi_id ` set items then None else hm_get pending i)"
  by (induction items pending left rule: split_pending_loop.induct) (auto split: option.splits)

lemma split_pending_values:
  "hm_ok pending \<Longrightarrow> hm_values pending =
     hm_values (fst (split_pending pending items)) + hm_values (snd (split_pending pending items))"
  using split_pending_loop_values[of pending "[]" items] by (simp add: split_pending_def)

lemma split_pending_ok:
  "hm_ok pending \<Longrightarrow> hm_ok (fst (split_pending pending items)) \<and> hm_ok (snd (split_pending pending items))"
  using split_pending_loop_ok[of pending "[]" items] by (simp add: split_pending_def)

lemma split_pending_get:
  "hm_get (fst (split_pending pending items)) i = (if i \<in> bi_id ` set items then hm_get pending i else None)"
  "hm_get (snd (split_pending pending items)) i = (if i \<in> bi_id ` set items then None else hm_get pending i)"
  using split_pending_loop_get[of items pending "[]" i] by (auto simp: split_pending_def)

subsection \<open>What a plan is\<close>

text \<open>
  A plan covers a segment of the batch: its table is the part of the pending table that belongs
  to the segment, and it either carries the payload of exactly that segment, within the limit, or
  says why there is none: it cannot be encoded, or it is one item that is too large alone.
\<close>

definition covers :: "ext \<Rightarrow> batch_key \<Rightarrow> 64 word \<Rightarrow> nat \<Rightarrow> (string, 't) hashmap \<Rightarrow>
    batch_item list \<Rightarrow> 't invocation_plan \<Rightarrow> bool" where
  "covers x key t max_bytes pending seg plan \<longleftrightarrow>
     hm_ok (plan_pending plan) \<and>
     (\<forall>i. hm_get (plan_pending plan) i = (if i \<in> bi_id ` set seg then hm_get pending i else None)) \<and>
     (case plan of
        Invoke p payload \<Rightarrow> build_payload_bytes x key t seg = Inr payload \<and> length payload \<le> max_bytes
      | Fail p status msg \<Rightarrow>
          (\<exists>e. build_payload_bytes x key t seg = Inl e \<and> status = 500 \<and> msg = ''encode: '' @ show_err x e) \<or>
          (\<exists>payload. build_payload_bytes x key t seg = Inr payload \<and> max_bytes < length payload
             \<and> length seg \<le> 1 \<and> status = 502 \<and> msg = ''invoke payload too large''))"

lemma covers_mono:
  assumes "covers x key t mx p seg plan"
    and "\<And>i. i \<in> bi_id ` set seg \<Longrightarrow> hm_get p i = hm_get q i"
  shows "covers x key t mx q seg plan"
  using assms by (simp add: covers_def)

lemma split_pending_keys:
  assumes "fst ` set pending \<subseteq> bi_id ` set (l @ r)"
  shows "fst ` set (fst (split_pending pending l)) \<subseteq> bi_id ` set l" "fst ` set (snd (split_pending pending l)) \<subseteq> bi_id ` set r"
proof -
  have dom: "i \<in> fst ` set m \<longleftrightarrow> hm_get m i \<noteq> None" for i and m :: "(string, 'a) hashmap"
    by (simp add: hm_get_None_iff)
  show "fst ` set (fst (split_pending pending l)) \<subseteq> bi_id ` set l"
    unfolding subset_iff dom by (metis split_pending_get(1))
  show "fst ` set (snd (split_pending pending l)) \<subseteq> bi_id ` set r"
  proof
    fix i assume "i \<in> fst ` set (snd (split_pending pending l))"
    then have "hm_get (snd (split_pending pending l)) i \<noteq> None" unfolding dom .
    then have "hm_get pending i \<noteq> None" "i \<notin> bi_id ` set l" by (metis split_pending_get(2))+
    with assms show "i \<in> bi_id ` set r" unfolding dom[symmetric] by auto
  qed
qed

lemma covers_left:
  assumes "list_all2 (covers x key t mx (fst (split_pending pending l))) ls plans" and "concat ls = l"
  shows "list_all2 (covers x key t mx pending) ls plans"
proof (rule list.rel_mono_strong[OF assms(1)])
  fix seg plan assume seg: "seg \<in> set ls" and c: "covers x key t mx (fst (split_pending pending l)) seg plan"
  have "bi_id ` set seg \<subseteq> bi_id ` set l" using seg unfolding assms(2)[symmetric] by auto
  then have "hm_get (fst (split_pending pending l)) i = hm_get pending i" if "i \<in> bi_id ` set seg" for i
    using that by (subst split_pending_get(1)) auto
  then show "covers x key t mx pending seg plan" by (rule covers_mono[OF c])
qed

lemma covers_right:
  assumes "list_all2 (covers x key t mx (snd (split_pending pending l))) rs plans" and "concat rs = r"
    and "bi_id ` set l \<inter> bi_id ` set r = {}"
  shows "list_all2 (covers x key t mx pending) rs plans"
proof (rule list.rel_mono_strong[OF assms(1)])
  fix seg plan assume seg: "seg \<in> set rs" and c: "covers x key t mx (snd (split_pending pending l)) seg plan"
  have "bi_id ` set seg \<subseteq> bi_id ` set r" using seg unfolding assms(2)[symmetric] by auto
  with assms(3) have "i \<notin> bi_id ` set l" if "i \<in> bi_id ` set seg" for i using that by blast
  then have "hm_get (snd (split_pending pending l)) i = hm_get pending i" if "i \<in> bi_id ` set seg" for i
    using that by (simp only: split_pending_get(2) if_False)
  then show "covers x key t mx pending seg plan" by (rule covers_mono[OF c])
qed

lemma plan_invocations_covers:
  assumes "hm_ok pending" and "fst ` set pending \<subseteq> bi_id ` set items"
    and "distinct (map bi_id items)"
  shows "\<exists>segs. concat segs = items \<and>
     list_all2 (covers x key t mx pending) segs (plan_invocations x key t mx pending items)"
  using assms
proof (induction x key t mx pending items rule: plan_invocations.induct)
  case (1 x key t mx pending items)
  have whole: "hm_get pending i = (if i \<in> bi_id ` set items then hm_get pending i else None)" for i
    using "1.prems"(2) by (auto simp: hm_get_None_iff)
  show ?case
  proof (cases "build_payload_bytes x key t items")
    case (Inl e)
    with whole "1.prems" show ?thesis
      by (intro exI[of _ "[items]"]) (simp add: plan_invocations.simps[of x key t mx pending items] covers_def)
  next
    case payload: (Inr payload)
    show ?thesis
    proof (cases "length payload \<le> mx \<or> length items \<le> 1")
      case True
      with payload whole "1.prems" show ?thesis
        by (intro exI[of _ "[items]"]) (auto simp: plan_invocations.simps[of x key t mx pending items] covers_def)
    next
      case False
      let ?l = "take (length items div 2) items" and ?r = "drop (length items div 2) items"
      let ?p = "split_pending pending ?l"
      have dist: "distinct (map bi_id ?l)" "distinct (map bi_id ?r)" "bi_id ` set ?l \<inter> bi_id ` set ?r = {}"
        using "1.prems"(3) append_take_drop_id[of "length items div 2" items] by (metis distinct_append map_append list.set_map)+
      have keys: "fst ` set (fst ?p) \<subseteq> bi_id ` set ?l" "fst ` set (snd ?p) \<subseteq> bi_id ` set ?r"
        using split_pending_keys[of pending ?l ?r] "1.prems"(2) by simp_all
      note IH = "1.IH"[OF payload _ _ refl refl refl refl]
      obtain ls where ls: "concat ls = ?l"
        "list_all2 (covers x key t mx (fst ?p)) ls (plan_invocations x key t mx (fst ?p) ?l)"
        using IH(1) False split_pending_ok[OF "1.prems"(1)] keys(1) dist(1) by auto
      obtain rs where rs: "concat rs = ?r"
        "list_all2 (covers x key t mx (snd ?p)) rs (plan_invocations x key t mx (snd ?p) ?r)"
        using IH(2) False split_pending_ok[OF "1.prems"(1)] keys(2) dist(2) by auto
      have "list_all2 (covers x key t mx pending) (ls @ rs) (plan_invocations x key t mx pending items)"
        using payload False covers_left[OF ls(2,1)] covers_right[OF rs(2,1) dist(3)]
        by (simp add: plan_invocations.simps[of x key t mx pending items] Let_def list_all2_appendI)
      with ls(1) rs(1) show ?thesis by (intro exI[of _ "ls @ rs"]) simp
    qed
  qed
qed

lemma plan_invocations_values:
  "hm_ok pending \<Longrightarrow>
   hm_values pending = sum_list (map (hm_values \<circ> plan_pending) (plan_invocations x key t mx pending items))"
proof (induction x key t mx pending items rule: plan_invocations.induct)
  case (1 x key t mx pending items)
  show ?case
  proof (cases "build_payload_bytes x key t items")
    case (Inl e)
    then show ?thesis by (simp add: plan_invocations.simps[of x key t mx pending items])
  next
    case (Inr payload)
    note payload = this
    let ?l = "take (length items div 2) items"
    note IH = "1.IH"[OF payload _ _ refl refl refl refl]
    show ?thesis
    proof (cases "length payload \<le> mx \<or> length items \<le> 1")
      case True
      with payload show ?thesis by (auto simp: plan_invocations.simps[of x key t mx pending items])
    next
      case False
      with payload IH split_pending_ok[OF "1.prems", of ?l] split_pending_values[OF "1.prems", of ?l]
      show ?thesis by (simp add: plan_invocations.simps[of x key t mx pending items] Let_def)
    qed
  qed
qed

subsection \<open>Properties\<close>

text \<open>
  Property C13: a batch is cut into contiguous segments, in order and without loss; each plan holds
  exactly the reply channels of its segment, and either the payload of exactly that segment, not
  larger than the limit, or a failure that is deserved: the segment cannot be encoded (500), or it
  is a single request that is too large by itself (502).
\<close>

theorem plan_invocations_segments:
  assumes "hm_ok pending" and "fst ` set pending \<subseteq> bi_id ` set items" and "distinct (map bi_id items)"
  shows "\<exists>segs. concat segs = items \<and>
     list_all2 (covers x key t mx pending) segs (plan_invocations x key t mx pending items)"
  by (rule plan_invocations_covers[OF assms])

text \<open>A printer that spends one byte per batch item.\<close>

definition sample_item :: "string \<Rightarrow> batch_item" where
  "sample_item i = batch_item_of plain_ext 0
     \<lparr>pr_id = i, pr_method = GET, pr_path = ''/'', pr_route = ''/'', pr_path_params = [], pr_headers = [],
      pr_query = [], pr_raw_query_string = [], pr_body = [], pr_respond_to = SinkBuffered 0\<rparr>"

definition count_ext :: ext where
  "count_ext = plain_ext\<lparr>x_json_print := (\<lambda>j. case value_get j ''batch'' of
     Some (JArr items) \<Rightarrow> Some (map (\<lambda>_. CHR ''x'') items) | _ \<Rightarrow> None)\<rparr>"

definition sample_key :: batch_key where
  "sample_key = \<lparr>bk_target_lambda = ''fn'', bk_method = GET, bk_route = ''/'', bk_invoke_mode = Buffered,
     bk_key_values = []\<rparr>"

theorem plan_invocations_segments_witness:
  "\<exists>segs. concat segs = map sample_item [''a'', ''b'', ''c''] \<and>
     list_all2 (covers count_ext sample_key 0 1 [(''a'', 1 :: chan), (''b'', 2), (''c'', 3)]) segs
       (plan_invocations count_ext sample_key 0 1 [(''a'', 1), (''b'', 2), (''c'', 3)]
          (map sample_item [''a'', ''b'', ''c'']))"
proof -
  have ids: "map bi_id (map sample_item xs) = xs" for xs
    by (induction xs) (simp_all add: sample_item_def batch_item_of_def Let_def)
  have "bi_id ` set (map sample_item [''a'', ''b'', ''c'']) = set (map bi_id (map sample_item [''a'', ''b'', ''c'']))"
    by simp
  also have "\<dots> = {''a'', ''b'', ''c''}" unfolding ids by simp
  finally have s: "bi_id ` set (map sample_item [''a'', ''b'', ''c'']) = {''a'', ''b'', ''c''}" .
  show ?thesis
    by (rule plan_invocations_segments) (simp_all only: ids s, simp_all add: hm_ok_def)
qed

text \<open>
  Whatever the ids are, splitting never drops or duplicates a reply channel: the plans
  together hold exactly the channels of the pending table.
\<close>

theorem plan_invocations_conserves:
  assumes "hm_ok pending"
  shows "hm_values pending = sum_list (map (hm_values \<circ> plan_pending) (plan_invocations x key t mx pending items))"
  by (rule plan_invocations_values[OF assms])

theorem plan_invocations_conserves_witness:
  "sum_list (map (hm_values \<circ> plan_pending)
     (plan_invocations count_ext sample_key 0 1 [(''a'', 1 :: chan), (''zz'', 2)] [sample_item ''a'', sample_item ''b'']))
   = {#1, 2#}"
  using plan_invocations_conserves[of "[(''a'', 1 :: chan), (''zz'', 2)]" count_ext sample_key 0 1
      "[sample_item ''a'', sample_item ''b'']"]
  by (simp add: hm_ok_def)

end
