(* ===== verification/Gw_Buffered.thy ===== *)
theory Gw_Buffered
  imports Gw_Channels "HOL-Library.Monad_Syntax"
begin

text \<open>
  The buffered response path of \<^verbatim>\<open>gateway/src/batching.rs\<close>: decoding the
  \<^verbatim>\<open>{v, responses}\<close> document and answering each pending request
  (\<^verbatim>\<open>BatchResponse\<close>, \<^verbatim>\<open>BatchResponseItem\<close>, \<^verbatim>\<open>dispatch_buffered\<close>).
\<close>

subsection \<open>The wire structs\<close>

record batch_response_item =
  ri_id :: string
  ri_status_code :: nat
  ri_headers :: "(string, string) hashmap"
  ri_cookies :: "string list"
  ri_body :: string
  ri_is_base64_encoded :: bool

record batch_response =
  br_v :: nat
  br_responses :: "batch_response_item list"

definition dec_batch_response_item :: "json \<Rightarrow> batch_response_item option" where
  "dec_batch_response_item j = do {
     fs \<leftarrow> struct_view [''id'', ''statusCode'', ''headers'', ''cookies'', ''body'', ''isBase64Encoded''] j;
     i \<leftarrow> req_field ''id'' dec_string fs;
     status_code \<leftarrow> req_field ''statusCode'' dec_u16 fs;
     hs \<leftarrow> def_field ''headers'' dec_str_map [] fs;
     cookies \<leftarrow> def_field ''cookies'' (dec_list dec_string) [] fs;
     b \<leftarrow> def_field ''body'' dec_string [] fs;
     is_base64 \<leftarrow> def_field ''isBase64Encoded'' dec_bool False fs;
     Some \<lparr>ri_id = i, ri_status_code = status_code, ri_headers = hs, ri_cookies = cookies,
           ri_body = b, ri_is_base64_encoded = is_base64\<rparr>
   }"

definition dec_batch_response :: "json \<Rightarrow> batch_response option" where
  "dec_batch_response j = do {
     fs \<leftarrow> struct_view [''v'', ''responses''] j;
     v \<leftarrow> req_field ''v'' dec_u8 fs;
     responses \<leftarrow> req_field ''responses'' (dec_list dec_batch_response_item) fs;
     Some \<lparr>br_v = v, br_responses = responses\<rparr>
   }"

subsection \<open>Dispatch\<close>

definition item_response :: "ext \<Rightarrow> batch_response_item \<Rightarrow> gateway_response" where
  "item_response x item =
     (case build_gateway_response_parts x (ri_status_code item) (ri_headers item) (ri_cookies item)
             (ri_body item) (ri_is_base64_encoded item) of
        Inr r \<Rightarrow> r
      | Inl err \<Rightarrow> text_response 502 (''bad response: '' @ show_err x err))"

fun dispatch_items :: "ext \<Rightarrow> nat \<Rightarrow> nat \<Rightarrow> batch_response_item list \<Rightarrow> (string, chan) hashmap \<Rightarrow> log \<Rightarrow>
    (string, chan) hashmap \<times> log" where
  "dispatch_items x batch_size wait_ms [] pending log = (pending, log)"
| "dispatch_items x batch_size wait_ms (item # items) pending log =
     (case hm_get pending (ri_id item) of
        None \<Rightarrow> dispatch_items x batch_size wait_ms items pending log
      | Some tx \<Rightarrow>
          dispatch_items x batch_size wait_ms items (hm_delete (ri_id item) pending)
            (log @ [Reply tx (with_meta batch_size wait_ms (item_response x item))]))"

definition dispatch_buffered :: "ext \<Rightarrow> nat \<Rightarrow> bytes \<Rightarrow> (string, chan) hashmap \<Rightarrow> log \<Rightarrow> log" where
  "dispatch_buffered x wait_ms resp_bytes pending log =
     (let batch_size = length pending
      in case from_slice x dec_batch_response resp_bytes of
           Inl err \<Rightarrow> fail_all_buffered batch_size wait_ms 502 (''decode response: '' @ show_err x err) pending log
         | Inr parsed \<Rightarrow>
             if br_v parsed \<noteq> 1
             then fail_all_buffered batch_size wait_ms 502
                    (''unsupported response version: '' @ show_nat (br_v parsed)) pending log
             else
               (let rest = dispatch_items x batch_size wait_ms (br_responses parsed) pending log
                in fail_all_buffered batch_size wait_ms 502 ''missing response record'' (fst rest) (snd rest)))"

subsection \<open>Who is answered, and with what\<close>

text \<open>
  The specification: the answer of request \<open>i\<close> is the first record with its id, converted, or a
  502 that says it is missing.
\<close>

definition buffered_answer :: "ext \<Rightarrow> batch_response_item list \<Rightarrow> string \<Rightarrow> gateway_response" where
  "buffered_answer x items i =
     (case find (\<lambda>it. ri_id it = i) items of
        None \<Rightarrow> text_response 502 ''missing response record''
      | Some it \<Rightarrow> item_response x it)"

definition reply_with :: "nat \<Rightarrow> nat \<Rightarrow> (string \<Rightarrow> gateway_response) \<Rightarrow> string \<times> chan \<Rightarrow> event" where
  "reply_with bs w f p = Reply (snd p) (with_meta bs w (f (fst p)))"

lemma buffered_answer_Cons:
  "buffered_answer x (it # items) i = (if ri_id it = i then item_response x it else buffered_answer x items i)"
  by (simp add: buffered_answer_def)

lemma fail_all_buffered_reply_with:
  "fail_all_buffered bs w st msg p log = log @ map (reply_with bs w (\<lambda>_. text_response st msg)) p"
  by (simp add: fail_all_buffered_def reply_with_def)

lemma reply_answer_this:
  "reply_with bs w (buffered_answer x (item # items)) (ri_id item, tx) =
   Reply tx (with_meta bs w (item_response x item))"
  by (simp add: reply_with_def buffered_answer_Cons)

lemma reply_answer_other:
  assumes "ri_id item \<notin> fst ` set m"
  shows "image_mset (reply_with bs w (buffered_answer x (item # items))) (mset m)
    = image_mset (reply_with bs w (buffered_answer x items)) (mset m)"
proof (rule image_mset_cong)
  fix p assume "p \<in># mset m"
  with assms have "ri_id item \<noteq> fst p" by auto
  then show "reply_with bs w (buffered_answer x (item # items)) p = reply_with bs w (buffered_answer x items) p"
    by (simp add: reply_with_def buffered_answer_Cons)
qed

lemma dispatch_items_spec:
  assumes "hm_ok pending"
  shows "\<exists>new. snd (dispatch_items x bs w items pending log) = log @ new \<and>
     mset new + image_mset (reply_with bs w (\<lambda>_. text_response 502 ''missing response record''))
                  (mset (fst (dispatch_items x bs w items pending log)))
     = image_mset (reply_with bs w (buffered_answer x items)) (mset pending)"
  using assms
proof (induction x bs w items pending log rule: dispatch_items.induct)
  case (1 x bs w pending log)
  then show ?case by (simp add: buffered_answer_def[abs_def])
next
  case (2 x bs w item items pending log)
  show ?case
  proof (cases "hm_get pending (ri_id item)")
    case None
    then have "ri_id item \<notin> fst ` set pending" unfolding hm_get_None_iff .
    note reply_answer_other[OF this, of bs w x items]
    with None 2 show ?thesis by simp
  next
    case (Some tx)
    let ?rest = "hm_delete (ri_id item) pending"
    from "2.IH"(2)[OF Some hm_ok_delete[OF "2.prems"]] obtain new where new:
      "snd (dispatch_items x bs w (item # items) pending log) =
         log @ Reply tx (with_meta bs w (item_response x item)) # new"
      "mset new + image_mset (reply_with bs w (\<lambda>_. text_response 502 ''missing response record''))
           (mset (fst (dispatch_items x bs w (item # items) pending log)))
       = image_mset (reply_with bs w (buffered_answer x items)) (mset ?rest)"
      using Some by auto
    have "ri_id item \<notin> fst ` set ?rest" by simp
    note reply_answer_other[OF this, of bs w x items]
    with new hm_mset_delete[OF "2.prems" Some] show ?thesis
      by (intro exI[of _ "Reply tx (with_meta bs w (item_response x item)) # new"])
        (simp add: reply_answer_this del: dispatch_items.simps)
  qed
qed

lemma dispatch_items_ok: "hm_ok pending \<Longrightarrow> hm_ok (fst (dispatch_items x bs w items pending log))"
  by (induction x bs w items pending log rule: dispatch_items.induct) (auto split: option.splits)

lemma dispatch_items_settled:
  "hm_ok pending \<Longrightarrow>
   settled (snd (dispatch_items x bs w items pending log))
     + owed_buffered (fst (dispatch_items x bs w items pending log)) = settled log + owed_buffered pending"
  by (induction x bs w items pending log rule: dispatch_items.induct)
    (auto simp: owed_buffered_def hm_values_delete split: option.splits)

lemma dispatch_buffered_settled:
  "hm_ok pending \<Longrightarrow> settled (dispatch_buffered x w b pending log) = settled log + owed_buffered pending"
  by (simp add: dispatch_buffered_def Let_def dispatch_items_settled split: sum.splits)

lemma dispatch_items_prefix: "prefix log (snd (dispatch_items x bs w items pending log))"
proof (induction x bs w items pending log rule: dispatch_items.induct)
  case (2 x bs w item items pending log)
  show ?case
  proof (cases "hm_get pending (ri_id item)")
    case None
    with 2 show ?thesis by simp
  next
    case (Some tx)
    with "2.IH"(2)[OF Some] show ?thesis by (auto intro: append_prefixD)
  qed
qed simp

lemma dispatch_buffered_prefix: "prefix log (dispatch_buffered x w b pending log)"
  using prefix_order.trans[OF dispatch_items_prefix fail_all_buffered_prefix]
  by (auto simp: dispatch_buffered_def Let_def fail_all_buffered_prefix split: sum.splits)

subsection \<open>Properties\<close>

definition buffered_outcome :: "ext \<Rightarrow> bytes \<Rightarrow> string \<Rightarrow> gateway_response" where
  "buffered_outcome x b i =
     (case from_slice x dec_batch_response b of
        Inl err \<Rightarrow> text_response 502 (''decode response: '' @ show_err x err)
      | Inr parsed \<Rightarrow>
          if br_v parsed \<noteq> 1
          then text_response 502 (''unsupported response version: '' @ show_nat (br_v parsed))
          else buffered_answer x (br_responses parsed) i)"

lemma dispatch_buffered_spec:
  assumes "hm_ok pending"
  shows "\<exists>new. dispatch_buffered x w b pending log = log @ new \<and>
    mset new = image_mset (reply_with (length pending) w (buffered_outcome x b)) (mset pending)"
proof (cases "from_slice x dec_batch_response b")
  case (Inl err)
  then show ?thesis
    by (simp add: dispatch_buffered_def Let_def fail_all_buffered_reply_with buffered_outcome_def[abs_def])
next
  case (Inr parsed)
  note parsed = this
  show ?thesis
  proof (cases "br_v parsed = 1")
    case False
    with parsed show ?thesis
      by (simp add: dispatch_buffered_def Let_def fail_all_buffered_reply_with buffered_outcome_def[abs_def])
  next
    case True
    with parsed have out: "buffered_outcome x b = buffered_answer x (br_responses parsed)"
      by (simp add: buffered_outcome_def[abs_def])
    obtain new where "snd (dispatch_items x (length pending) w (br_responses parsed) pending log) = log @ new"
      "mset new + image_mset (reply_with (length pending) w (\<lambda>_. text_response 502 ''missing response record''))
           (mset (fst (dispatch_items x (length pending) w (br_responses parsed) pending log)))
       = image_mset (reply_with (length pending) w (buffered_answer x (br_responses parsed))) (mset pending)"
      using dispatch_items_spec[OF assms] by blast
    with parsed True show ?thesis
      by (simp add: dispatch_buffered_def Let_def fail_all_buffered_reply_with out)
  qed
qed

text \<open>
  Property C7: whatever bytes Lambda returns, every pending request is answered exactly once, with
  the size of the batch and its wait as metadata: the first record with its id, converted (a 502 if
  that record cannot be converted), a 502 if it has none, and a 502 for everybody when the document
  cannot be decoded or has another version. Records with unknown ids and repeated records send nothing.
\<close>

theorem dispatch_buffered_answers:
  assumes "hm_ok pending"
  shows "\<exists>new. dispatch_buffered x w b pending log = log @ new \<and>
    mset new = image_mset (reply_with (length pending) w (buffered_outcome x b)) (mset pending)"
  using assms by (rule dispatch_buffered_spec)

definition sample_buffered_ext :: ext where
  "sample_buffered_ext = plain_ext\<lparr>x_json_parse := (\<lambda>b.
     if b = ''doc'' then Some (JObj [(''v'', JInt 1), (''responses'', JArr
       [JObj [(''id'', JStr ''a''), (''statusCode'', JInt 200), (''body'', JStr ''ok'')],
        JObj [(''id'', JStr ''zz''), (''statusCode'', JInt 200)],
        JObj [(''id'', JStr ''b''), (''statusCode'', JInt 7)]])])
     else None)\<rparr>"

theorem dispatch_buffered_answers_witness:
  "\<exists>new. dispatch_buffered sample_buffered_ext 5 ''doc'' [(''a'', 1), (''b'', 2), (''c'', 3)] [] = new \<and>
    mset new = {# Reply 1 (with_meta 3 5 (text_response 200 ''ok'')),
                  Reply 2 (with_meta 3 5 (text_response 502 ''bad response: error'')),
                  Reply 3 (with_meta 3 5 (text_response 502 ''missing response record'')) #}"
proof -
  have ok: "hm_ok [(''a'', 1 :: chan), (''b'', 2), (''c'', 3)]" by (simp add: hm_ok_def)
  have out: "buffered_outcome sample_buffered_ext ''doc'' ''a'' = text_response 200 ''ok''"
    "buffered_outcome sample_buffered_ext ''doc'' ''b'' = text_response 502 ''bad response: error''"
    "buffered_outcome sample_buffered_ext ''doc'' ''c'' = text_response 502 ''missing response record''"
    by code_simp+
  show ?thesis
    using dispatch_buffered_answers[OF ok, of sample_buffered_ext 5 "''doc''" "[]"]
    by (simp add: reply_with_def out numeral_3_eq_3)
qed

end
