(* ===== verification/Gw_Flush.thy ===== *)
theory Gw_Flush
  imports Gw_Plan Gw_Buffered Gw_Framing
begin

text \<open>
  Flushing a batch and running its invocations (\<^verbatim>\<open>gateway/src/batching.rs\<close>: \<^verbatim>\<open>flush_batch\<close>,
  \<^verbatim>\<open>InvocationJob\<close>, \<^verbatim>\<open>run_invocation_job\<close>). The bounded invocation queue answers each
  \<^verbatim>\<open>try_send\<close> through the oracle \<open>ts\<close>, by the number of the attempt: whether there is room
  depends on the dispatcher that empties it at the same time. The Lambda service is the function
  \<open>invoker\<close>, and the clock the value \<open>now\<close>.
\<close>

subsection \<open>Jobs\<close>

datatype invocation_job =
    JobBuffered batch_key nat "f64 option" bytes "(string, chan) hashmap"
  | JobStream batch_key nat "f64 option" bytes "(string, stream_pending) hashmap"

fun job_fail :: "env \<Rightarrow> nat \<Rightarrow> string \<Rightarrow> invocation_job \<Rightarrow> log \<Rightarrow> log" where
  "job_fail env status msg (JobBuffered key wait_ms rps payload pending) lg =
     fail_all_buffered (length pending) wait_ms status msg pending lg"
| "job_fail env status msg (JobStream key wait_ms rps payload pending) lg =
     fail_all_stream env (length pending) wait_ms status msg pending lg"

datatype lambda_result = LrBuffered bytes | LrStream "(string + bytes) list"

type_synonym invoker = "string \<Rightarrow> bytes \<Rightarrow> invoke_mode \<Rightarrow> string + lambda_result"

fun run_invocation_job :: "ext \<Rightarrow> env \<Rightarrow> invoker \<Rightarrow> invocation_job \<Rightarrow> log \<Rightarrow> log" where
  "run_invocation_job x env invoker (JobBuffered key wait_ms rps payload pending) lg =
     (case invoker (bk_target_lambda key) payload (bk_invoke_mode key) of
        Inr (LrBuffered bs) \<Rightarrow> dispatch_buffered x wait_ms bs pending lg
      | Inr (LrStream _) \<Rightarrow>
          fail_all_buffered (length pending) wait_ms 502 ''unexpected response stream'' pending lg
      | Inl err \<Rightarrow> fail_all_buffered (length pending) wait_ms 502 (''invoke: '' @ err) pending lg)"
| "run_invocation_job x env invoker (JobStream key wait_ms rps payload pending) lg =
     (case invoker (bk_target_lambda key) payload (bk_invoke_mode key) of
        Inr (LrBuffered _) \<Rightarrow>
          fail_all_stream env (length pending) wait_ms 502 ''unexpected buffered response'' pending lg
      | Inr (LrStream stream) \<Rightarrow> dispatch_response_stream x env wait_ms stream pending lg
      | Inl err \<Rightarrow> fail_all_stream env (length pending) wait_ms 502 (''invoke: '' @ err) pending lg)"

subsection \<open>Submitting the plans\<close>

datatype try_send = TsOk | TsFull | TsClosed

text \<open>Attempts made on the queue so far, jobs it accepted, and the log.\<close>

type_synonym submit_state = "nat \<times> invocation_job list \<times> log"

definition submit_job :: "env \<Rightarrow> (nat \<Rightarrow> try_send) \<Rightarrow> invocation_job \<Rightarrow> submit_state \<Rightarrow> submit_state" where
  "submit_job env ts job s =
     (case s of (n, jobs, lg) \<Rightarrow>
        (case ts n of
           TsOk \<Rightarrow> (Suc n, jobs @ [job], lg)
         | TsFull \<Rightarrow> (Suc n, jobs, job_fail env 429 ''gateway overloaded'' job lg)
         | TsClosed \<Rightarrow> (Suc n, jobs, job_fail env 502 ''gateway shutting down'' job lg)))"

definition submit_buffered :: "env \<Rightarrow> (nat \<Rightarrow> try_send) \<Rightarrow> batch_key \<Rightarrow> nat \<Rightarrow> f64 option \<Rightarrow>
    chan invocation_plan \<Rightarrow> submit_state \<Rightarrow> submit_state" where
  "submit_buffered env ts key wait_ms rps plan s =
     (case plan of
        Fail p status msg \<Rightarrow>
          (case s of (n, jobs, lg) \<Rightarrow> (n, jobs, fail_all_buffered (length p) wait_ms status msg p lg))
      | Invoke p payload \<Rightarrow> submit_job env ts (JobBuffered key wait_ms rps payload p) s)"

definition submit_stream :: "env \<Rightarrow> (nat \<Rightarrow> try_send) \<Rightarrow> batch_key \<Rightarrow> nat \<Rightarrow> f64 option \<Rightarrow>
    stream_pending invocation_plan \<Rightarrow> submit_state \<Rightarrow> submit_state" where
  "submit_stream env ts key wait_ms rps plan s =
     (case plan of
        Fail p status msg \<Rightarrow>
          (case s of (n, jobs, lg) \<Rightarrow> (n, jobs, fail_all_stream env (length p) wait_ms status msg p lg))
      | Invoke p payload \<Rightarrow> submit_job env ts (JobStream key wait_ms rps payload p) s)"

subsection \<open>The flush\<close>

text \<open>
  The loop over the batch. \<^verbatim>\<open>HashMap::insert\<close> on an id that is already present returns the old
  sender, and the code lets it go out of scope: its client sees a dropped channel.
\<close>

type_synonym flush_tables =
  "(string, chan) hashmap \<times> (string, stream_pending) hashmap \<times> batch_item list \<times> log"

definition collect_request :: "ext \<Rightarrow> 64 word \<Rightarrow> pending_request \<Rightarrow> flush_tables \<Rightarrow> flush_tables" where
  "collect_request x now req s =
     (case s of (pb, ps, items, lg) \<Rightarrow>
        (case pr_respond_to req of
           SinkBuffered tx \<Rightarrow>
             (hm_insert (pr_id req) tx pb, ps, items @ [batch_item_of x now req],
              (case hm_get pb (pr_id req) of None \<Rightarrow> lg | Some old \<Rightarrow> lg @ [ReplyDropped old]))
         | SinkStream init body \<Rightarrow>
             (pb, hm_insert (pr_id req) \<lparr>st_init = Some init, st_body = body\<rparr> ps,
              items @ [batch_item_of x now req],
              (case hm_get ps (pr_id req) of None \<Rightarrow> lg | Some old \<Rightarrow> drop_entry old lg))))"

definition collect_batch :: "ext \<Rightarrow> 64 word \<Rightarrow> pending_request list \<Rightarrow> log \<Rightarrow> flush_tables" where
  "collect_batch x now batch lg = fold (collect_request x now) batch ([], [], [], lg)"

definition flush_batch :: "ext \<Rightarrow> env \<Rightarrow> (nat \<Rightarrow> try_send) \<Rightarrow> 64 word \<Rightarrow> batch_key \<Rightarrow> nat \<Rightarrow> nat \<Rightarrow>
    f64 option \<Rightarrow> pending_request list \<Rightarrow> submit_state \<Rightarrow> submit_state" where
  "flush_batch x env ts now key max_bytes wait_ms rps batch s =
     (case s of (n, jobs, lg) \<Rightarrow>
      (case collect_batch x now batch lg of (pb, ps, items, lg) \<Rightarrow>
        if bk_invoke_mode key = Buffered then
          (let lg = (if ps \<noteq> [] then fail_all_stream env (length ps) wait_ms 502
                       ''unexpected streaming response sink'' ps lg else lg)
           in fold (submit_buffered env ts key wait_ms rps)
                (plan_invocations x key now max_bytes pb items) (n, jobs, lg))
        else
          (let lg = (if pb \<noteq> [] then fail_all_buffered (length pb) wait_ms 502
                       ''unexpected buffered response sink'' pb lg else lg)
           in fold (submit_stream env ts key wait_ms rps)
                (plan_invocations x key now max_bytes ps items) (n, jobs, lg))))"

subsection \<open>What is owed\<close>

fun sink_owes :: "response_sink \<Rightarrow> chan multiset" where
  "sink_owes (SinkBuffered c) = {#c#}"
| "sink_owes (SinkStream c b) = {#c#}"

definition batch_owes :: "pending_request list \<Rightarrow> chan multiset" where
  "batch_owes batch = sum_list (map (sink_owes \<circ> pr_respond_to) batch)"

fun job_owes :: "invocation_job \<Rightarrow> chan multiset" where
  "job_owes (JobBuffered key w rps payload p) = owed_buffered p"
| "job_owes (JobStream key w rps payload p) = owed_stream p"

fun job_ok :: "invocation_job \<Rightarrow> bool" where
  "job_ok (JobBuffered key w rps payload p) = hm_ok p"
| "job_ok (JobStream key w rps payload p) = hm_ok p"

definition jobs_owe :: "invocation_job list \<Rightarrow> chan multiset" where
  "jobs_owe jobs = sum_list (map job_owes jobs)"

definition submit_total :: "submit_state \<Rightarrow> chan multiset" where
  "submit_total s = settled (snd (snd s)) + jobs_owe (fst (snd s))"

lemma submit_total_triple: "submit_total (n, jobs, lg) = settled lg + jobs_owe jobs"
  by (simp add: submit_total_def)

lemma jobs_owe_simps [simp]:
  "jobs_owe [] = {#}" "jobs_owe (j # js) = job_owes j + jobs_owe js" "jobs_owe (a @ b) = jobs_owe a + jobs_owe b"
  by (simp_all add: jobs_owe_def)

lemma batch_owes_simps [simp]:
  "batch_owes [] = {#}" "batch_owes (r # rs) = sink_owes (pr_respond_to r) + batch_owes rs"
  "batch_owes (a @ b) = batch_owes a + batch_owes b"
  by (simp_all add: batch_owes_def)

lemma job_fail_settled [simp]: "settled (job_fail env st msg job lg) = settled lg + job_owes job"
  by (cases job) simp_all

lemma run_invocation_job_settled:
  "job_ok job \<Longrightarrow> settled (run_invocation_job x env invoker job lg) = settled lg + job_owes job"
  by (cases job)
    (auto simp: dispatch_buffered_settled dispatch_response_stream_settled split: sum.split lambda_result.split)

lemma submit_job_total: "submit_total (submit_job env ts job s) = submit_total s + job_owes job"
  by (simp add: submit_job_def submit_total_def split: prod.split try_send.split)

lemma submit_job_ok:
  "list_all job_ok (fst (snd s)) \<Longrightarrow> job_ok job \<Longrightarrow> list_all job_ok (fst (snd (submit_job env ts job s)))"
  by (cases s) (auto simp: submit_job_def split: try_send.split)

text \<open>
  The two submit loops differ only in the kind of table; inside the contract of a failing sink one
  proof covers both.
\<close>

context failing_sink
begin

lemma submit_conserves:
  assumes step: "\<And>plan s. submit_total (submit plan s) = submit_total s + owed (plan_pending plan)"
  shows "submit_total (fold submit plans s) = submit_total s + sum_list (map (owed \<circ> plan_pending) plans)"
  by (induction plans arbitrary: s) (simp_all add: step)

lemma plans_owe:
  assumes "hm_ok pending"
  shows "sum_list (map (owed \<circ> plan_pending) (plan_invocations x key t mx pending items)) = owed pending"
  using owed_split_many[of pending "map plan_pending (plan_invocations x key t mx pending items)"]
    plan_invocations_values[OF assms, of x key t mx items]
  by (simp add: comp_def)

lemma submit_plans_conserves:
  assumes "\<And>plan s. submit_total (submit plan s) = submit_total s + owed (plan_pending plan)" and "hm_ok pending"
  shows "submit_total (fold submit (plan_invocations x key t mx pending items) s) = submit_total s + owed pending"
  using submit_conserves[of submit, OF assms(1)] plans_owe[OF assms(2)] by simp

end

lemma submit_buffered_total:
  "submit_total (submit_buffered env ts key w rps plan s) = submit_total s + owed_buffered (plan_pending plan)"
  by (cases plan; cases s) (simp_all add: submit_buffered_def submit_job_total, simp_all add: submit_total_def)

lemma submit_stream_total:
  "submit_total (submit_stream env ts key w rps plan s) = submit_total s + owed_stream (plan_pending plan)"
  by (cases plan; cases s) (simp_all add: submit_stream_def submit_job_total, simp_all add: submit_total_def)

lemma plan_invocations_ok:
  "hm_ok pending \<Longrightarrow> plan \<in> set (plan_invocations x key t mx pending items) \<Longrightarrow> hm_ok (plan_pending plan)"
proof (induction x key t mx pending items rule: plan_invocations.induct)
  case (1 x key t mx pending items)
  let ?l = "take (length items div 2) items"
  note ok = split_pending_ok[OF "1.prems"(1), of ?l]
  show ?case
  proof (cases "build_payload_bytes x key t items")
    case (Inl e)
    with "1.prems" show ?thesis by (simp add: plan_invocations.simps[of x key t mx pending items])
  next
    case (Inr payload)
    with "1.prems" "1.IH"[OF Inr _ _ refl refl refl refl] ok show ?thesis
      by (auto simp: plan_invocations.simps[of x key t mx pending items] Let_def split: if_splits)
  qed
qed

lemma fold_submit_ok:
  assumes "\<And>plan s. hm_ok (plan_pending plan) \<Longrightarrow> list_all job_ok (fst (snd s)) \<Longrightarrow>
      list_all job_ok (fst (snd (submit plan s)))"
    and "\<And>plan. plan \<in> set plans \<Longrightarrow> hm_ok (plan_pending plan)" and "list_all job_ok (fst (snd s))"
  shows "list_all job_ok (fst (snd (fold submit plans s)))"
  using assms(2,3) by (induction plans arbitrary: s) (simp_all add: assms(1))

lemma submit_buffered_ok:
  "hm_ok (plan_pending plan) \<Longrightarrow> list_all job_ok (fst (snd s)) \<Longrightarrow>
   list_all job_ok (fst (snd (submit_buffered env ts key w rps plan s)))"
  by (cases plan; cases s) (simp_all add: submit_buffered_def submit_job_ok)

lemma submit_stream_ok:
  "hm_ok (plan_pending plan) \<Longrightarrow> list_all job_ok (fst (snd s)) \<Longrightarrow>
   list_all job_ok (fst (snd (submit_stream env ts key w rps plan s)))"
  by (cases plan; cases s) (simp_all add: submit_stream_def submit_job_ok)

subsection \<open>The loop over the batch\<close>

definition tables_total :: "flush_tables \<Rightarrow> chan multiset" where
  "tables_total s = (case s of (pb, ps, items, lg) \<Rightarrow> settled lg + owed_buffered pb + owed_stream ps)"

definition tables_ok :: "flush_tables \<Rightarrow> bool" where
  "tables_ok s = (case s of (pb, ps, items, lg) \<Rightarrow> hm_ok pb \<and> hm_ok ps \<and>
     fst ` set pb \<subseteq> bi_id ` set items \<and> fst ` set ps \<subseteq> bi_id ` set items)"

lemma batch_item_of_id [simp]: "bi_id (batch_item_of x now req) = pr_id req"
  by (simp add: batch_item_of_def Let_def)

lemma hm_values_overwrite:
  assumes "hm_ok m" and "hm_get m k = Some old"
  shows "add_mset old (hm_values (hm_insert k v m)) = add_mset v (hm_values m)"
  using assms
proof (induction m)
  case (Cons p m)
  show ?case
  proof (cases "fst p = k")
    case True
    with Cons.prems show ?thesis by (cases p) (simp add: add_mset_commute)
  next
    case False
    with Cons have "add_mset old (hm_values (hm_insert k v m)) = add_mset v (hm_values m)"
      by (cases p) (auto simp: hm_ok_def)
    with False show ?thesis by (cases p) (simp add: add_mset_commute[of old] add_mset_commute[of v])
  qed
qed simp

lemma owed_buffered_overwrite:
  "hm_ok m \<Longrightarrow> hm_get m k = Some old \<Longrightarrow>
   add_mset old (owed_buffered (hm_insert k v m)) = add_mset v (owed_buffered m)"
  by (simp add: owed_values hm_values_overwrite)

lemma owed_stream_overwrite:
  assumes "hm_ok m" and "hm_get m k = Some old"
  shows "init_of old + owed_stream (hm_insert k v m) = init_of v + owed_stream m"
proof -
  have "image_mset init_of (add_mset old (hm_values (hm_insert k v m)))
      = image_mset init_of (add_mset v (hm_values m))"
    by (simp only: hm_values_overwrite[OF assms])
  then have "\<Sum>\<^sub># (image_mset init_of (add_mset old (hm_values (hm_insert k v m))))
      = \<Sum>\<^sub># (image_mset init_of (add_mset v (hm_values m)))" by (simp only:)
  then show ?thesis by (simp add: owed_values)
qed

lemma owed_buffered_fresh:
  "hm_get m k = None \<Longrightarrow> owed_buffered (hm_insert k v m) = add_mset v (owed_buffered m)"
  by (simp add: owed_values hm_values_insert_fresh)

lemma collect_request_total:
  assumes "tables_ok s"
  shows "tables_total (collect_request x now req s) = tables_total s + sink_owes (pr_respond_to req)"
proof -
  obtain pb ps items lg where s: "s = (pb, ps, items, lg)" by (metis prod.exhaust)
  with assms have ok: "hm_ok pb" "hm_ok ps" by (simp_all add: tables_ok_def)
  show ?thesis
  proof (cases "pr_respond_to req")
    case (SinkBuffered tx)
    show ?thesis
    proof (cases "hm_get pb (pr_id req)")
      case None
      with SinkBuffered show ?thesis
        by (simp add: s collect_request_def tables_total_def owed_buffered_fresh)
    next
      case (Some old)
      with SinkBuffered owed_buffered_overwrite[OF ok(1) Some, of tx] show ?thesis
        by (simp add: s collect_request_def tables_total_def)
    qed
  next
    case (SinkStream c b)
    let ?e = "\<lparr>st_init = Some c, st_body = b\<rparr>"
    show ?thesis
    proof (cases "hm_get ps (pr_id req)")
      case None
      with SinkStream show ?thesis
        by (simp add: s collect_request_def tables_total_def)
    next
      case (Some old)
      with SinkStream owed_stream_overwrite[OF ok(2) Some, of ?e] show ?thesis
        by (simp add: s collect_request_def tables_total_def union_ac)
    qed
  qed
qed

lemma collect_request_ok: "tables_ok s \<Longrightarrow> tables_ok (collect_request x now req s)"
  by (cases s) (auto simp: tables_ok_def collect_request_def image_iff split: response_sink.splits)

lemma collect_batch_props:
  "tables_ok (collect_batch x now batch lg)"
  "tables_total (collect_batch x now batch lg) = settled lg + batch_owes batch"
proof -
  have *: "tables_ok s \<Longrightarrow> tables_ok (fold (collect_request x now) batch s)
      \<and> tables_total (fold (collect_request x now) batch s) = tables_total s + batch_owes batch" for s
    by (induction batch arbitrary: s) (simp_all add: collect_request_ok collect_request_total)
  have "tables_ok ([], [], [], lg)" by (simp add: tables_ok_def)
  from *[OF this] show "tables_ok (collect_batch x now batch lg)"
    "tables_total (collect_batch x now batch lg) = settled lg + batch_owes batch"
    by (simp_all add: collect_batch_def tables_total_def)
qed

subsection \<open>Conservation by the whole flush\<close>

lemma flush_batch_total:
  "submit_total (flush_batch x env ts now key mx w rps batch s) = submit_total s + batch_owes batch"
proof -
  obtain n jobs lg where s: "s = (n, jobs, lg)" by (metis prod.exhaust)
  obtain pb ps items lg1 where c: "collect_batch x now batch lg = (pb, ps, items, lg1)" by (metis prod.exhaust)
  with collect_batch_props[of x now batch lg]
  have ok: "hm_ok pb" "hm_ok ps" and tot: "settled lg1 + owed_buffered pb + owed_stream ps = settled lg + batch_owes batch"
    by (simp_all add: tables_ok_def tables_total_def)
  have b: "submit_total (fold (submit_buffered env ts key w rps) (plan_invocations x key now mx pb items) s')
      = submit_total s' + owed_buffered pb" for s'
    by (rule buffered_sink.submit_plans_conserves[OF submit_buffered_total ok(1)])
  have st: "submit_total (fold (submit_stream env ts key w rps) (plan_invocations x key now mx ps items) s')
      = submit_total s' + owed_stream ps" for s'
    by (rule stream_sink.submit_plans_conserves[OF submit_stream_total ok(2)])
  have if_s: "settled (if ps \<noteq> [] then fail_all_stream env k w status msg ps l else l) = settled l + owed_stream ps"
    and if_b: "settled (if pb \<noteq> [] then fail_all_buffered k w status msg pb l else l) = settled l + owed_buffered pb"
    for k status msg l by simp_all
  have sum: "submit_total s + batch_owes batch = settled lg1 + owed_buffered pb + owed_stream ps + jobs_owe jobs"
    using tot by (simp add: s submit_total_def)
  show ?thesis
    unfolding sum
    by (cases "bk_invoke_mode key = Buffered")
      (simp_all add: flush_batch_def s c b st Let_def submit_total_triple if_s if_b union_ac del: not_None_eq)
qed

lemma flush_batch_jobs_ok:
  assumes "list_all job_ok (fst (snd s))"
  shows "list_all job_ok (fst (snd (flush_batch x env ts now key mx w rps batch s)))"
proof -
  obtain n jobs lg where s: "s = (n, jobs, lg)" by (metis prod.exhaust)
  obtain pb ps items lg1 where c: "collect_batch x now batch lg = (pb, ps, items, lg1)" by (metis prod.exhaust)
  with collect_batch_props(1)[of x now batch lg] have ok: "hm_ok pb" "hm_ok ps" by (simp_all add: tables_ok_def)
  note fold_submit_ok[of "submit_buffered env ts key w rps", OF submit_buffered_ok plan_invocations_ok[OF ok(1)]]
    fold_submit_ok[of "submit_stream env ts key w rps", OF submit_stream_ok plan_invocations_ok[OF ok(2)]]
  with assms show ?thesis by (auto simp: flush_batch_def s c Let_def)
qed

lemma run_jobs_settled:
  "list_all job_ok jobs \<Longrightarrow>
   settled (fold (run_invocation_job x env invoker) jobs lg) = settled lg + jobs_owe jobs"
  by (induction jobs arbitrary: lg) (simp_all add: run_invocation_job_settled union_ac)

text \<open>The jobs a submit loop accepts are jobs of its plans, with the payloads of the plans.\<close>

fun job_payload :: "invocation_job \<Rightarrow> bytes" where
  "job_payload (JobBuffered key w rps payload p) = payload"
| "job_payload (JobStream key w rps payload p) = payload"

lemma submit_buffered_jobs:
  "j \<in> set (fst (snd (submit_buffered env ts key w rps plan s))) \<Longrightarrow>
   j \<in> set (fst (snd s)) \<or> (\<exists>p payload. plan = Invoke p payload \<and> j = JobBuffered key w rps payload p)"
  by (cases plan; cases s) (auto simp: submit_buffered_def submit_job_def split: try_send.splits)

lemma submit_stream_jobs:
  "j \<in> set (fst (snd (submit_stream env ts key w rps plan s))) \<Longrightarrow>
   j \<in> set (fst (snd s)) \<or> (\<exists>p payload. plan = Invoke p payload \<and> j = JobStream key w rps payload p)"
  by (cases plan; cases s) (auto simp: submit_stream_def submit_job_def split: try_send.splits)

lemma fold_submit_jobs:
  assumes "\<And>plan s. j \<in> set (fst (snd (submit plan s))) \<Longrightarrow> j \<in> set (fst (snd s)) \<or> P plan j"
    and "j \<in> set (fst (snd (fold submit plans s)))"
  shows "j \<in> set (fst (snd s)) \<or> (\<exists>plan \<in> set plans. P plan j)"
  using assms(2)
proof (induction plans arbitrary: s)
  case (Cons plan plans)
  then have "j \<in> set (fst (snd (submit plan s))) \<or> (\<exists>plan \<in> set plans. P plan j)" by simp
  with assms(1)[of plan s] show ?case by auto
qed simp

lemma plan_invocations_payload:
  "plan \<in> set (plan_invocations x key t mx pending items) \<Longrightarrow> plan = Invoke p payload \<Longrightarrow> length payload \<le> mx"
proof (induction x key t mx pending items rule: plan_invocations.induct)
  case (1 x key t mx pending items)
  show ?case
  proof (cases "build_payload_bytes x key t items")
    case (Inl e)
    with "1.prems" show ?thesis by (simp add: plan_invocations.simps[of x key t mx pending items])
  next
    case (Inr pl)
    with "1.prems" "1.IH"[OF Inr _ _ refl refl refl refl] show ?thesis
      by (auto simp: plan_invocations.simps[of x key t mx pending items] Let_def split: if_splits)
  qed
qed

lemma flush_batch_jobs:
  assumes "j \<in> set (fst (snd (flush_batch x env ts now key mx w rps batch (n, [], lg))))"
  shows "length (job_payload j) \<le> mx \<and>
     (case j of JobBuffered k w' r' payload p \<Rightarrow> k = key \<and> w' = w \<and> r' = rps \<and> bk_invoke_mode key = Buffered
      | JobStream k w' r' payload p \<Rightarrow> k = key \<and> w' = w \<and> r' = rps \<and> bk_invoke_mode key \<noteq> Buffered)"
proof -
  obtain pb ps items lg1 where c: "collect_batch x now batch lg = (pb, ps, items, lg1)" by (metis prod.exhaust)
  show ?thesis
  proof (cases "bk_invoke_mode key = Buffered")
    case True
    with assms obtain l where "j \<in> set (fst (snd (fold (submit_buffered env ts key w rps)
        (plan_invocations x key now mx pb items) (n, [], l))))"
      by (auto simp: flush_batch_def c Let_def)
    from fold_submit_jobs[where submit = "submit_buffered env ts key w rps"
        and P = "\<lambda>plan j. \<exists>p payload. plan = Invoke p payload \<and> j = JobBuffered key w rps payload p",
        OF submit_buffered_jobs this] True show ?thesis
      using plan_invocations_payload by fastforce
  next
    case False
    with assms obtain l where "j \<in> set (fst (snd (fold (submit_stream env ts key w rps)
        (plan_invocations x key now mx ps items) (n, [], l))))"
      by (auto simp: flush_batch_def c Let_def)
    from fold_submit_jobs[where submit = "submit_stream env ts key w rps"
        and P = "\<lambda>plan j. \<exists>p payload. plan = Invoke p payload \<and> j = JobStream key w rps payload p",
        OF submit_stream_jobs this] False show ?thesis
      using plan_invocations_payload by fastforce
  qed
qed

subsection \<open>Properties\<close>

text \<open>
  Property C8: once the accepted jobs of a flush have run, in any order, every request of the batch
  has been settled exactly once and nobody else: whatever the ids (repeated ones too), the sinks,
  the payload sizes, the answers of the queue, the results of Lambda and the clients that left.
\<close>

theorem flush_batch_settles:
  assumes "flush_batch x env ts now key mx w rps batch (n, [], lg) = (n', jobs, lg')"
    and "mset order = mset jobs"
  shows "settled (fold (run_invocation_job x env invoker) order lg') = settled lg + batch_owes batch"
proof -
  have ok: "list_all job_ok jobs"
    using flush_batch_jobs_ok[of "(n, [], lg)" x env ts now key mx w rps batch] assms(1) by simp
  with mset_eq_setD[OF assms(2)] have "list_all job_ok order" by (simp add: list_all_iff)
  moreover have "jobs_owe order = jobs_owe jobs"
    using arg_cong[OF assms(2), of "\<lambda>m. \<Sum>\<^sub># (image_mset job_owes m)"]
    by (simp add: jobs_owe_def sum_mset_sum_list flip: mset_map)
  moreover have "settled lg' + jobs_owe jobs = settled lg + batch_owes batch"
    using flush_batch_total[of x env ts now key mx w rps batch "(n, [], lg)"] assms(1)
    by (simp add: submit_total_def)
  ultimately show ?thesis by (simp add: run_jobs_settled)
qed

definition sample_request :: "string \<Rightarrow> response_sink \<Rightarrow> pending_request" where
  "sample_request i sink = \<lparr>pr_id = i, pr_method = GET, pr_path = ''/'', pr_route = ''/'', pr_path_params = [],
     pr_headers = [], pr_query = [], pr_raw_query_string = [], pr_body = [], pr_respond_to = sink\<rparr>"

text \<open>A repeated id, a sink of the wrong kind, and a full queue for the second half of a split batch.\<close>

definition sample_batch :: "pending_request list" where
  "sample_batch = [sample_request ''a'' (SinkBuffered 1), sample_request ''a'' (SinkBuffered 2),
     sample_request ''b'' (SinkStream 3 13), sample_request ''c'' (SinkBuffered 4)]"

theorem flush_batch_settles_witness:
  "settled (case flush_batch count_ext (\<lambda>n c. True) (\<lambda>n. if n = 0 then TsOk else TsFull) 0 sample_key 2 5 None
      sample_batch (0, [], []) of
     (n, jobs, lg) \<Rightarrow> fold (run_invocation_job count_ext (\<lambda>n c. True) (\<lambda>fn p m. Inl ''down'')) (rev jobs) lg)
   = {#1, 2, 3, 4#}"
proof -
  obtain n jobs lg where f: "flush_batch count_ext (\<lambda>n c. True) (\<lambda>n. if n = 0 then TsOk else TsFull) 0 sample_key 2 5 None
      sample_batch (0, [], []) = (n, jobs, lg)" by (metis prod.exhaust)
  have owes: "batch_owes sample_batch = {#1, 2, 3, 4#}" by (simp add: sample_batch_def sample_request_def)
  from flush_batch_settles[OF f, of "rev jobs" "\<lambda>fn p m. Inl ''down''"] show ?thesis
    by (simp add: f owes)
qed

text \<open>
  Every job that a flush puts on the invocation queue carries a payload within the
  configured limit, the key and wait of its batch, and the kind of table its invoke mode asks for.
\<close>

theorem flush_batch_jobs_bounded:
  assumes "j \<in> set (fst (snd (flush_batch x env ts now key mx w rps batch (n, [], lg))))"
  shows "length (job_payload j) \<le> mx \<and>
     (case j of JobBuffered k w' r' payload p \<Rightarrow> k = key \<and> w' = w \<and> r' = rps \<and> bk_invoke_mode key = Buffered
      | JobStream k w' r' payload p \<Rightarrow> k = key \<and> w' = w \<and> r' = rps \<and> bk_invoke_mode key \<noteq> Buffered)"
  by (rule flush_batch_jobs[OF assms])

theorem flush_batch_jobs_bounded_witness:
  "fst (snd (flush_batch count_ext (\<lambda>n c. True) (\<lambda>n. TsOk) 0 sample_key 2 5 None sample_batch (0, [], []))) \<noteq> []
   \<and> length (job_payload (hd (fst (snd (flush_batch count_ext (\<lambda>n c. True) (\<lambda>n. TsOk) 0 sample_key 2 5 None
       sample_batch (0, [], [])))))) \<le> 2"
proof -
  let ?jobs = "fst (snd (flush_batch count_ext (\<lambda>n c. True) (\<lambda>n. TsOk) 0 sample_key 2 5 None sample_batch (0, [], [])))"
  have ne: "?jobs \<noteq> []" by code_simp
  then have "hd ?jobs \<in> set ?jobs" by simp
  from flush_batch_jobs_bounded[OF this] ne show ?thesis by simp
qed

end
