(* ===== verification/Gw_Machine.thy ===== *)
theory Gw_Machine
  imports Gw_Prelude
begin

text \<open>
  The contract of every labelled machine of the development: a run is a sequence of steps, extended at
  its end. Invariants (which may speak of the labels so far), composition and progress are proved once
  here and used through the interpretations for the invocation dispatcher, the layer proxy and its routes, the
  server's connections and its shutdown, the moves of the registry, the buffered adapter and the workers
  of the Node adapter.
\<close>

locale machine =
  fixes step :: "'s \<Rightarrow> 'l \<Rightarrow> 's \<Rightarrow> bool" and run :: "'s \<Rightarrow> 'l list \<Rightarrow> 's \<Rightarrow> bool"
  assumes run_Nil: "run s [] s' \<longleftrightarrow> s' = s"
    and run_snoc: "run s (ls @ [l]) s'' \<longleftrightarrow> (\<exists>s'. run s ls s' \<and> step s' l s'')"
begin

lemma run_single: "run s [l] s' \<longleftrightarrow> step s l s'"
  using run_snoc[of s "[]" l s'] by (simp add: run_Nil)

lemma run_append: "run s (ls @ ls') s'' \<longleftrightarrow> (\<exists>s'. run s ls s' \<and> run s' ls' s'')"
proof (induction ls' arbitrary: s'' rule: rev_induct)
  case (snoc l ls')
  have "run s (ls @ ls' @ [l]) s'' \<longleftrightarrow> (\<exists>t. run s (ls @ ls') t \<and> step t l s'')"
    using run_snoc[of s "ls @ ls'" l s''] by simp
  with snoc show ?case by (auto simp: run_snoc)
qed (simp add: run_Nil)

lemma run_Cons: "run s (l # ls) s'' \<longleftrightarrow> (\<exists>s'. step s l s' \<and> run s' ls s'')"
  using run_append[of s "[l]" ls s''] by (simp add: run_single)

lemma history_invariant:
  assumes "run s ls s'" and "I [] s" and "\<And>ls t l t'. run s ls t \<Longrightarrow> I ls t \<Longrightarrow> step t l t' \<Longrightarrow> I (ls @ [l]) t'"
  shows "I ls s'"
  using assms(1) by (induction ls arbitrary: s' rule: rev_induct) (auto simp: run_Nil run_snoc intro: assms(2,3))

lemma state_invariant:
  assumes "run s ls s'" and "I s" and "\<And>t l t'. I t \<Longrightarrow> step t l t' \<Longrightarrow> I t'"
  shows "I s'"
  using history_invariant[OF assms(1), of "\<lambda>_. I"] assms(2,3) by blast

text \<open>A measure that some step lowers, as long as the goal is not reached.\<close>

lemma reaches:
  fixes size :: "'s \<Rightarrow> nat"
  assumes "I s" and "\<And>t. I t \<Longrightarrow> \<not> goal t \<Longrightarrow> \<exists>l t'. step t l t' \<and> I t' \<and> size t' < size t"
  shows "\<exists>ls s'. run s ls s' \<and> I s' \<and> goal s'"
  using assms(1)
proof (induction "size s" arbitrary: s rule: less_induct)
  case less
  show ?case
  proof (cases "goal s")
    case True
    with less.prems show ?thesis by (intro exI[of _ "[]"] exI[of _ s]) (simp add: run_Nil)
  next
    case False
    from assms(2)[OF less.prems False] obtain l t where t: "step s l t" "I t" "size t < size s" by blast
    from less.hyps[OF t(3,2)] obtain ls s' where "run t ls s'" "I s'" "goal s'" by blast
    with t(1) show ?thesis by (intro exI[of _ "l # ls"] exI[of _ s']) (auto simp: run_Cons)
  qed
qed

end

end
