(* ===== verification/Gw_Queue.thy ===== *)
theory Gw_Queue
  imports Gw_Prelude
begin

text \<open>
  The contract of \<^verbatim>\<open>try_send\<close> on a bounded \<^verbatim>\<open>mpsc\<close> channel, on which the registry (one queue for each
  batch key) and the invocation dispatcher (one queue for all jobs) rely: a message is appended when the
  receiver is there and the queue is below its capacity, and otherwise the queue stays as it is.
\<close>

locale bounded_queue =
  fixes put :: "'a \<Rightarrow> 'q \<Rightarrow> 'q" and waiting :: "'q \<Rightarrow> 'a list" and receiving :: "'q \<Rightarrow> bool" and cap :: nat
  assumes put_accepts: "receiving q \<Longrightarrow> length (waiting q) < cap \<Longrightarrow> waiting (put a q) = waiting q @ [a]"
    and put_refuses: "\<not> receiving q \<or> cap \<le> length (waiting q) \<Longrightarrow> waiting (put a q) = waiting q"
    and put_receiving: "receiving (put a q) = receiving q"
begin

lemma put_bounded: "length (waiting q) \<le> cap \<Longrightarrow> length (waiting (put a q)) \<le> cap"
  by (cases "receiving q \<and> length (waiting q) < cap") (auto simp: put_accepts put_refuses not_less)

lemma put_prefix: "prefix (waiting q) (waiting (put a q))"
  by (cases "receiving q \<and> length (waiting q) < cap") (auto simp: put_accepts put_refuses not_less)

text \<open>A burst of messages: the first ones that fit are queued, in order; the rest is refused.\<close>

lemma put_burst:
  "waiting (fold put as q) = waiting q @ (if receiving q then take (cap - length (waiting q)) as else [])"
proof (induction as arbitrary: q)
  case (Cons a as)
  show ?case
  proof (cases "receiving q \<and> length (waiting q) < cap")
    case True
    then have "cap - length (waiting q) = Suc (cap - Suc (length (waiting q)))" by (auto intro: Suc_diff_Suc[symmetric])
    with True Cons[of "put a q"] show ?thesis by (simp add: put_accepts put_receiving)
  next
    case False
    then have "\<not> receiving q \<or> cap \<le> length (waiting q)" by auto
    with Cons[of "put a q"] put_refuses[OF this, of a] show ?thesis by (auto simp: put_receiving)
  qed
qed simp

lemma burst_bounded: "length (waiting q) \<le> cap \<Longrightarrow> length (waiting (fold put as q)) \<le> cap"
  by (auto simp: put_burst)

end

end
