(* ===== verification/Gw_Dispatcher.thy ===== *)
theory Gw_Dispatcher
  imports Gw_Flush Gw_Machine Gw_Queue
begin

text \<open>
  The invocation queue and \<^verbatim>\<open>invocation_dispatcher\<close> of \<^verbatim>\<open>gateway/src/batching.rs\<close>: a bounded queue of
  jobs, one dispatcher that takes a job and then waits for a permit of the in-flight semaphore, and
  the spawned jobs that give their permit back when they are done.
\<close>

record dispatcher =
  di_queue :: "invocation_job list"
  di_held :: "invocation_job option"
  di_permits :: nat
  di_running :: "invocation_job list"
  di_log :: log

text \<open>\<^verbatim>\<open>mpsc::channel(max_pending.max(1))\<close> and \<^verbatim>\<open>Semaphore::new(max_inflight)\<close>.\<close>

definition queue_capacity :: "nat \<Rightarrow> nat" where
  "queue_capacity max_pending = max max_pending 1"

definition dispatcher_init :: "nat \<Rightarrow> log \<Rightarrow> dispatcher" where
  "dispatcher_init max_inflight lg =
     \<lparr>di_queue = [], di_held = None, di_permits = max_inflight, di_running = [], di_log = lg\<rparr>"

text \<open>\<^verbatim>\<open>try_send\<close> by a flush: the job is queued, or failed with a 429 when the queue is full.\<close>

definition offer_job :: "env \<Rightarrow> nat \<Rightarrow> invocation_job \<Rightarrow> dispatcher \<Rightarrow> dispatcher" where
  "offer_job env max_pending job d =
     (if length (di_queue d) < queue_capacity max_pending then d\<lparr>di_queue := di_queue d @ [job]\<rparr>
      else d\<lparr>di_log := job_fail env 429 ''gateway overloaded'' job (di_log d)\<rparr>)"

interpretation invocation_queue: bounded_queue "offer_job env max_pending" di_queue "\<lambda>_. True" "queue_capacity max_pending"
  for env max_pending
  by unfold_locales (auto simp: offer_job_def)

datatype label = Offer invocation_job | Receive | Spawn | Finish nat

inductive dispatcher_step :: "ext \<Rightarrow> env \<Rightarrow> invoker \<Rightarrow> nat \<Rightarrow> dispatcher \<Rightarrow> label \<Rightarrow> dispatcher \<Rightarrow> bool"
  for x env invoker max_pending where
  offer: "dispatcher_step x env invoker max_pending d (Offer job) (offer_job env max_pending job d)"
| receive: "di_held d = None \<Longrightarrow> di_queue d = job # jobs \<Longrightarrow>
    dispatcher_step x env invoker max_pending d Receive (d\<lparr>di_queue := jobs, di_held := Some job\<rparr>)"
| spawn: "di_held d = Some job \<Longrightarrow> 0 < di_permits d \<Longrightarrow>
    dispatcher_step x env invoker max_pending d Spawn
      (d\<lparr>di_held := None, di_permits := di_permits d - 1, di_running := di_running d @ [job]\<rparr>)"
| finish: "k < length (di_running d) \<Longrightarrow>
    dispatcher_step x env invoker max_pending d (Finish k)
      (d\<lparr>di_running := take k (di_running d) @ drop (Suc k) (di_running d), di_permits := di_permits d + 1,
         di_log := run_invocation_job x env invoker (di_running d ! k) (di_log d)\<rparr>)"

inductive_simps dispatcher_step_simps:
  "dispatcher_step x env invoker mp d (Offer job) d'"
  "dispatcher_step x env invoker mp d Receive d'"
  "dispatcher_step x env invoker mp d Spawn d'"
  "dispatcher_step x env invoker mp d (Finish k) d'"

inductive_cases dispatcher_stepE: "dispatcher_step x env invoker mp d l d'"

text \<open>A run: the labels of its steps in order.\<close>

inductive dispatcher_run :: "ext \<Rightarrow> env \<Rightarrow> invoker \<Rightarrow> nat \<Rightarrow> dispatcher \<Rightarrow> label list \<Rightarrow> dispatcher \<Rightarrow> bool"
  for x env invoker max_pending where
  start: "dispatcher_run x env invoker max_pending d [] d"
| step: "dispatcher_run x env invoker max_pending d ls d' \<Longrightarrow> dispatcher_step x env invoker max_pending d' l d'' \<Longrightarrow>
    dispatcher_run x env invoker max_pending d (ls @ [l]) d''"

interpretation dispatching: machine "dispatcher_step x env invoker mp" "dispatcher_run x env invoker mp" for x env invoker mp
proof
  show "dispatcher_run x env invoker mp d [] d' \<longleftrightarrow> d' = d" for d d'
    by (auto elim: dispatcher_run.cases intro: dispatcher_run.start)
  show "dispatcher_run x env invoker mp d (ls @ [l]) d'' \<longleftrightarrow>
      (\<exists>d'. dispatcher_run x env invoker mp d ls d' \<and> dispatcher_step x env invoker mp d' l d'')" for d ls l d''
    by (auto elim: dispatcher_run.cases intro: dispatcher_run.step)
qed

definition offered :: "label list \<Rightarrow> invocation_job list" where
  "offered ls = concat (map (\<lambda>l. case l of Offer j \<Rightarrow> [j] | _ \<Rightarrow> []) ls)"

subsection \<open>Invariants\<close>

definition waiting_jobs :: "dispatcher \<Rightarrow> invocation_job list" where
  "waiting_jobs d = di_queue d @ (case di_held d of None \<Rightarrow> [] | Some j \<Rightarrow> [j]) @ di_running d"

definition dispatcher_total :: "dispatcher \<Rightarrow> chan multiset" where
  "dispatcher_total d = settled (di_log d) + jobs_owe (waiting_jobs d)"

definition dispatcher_ok :: "nat \<Rightarrow> nat \<Rightarrow> dispatcher \<Rightarrow> bool" where
  "dispatcher_ok max_inflight max_pending d \<longleftrightarrow>
     di_permits d + length (di_running d) = max_inflight \<and> length (di_queue d) \<le> queue_capacity max_pending \<and>
     list_all job_ok (waiting_jobs d)"

definition label_ok :: "label \<Rightarrow> bool" where
  "label_ok l = (case l of Offer j \<Rightarrow> job_ok j | _ \<Rightarrow> True)"

lemma offered_simps [simp]:
  "offered [] = []" "offered (Offer j # ls) = j # offered ls" "offered (Receive # ls) = offered ls"
  "offered (Spawn # ls) = offered ls" "offered (Finish k # ls) = offered ls" "offered (a @ b) = offered a @ offered b"
  by (simp_all add: offered_def)

lemma take_drop_jobs:
  assumes "k < length js"
  shows "jobs_owe js = job_owes (js ! k) + (jobs_owe (take k js) + jobs_owe (drop (Suc k) js))"
    "list_all job_ok js \<Longrightarrow> list_all job_ok (take k js) \<and> list_all job_ok (drop (Suc k) js) \<and> job_ok (js ! k)"
proof -
  have "jobs_owe js = jobs_owe (take k js @ js ! k # drop (Suc k) js)" using id_take_nth_drop[OF assms] by simp
  then show "jobs_owe js = job_owes (js ! k) + (jobs_owe (take k js) + jobs_owe (drop (Suc k) js))"
    by (simp add: union_ac)
  show "list_all job_ok js \<Longrightarrow> list_all job_ok (take k js) \<and> list_all job_ok (drop (Suc k) js) \<and> job_ok (js ! k)"
    using assms by (auto simp: list_all_iff dest: in_set_takeD in_set_dropD)
qed

lemma dispatcher_step_inv:
  assumes "dispatcher_step x env invoker mp d l d'" and "dispatcher_ok mi mp d" and "label_ok l"
  shows "dispatcher_ok mi mp d'" "dispatcher_total d' = dispatcher_total d + jobs_owe (offered [l])"
proof -
  have "dispatcher_ok mi mp d' \<and> dispatcher_total d' = dispatcher_total d + jobs_owe (offered [l])"
    using assms(1)
  proof cases
    case (offer job)
    with assms(2,3) invocation_queue.put_bounded[of d mp env job] show ?thesis
      by (auto simp: offer_job_def dispatcher_ok_def dispatcher_total_def waiting_jobs_def label_ok_def union_ac)
  next
    case (receive job jobs)
    with assms(2) show ?thesis
      by (auto simp: dispatcher_ok_def dispatcher_total_def waiting_jobs_def union_ac)
  next
    case (spawn job)
    with assms(2) show ?thesis
      by (auto simp: dispatcher_ok_def dispatcher_total_def waiting_jobs_def union_ac)
  next
    case (finish k)
    note td = take_drop_jobs[OF finish(3)]
    have r: "list_all job_ok (di_running d)" using assms(2) by (simp add: dispatcher_ok_def waiting_jobs_def)
    with td(2) have "settled (di_log d') = settled (di_log d) + job_owes (di_running d ! k)"
      by (simp add: finish(2) run_invocation_job_settled)
    with finish td r assms(2) show ?thesis
      by (auto simp: dispatcher_ok_def dispatcher_total_def waiting_jobs_def union_ac)
  qed
  then show "dispatcher_ok mi mp d'" "dispatcher_total d' = dispatcher_total d + jobs_owe (offered [l])" by blast+
qed

lemma dispatcher_run_inv:
  assumes "dispatcher_run x env invoker mp d ls d'" and "dispatcher_ok mi mp d" and "list_all label_ok ls"
  shows "dispatcher_ok mi mp d' \<and> dispatcher_total d' = dispatcher_total d + jobs_owe (offered ls)"
proof -
  have "list_all label_ok ls \<longrightarrow> dispatcher_ok mi mp d' \<and> dispatcher_total d' = dispatcher_total d + jobs_owe (offered ls)"
    using assms(1)
    by (rule dispatching.history_invariant) (use assms(2) dispatcher_step_inv[of x env invoker mp _ _ _ mi] in \<open>auto simp: union_ac\<close>)
  with assms(3) show ?thesis by blast
qed

lemma dispatcher_init_ok: "dispatcher_ok mi mp (dispatcher_init mi lg)"
  by (simp add: dispatcher_ok_def dispatcher_init_def waiting_jobs_def)

subsection \<open>Properties\<close>

text \<open>
  Property C20: at any moment of any run of the dispatcher, the invocations in flight and the free
  permits add up to the configured limit, the queue is within its capacity, and every offered job is
  accounted for: what has been settled and what is still waiting or running is exactly what was
  offered.
\<close>

theorem dispatcher_bounds:
  assumes "dispatcher_run x env invoker mp (dispatcher_init mi lg) ls d" and "list_all label_ok ls"
  shows "length (di_running d) \<le> mi \<and> di_permits d = mi - length (di_running d) \<and>
    length (di_queue d) \<le> queue_capacity mp \<and>
    settled (di_log d) + jobs_owe (waiting_jobs d) = settled lg + jobs_owe (offered ls)"
proof -
  have "dispatcher_total (dispatcher_init mi lg) = settled lg"
    by (simp add: dispatcher_total_def dispatcher_init_def waiting_jobs_def)
  with dispatcher_run_inv[OF assms(1) dispatcher_init_ok assms(2)] show ?thesis
    by (auto simp: dispatcher_ok_def dispatcher_total_def)
qed

definition sample_job :: "nat \<Rightarrow> invocation_job" where
  "sample_job n = JobBuffered sample_key 5 None [] [(show_nat n, n)]"

lemma sample_job_facts: "job_ok (sample_job n)" "job_owes (sample_job n) = {#n#}"
  by (simp_all add: sample_job_def hm_ok_def)

theorem dispatcher_bounds_witness:
  "\<exists>d. dispatcher_run plain_ext (\<lambda>n c. True) (\<lambda>f p m. Inl ''down'') 1 (dispatcher_init 1 [])
      [Offer (sample_job 1), Receive, Offer (sample_job 2), Offer (sample_job 3), Spawn, Finish 0] d
    \<and> settled (di_log d) + jobs_owe (waiting_jobs d) = {#1, 2, 3#}"
proof -
  let ?run = "dispatcher_run plain_ext (\<lambda>n c. True) (\<lambda>f p m. Inl ''down'') 1 (dispatcher_init 1 [])"
  let ?st = "dispatcher_step plain_ext (\<lambda>n c. True) (\<lambda>f p m. Inl ''down'') 1"
  let ?d = "\<lambda>q h p r lg. \<lparr>di_queue = q, di_held = h, di_permits = p, di_running = r, di_log = lg\<rparr>"
  let ?j1 = "sample_job 1" and ?j2 = "sample_job 2" and ?j3 = "sample_job 3"
  let ?l3 = "job_fail (\<lambda>n c. True) 429 ''gateway overloaded'' ?j3 []"
  let ?l = "run_invocation_job plain_ext (\<lambda>n c. True) (\<lambda>f p m. Inl ''down'') ?j1 ?l3"
  have steps: "?st (dispatcher_init 1 []) (Offer ?j1) (?d [?j1] None 1 [] [])"
    "?st (?d [?j1] None 1 [] []) Receive (?d [] (Some ?j1) 1 [] [])"
    "?st (?d [] (Some ?j1) 1 [] []) (Offer ?j2) (?d [?j2] (Some ?j1) 1 [] [])"
    "?st (?d [?j2] (Some ?j1) 1 [] []) (Offer ?j3) (?d [?j2] (Some ?j1) 1 [] ?l3)"
    "?st (?d [?j2] (Some ?j1) 1 [] ?l3) Spawn (?d [?j2] None 0 [?j1] ?l3)"
    "?st (?d [?j2] None 0 [?j1] ?l3) (Finish 0) (?d [?j2] None 1 [] ?l)"
    by (simp_all add: dispatcher_step_simps dispatcher_init_def offer_job_def queue_capacity_def)
  from step[OF step[OF step[OF step[OF step[OF step[OF start steps(1)] steps(2)] steps(3)] steps(4)] steps(5)] steps(6)]
  obtain d where d: "?run [Offer (sample_job 1), Receive, Offer (sample_job 2), Offer (sample_job 3), Spawn, Finish 0] d"
    by auto
  have "list_all label_ok [Offer (sample_job 1), Receive, Offer (sample_job 2), Offer (sample_job 3), Spawn, Finish 0]"
    by (simp add: label_ok_def sample_job_facts)
  from dispatcher_bounds[OF d this] d show ?thesis by (auto simp: sample_job_facts)
qed



end
