(* ===== verification/Lp_Protocol.thy ===== *)
theory Lp_Protocol
  imports Gw_Http "HOL-Library.Monad_Syntax"
begin

text \<open>
  The data of the Lambda layer proxy (\<^verbatim>\<open>bootstrap/layer-proxy/src\<close>): parsing the outer batch event
  (\<^verbatim>\<open>smug.rs\<close>), the NDJSON record it answers with (\<^verbatim>\<open>ndjson.rs\<close>), the conversion of a runtime's
  response (\<^verbatim>\<open>proxy.rs\<close>), and the header filters and result checks of the Runtime API client
  (\<^verbatim>\<open>runtime_api.rs\<close>).
\<close>

subsection \<open>The outer batch\<close>

record virtual_invocation =
  vi_id :: string
  vi_event_bytes :: bytes

record outer_batch_envelope =
  ob_v :: nat
  ob_batch :: "json list"

definition dec_envelope :: "json \<Rightarrow> outer_batch_envelope option" where
  "dec_envelope j = do {
     fs \<leftarrow> struct_view [''v'', ''batch''] j;
     v \<leftarrow> req_field ''v'' dec_u8 fs;
     b \<leftarrow> def_field ''batch'' (dec_list (Some \<circ> to_value)) [] fs;
     Some \<lparr>ob_v = v, ob_batch = b\<rparr>
   }"

definition item_id :: "json \<Rightarrow> string option" where
  "item_id item = do {
     c \<leftarrow> value_get item ''requestContext'';
     r \<leftarrow> value_get c ''requestId'';
     value_str r
   }"

fun parse_items :: "ext \<Rightarrow> json list \<Rightarrow> string list \<Rightarrow> ext_error + virtual_invocation list" where
  "parse_items x [] seen = Inr []"
| "parse_items x (item # items) seen =
     (case item_id item of
        None \<Rightarrow> Inl (Bail ''batch item missing requestContext.requestId'')
      | Some i \<Rightarrow>
          if i \<in> set seen
          then Inl (Bail (''duplicate requestContext.requestId in batch ('' @ i @ '')''))
          else res_bind (to_vec x item) (\<lambda>event_bytes.
               res_bind (parse_items x items (i # seen)) (\<lambda>out.
                 Inr (\<lparr>vi_id = i, vi_event_bytes = event_bytes\<rparr> # out))))"

definition parse_outer_smug_batch :: "ext \<Rightarrow> bytes \<Rightarrow> ext_error + virtual_invocation list option" where
  "parse_outer_smug_batch x body =
     (case from_slice x dec_envelope body of
        Inl _ \<Rightarrow> Inr None
      | Inr env \<Rightarrow>
          if ob_v env \<noteq> 1 then Inr None
          else if ob_batch env = [] then Inr (Some [])
          else res_bind (parse_items x (ob_batch env) []) (\<lambda>out. Inr (Some out)))"

subsection \<open>Response records\<close>

record lp_record =
  lp_v :: nat
  lp_id :: string
  lp_status_code :: nat
  lp_headers :: "(string, string) hashmap"
  lp_cookies :: "string list"
  lp_body :: string
  lp_is_base64_encoded :: bool

definition enc_lp_record :: "lp_record \<Rightarrow> json" where
  "enc_lp_record r = JObj
     [(''v'', JInt (int (lp_v r))), (''id'', JStr (lp_id r)), (''statusCode'', JInt (int (lp_status_code r))),
      (''headers'', enc_str_map (lp_headers r)), (''cookies'', enc_str_list (lp_cookies r)),
      (''body'', JStr (lp_body r)), (''isBase64Encoded'', JBool (lp_is_base64_encoded r))]"

definition encode_record_line :: "ext \<Rightarrow> lp_record \<Rightarrow> ext_error + bytes" where
  "encode_record_line x r = res_bind (to_vec x (enc_lp_record r)) (\<lambda>out. Inr (out @ [CHR 0x0A]))"

text \<open>\<^verbatim>\<open>ApiGwV2Response\<close>, already with the version and id the record gets.\<close>

definition dec_apigw_v2_response :: "string \<Rightarrow> json \<Rightarrow> lp_record option" where
  "dec_apigw_v2_response i j = do {
     fs \<leftarrow> struct_view [''statusCode'', ''headers'', ''cookies'', ''body'', ''isBase64Encoded''] j;
     status_code \<leftarrow> req_field ''statusCode'' dec_u16 fs;
     hs \<leftarrow> def_field ''headers'' dec_str_map [] fs;
     cookies \<leftarrow> def_field ''cookies'' (dec_list dec_string) [] fs;
     b \<leftarrow> def_field ''body'' dec_string [] fs;
     is_base64 \<leftarrow> def_field ''isBase64Encoded'' dec_bool False fs;
     Some \<lparr>lp_v = 1, lp_id = i, lp_status_code = status_code, lp_headers = hs, lp_cookies = cookies,
           lp_body = b, lp_is_base64_encoded = is_base64\<rparr>
   }"

definition parse_apigw_v2_response :: "ext \<Rightarrow> string \<Rightarrow> bytes \<Rightarrow> ext_error + lp_record" where
  "parse_apigw_v2_response x i body = from_slice x (dec_apigw_v2_response i) body"

definition error_record :: "string \<Rightarrow> nat \<Rightarrow> lp_record" where
  "error_record i status_code =
     \<lparr>lp_v = 1, lp_id = i, lp_status_code = status_code, lp_headers = [], lp_cookies = [], lp_body = [],
      lp_is_base64_encoded = False\<rparr>"

subsection \<open>Headers and the Runtime API client\<close>

definition header_remove :: "string \<Rightarrow> header_map \<Rightarrow> header_map" where
  "header_remove n h = filter (\<lambda>p. fst p \<noteq> n) h"

definition header_get :: "string \<Rightarrow> header_map \<Rightarrow> string option" where
  "header_get n h = map_of h n"

definition sanitize_next_headers :: "header_map \<Rightarrow> header_map" where
  "sanitize_next_headers h =
     header_remove ''connection'' (header_remove ''transfer-encoding'' (header_remove ''content-length'' h))"

definition forward_headers :: "header_map \<Rightarrow> header_map" where
  "forward_headers h = filter (\<lambda>(k, v).
     \<not> (to_ascii_lowercase k = ''host'' \<or> to_ascii_lowercase k = ''connection''
        \<or> to_ascii_lowercase k = ''content-length'' \<or> to_ascii_lowercase k = ''transfer-encoding'')) h"

text \<open>An HTTP exchange: a transport error, or status, headers and the body or its error.\<close>

type_synonym http_result = "string + (nat \<times> header_map \<times> (string + bytes))"

definition is_success :: "nat \<Rightarrow> bool" where
  "is_success status \<longleftrightarrow> 200 \<le> status \<and> status < 300"

record next_invocation =
  ni_request_id :: string
  ni_headers :: header_map
  ni_body :: bytes

definition request_id_header :: string where
  "request_id_header = ''lambda-runtime-aws-request-id''"

definition response_mode_header :: string where
  "response_mode_header = ''lambda-runtime-function-response-mode''"

definition next_invocation_of :: "ext \<Rightarrow> http_result \<Rightarrow> string + next_invocation" where
  "next_invocation_of x resp =
     (case resp of
        Inl err \<Rightarrow> Inl err
      | Inr (status, h, b) \<Rightarrow>
          if \<not> is_success status then Inl (''upstream /next failed (status '' @ show_nat status @ '')'')
          else (case header_get request_id_header h of
              None \<Rightarrow> Inl ''upstream /next missing Lambda-Runtime-Aws-Request-Id''
            | Some v \<Rightarrow>
                if \<not> x_to_str x v then Inl ''upstream /next missing Lambda-Runtime-Aws-Request-Id''
                else (case b of
                    Inl err \<Rightarrow> Inl err
                  | Inr body \<Rightarrow> Inr \<lparr>ni_request_id = v, ni_headers = h, ni_body = body\<rparr>)))"

definition upstream_path :: "string \<Rightarrow> string \<Rightarrow> string" where
  "upstream_path i what = ''/2018-06-01/runtime/invocation/'' @ i @ ''/'' @ what"

subsection \<open>Facts\<close>

lemma parse_items_Inr:
  "parse_items x items seen = Inr vs \<Longrightarrow>
   map item_id items = map (Some \<circ> vi_id) vs \<and> distinct (map vi_id vs) \<and> set (map vi_id vs) \<inter> set seen = {} \<and>
   map (x_json_print x) items = map (Some \<circ> vi_event_bytes) vs"
proof (induction x items seen arbitrary: vs rule: parse_items.induct)
  case (2 x item items seen)
  from "2.prems" obtain i b out where i: "item_id item = Some i" "i \<notin> set seen" "to_vec x item = Inr b"
    "parse_items x items (i # seen) = Inr out" "vs = \<lparr>vi_id = i, vi_event_bytes = b\<rparr> # out"
    by (auto split: option.splits if_splits simp: res_bind_Inr_iff)
  from "2.IH"[OF i(1,2,4)] i show ?case by (auto simp: to_vec_def ok_or_Inr_iff)
qed simp

lemma parse_items_total:
  assumes "\<And>j. j \<in> set items \<Longrightarrow> x_json_print x j \<noteq> None"
    and "map item_id items = map Some ids" and "distinct ids" and "set ids \<inter> set seen = {}"
  shows "\<exists>vs. parse_items x items seen = Inr vs \<and> map vi_id vs = ids"
  using assms
proof (induction items arbitrary: ids seen)
  case (Cons j items)
  then obtain i ids' where ids: "ids = i # ids'" "item_id j = Some i" "map item_id items = map Some ids'"
    by (cases ids) auto
  obtain b where b: "x_json_print x j = Some b" using Cons.prems(1)[of j] by auto
  from Cons.IH[of ids' "i # seen"] Cons.prems ids obtain vs where
    "parse_items x items (i # seen) = Inr vs" "map vi_id vs = ids'" by auto
  with ids b Cons.prems(4) show ?case by (auto simp: to_vec_def)
qed simp

lemma sanitize_next_headers_get:
  "header_get_all n (sanitize_next_headers h) =
     (if n \<in> {''content-length'', ''transfer-encoding'', ''connection''} then [] else header_get_all n h)"
  by (auto simp: sanitize_next_headers_def header_remove_def header_get_all_def filter_empty_conv
      intro!: arg_cong[where f = "map snd"] filter_cong)

end
