(* ===== verification/Lp_Client.thy ===== *)
theory Lp_Client
  imports Lp_Protocol
begin

text \<open>
  The HTTP calls of the layer proxy: the Runtime API client (\<^verbatim>\<open>runtime_api.rs\<close>), the fallback
  route that passes other requests through (\<^verbatim>\<open>proxy.rs\<close>), and the configuration (\<^verbatim>\<open>config.rs\<close>).
  The network is a function from requests to results, a parameter of the definitions that call it.
\<close>

subsection \<open>Requests\<close>

record http_request =
  rq_method :: string
  rq_url :: string
  rq_headers :: header_map
  rq_body :: bytes

type_synonym network = "http_request \<Rightarrow> http_result"

definition empty_request :: "string \<Rightarrow> string \<Rightarrow> http_request" where
  "empty_request method url = \<lparr>rq_method = method, rq_url = url, rq_headers = [], rq_body = []\<rparr>"

subsection \<open>The client\<close>

definition next_invocation_call :: "ext \<Rightarrow> network \<Rightarrow> string \<Rightarrow> string + next_invocation" where
  "next_invocation_call x send base_url =
     next_invocation_of x (send (empty_request ''GET'' (base_url @ ''/2018-06-01/runtime/invocation/next'')))"

definition forwarded_request :: "string \<Rightarrow> string \<Rightarrow> string \<Rightarrow> header_map \<Rightarrow> bytes \<Rightarrow> http_request" where
  "forwarded_request base_url method path_and_query h b =
     \<lparr>rq_method = method, rq_url = base_url @ path_and_query, rq_headers = forward_headers h, rq_body = b\<rparr>"

definition status_from :: "ext \<Rightarrow> nat \<Rightarrow> string + nat" where
  "status_from x status = (if x_status x status then Inr status else Inl (show_err x (BadStatus status)))"

definition forward_invocation_call :: "ext \<Rightarrow> network \<Rightarrow> string \<Rightarrow> string \<Rightarrow> string \<Rightarrow> header_map \<Rightarrow> bytes \<Rightarrow>
    string + nat" where
  "forward_invocation_call x send base_url method path_and_query h b =
     (case send (forwarded_request base_url method path_and_query h b) of
        Inl err \<Rightarrow> Inl err
      | Inr (status, _, _) \<Rightarrow> status_from x status)"

definition forward_request :: "ext \<Rightarrow> network \<Rightarrow> string \<Rightarrow> string \<Rightarrow> string \<Rightarrow> header_map \<Rightarrow> bytes \<Rightarrow>
    string + (nat \<times> header_map \<times> bytes)" where
  "forward_request x send base_url method path_and_query h b =
     (case send (forwarded_request base_url method path_and_query h b) of
        Inl err \<Rightarrow> Inl err
      | Inr (status, rh, rb) \<Rightarrow>
          (case status_from x status of
             Inl err \<Rightarrow> Inl err
           | Inr status \<Rightarrow> (case rb of Inl err \<Rightarrow> Inl err | Inr body \<Rightarrow> Inr (status, rh, body))))"

text \<open>The streamed response: its request, and what is made of the answer. \<open>out\<close> is the joined body.\<close>

definition streaming_request :: "string \<Rightarrow> string \<Rightarrow> string \<Rightarrow> bytes \<Rightarrow> http_request" where
  "streaming_request base_url request_id content_type out =
     \<lparr>rq_method = ''POST'', rq_url = base_url @ ''/2018-06-01/runtime/invocation/'' @ request_id @ ''/response'',
      rq_headers = [(response_mode_header, ''streaming''), (''transfer-encoding'', ''chunked''),
                    (''content-type'', content_type)],
      rq_body = out\<rparr>"

definition streaming_response :: "network \<Rightarrow> string \<Rightarrow> string \<Rightarrow> string \<Rightarrow> bytes \<Rightarrow> string + unit" where
  "streaming_response send base_url request_id content_type out =
     (case send (streaming_request base_url request_id content_type out) of
        Inl err \<Rightarrow> Inl err
      | Inr (status, _, _) \<Rightarrow>
          if is_success status then Inr ()
          else Inl (''upstream /response failed (status '' @ show_nat status @ '')''))"

definition register_extension :: "ext \<Rightarrow> network \<Rightarrow> string \<Rightarrow> string \<Rightarrow> bytes \<Rightarrow> string + string" where
  "register_extension x send base_url name events =
     (case send \<lparr>rq_method = ''POST'', rq_url = base_url @ ''/2020-01-01/extension/register'',
                rq_headers = [(''lambda-extension-name'', name), (''content-type'', ''application/json'')],
                rq_body = events\<rparr> of
        Inl err \<Rightarrow> Inl err
      | Inr (status, h, _) \<Rightarrow>
          if \<not> is_success status then Inl (''extension register failed (status '' @ show_nat status @ '')'')
          else (case header_get ''lambda-extension-identifier'' h of
              Some v \<Rightarrow> if x_to_str x v then Inr v else Inl ''missing Lambda-Extension-Identifier header''
            | None \<Rightarrow> Inl ''missing Lambda-Extension-Identifier header''))"

definition next_extension_event :: "network \<Rightarrow> string \<Rightarrow> string \<Rightarrow> string + bytes" where
  "next_extension_event send base_url extension_id =
     (case send ((empty_request ''GET'' (base_url @ ''/2020-01-01/extension/event/next''))
                  \<lparr>rq_headers := [(''lambda-extension-identifier'', extension_id)]\<rparr>) of
        Inl err \<Rightarrow> Inl err
      | Inr (status, _, b) \<Rightarrow>
          if is_success status then b
          else Inl (''extension event/next failed (status '' @ show_nat status @ '')''))"

subsection \<open>The fallback route\<close>

text \<open>\<open>body\<close> is the request body as read within the limit of ten megabytes, or None when that failed.\<close>

record http_response =
  ht_status :: nat
  ht_headers :: header_map
  ht_body :: bytes

definition response_from_bytes :: "nat \<Rightarrow> header_map \<Rightarrow> bytes \<Rightarrow> http_response" where
  "response_from_bytes status h b = \<lparr>ht_status = status, ht_headers = h, ht_body = b\<rparr>"

definition max_forward_body_bytes :: nat where
  "max_forward_body_bytes = 10 * 1024 * 1024"

definition read_forward_body :: "bytes option \<Rightarrow> bytes option" where
  "read_forward_body body =
     (case body of Some b \<Rightarrow> if length b \<le> max_forward_body_bytes then Some b else None | None \<Rightarrow> None)"

definition handle_fallback :: "ext \<Rightarrow> network \<Rightarrow> string \<Rightarrow> string \<Rightarrow> string \<Rightarrow> header_map \<Rightarrow> bytes option \<Rightarrow>
    nat + http_response" where
  "handle_fallback x send base_url method path_and_query h body =
     (case read_forward_body body of
        None \<Rightarrow> Inl 502
      | Some b \<Rightarrow>
          (case forward_request x send base_url method path_and_query h b of
             Inl err \<Rightarrow> Inl 502
           | Inr (status, rh, rb) \<Rightarrow> Inr (response_from_bytes status (sanitize_next_headers rh) rb)))"

subsection \<open>Configuration\<close>

record 'addr lp_config =
  lc_proxy_addr :: 'addr
  lc_upstream_runtime_api :: string

definition lp_config_from_env :: "(string \<Rightarrow> 'addr option) \<Rightarrow> (string \<Rightarrow> string option) \<Rightarrow> string + 'addr lp_config" where
  "lp_config_from_env parse_addr env =
     (let proxy_addr = (case env ''SMUG_PROXY_ADDR'' of Some v \<Rightarrow> v | None \<Rightarrow> ''127.0.0.1:9009'')
      in case parse_addr proxy_addr of
           None \<Rightarrow> Inl (''invalid SMUG_PROXY_ADDR ('' @ proxy_addr @ '')'')
         | Some addr \<Rightarrow>
             (case (case env ''SMUG_UPSTREAM_RUNTIME_API'' of Some v \<Rightarrow> Some v | None \<Rightarrow> env ''AWS_LAMBDA_RUNTIME_API'') of
                None \<Rightarrow> Inl ''missing SMUG_UPSTREAM_RUNTIME_API and AWS_LAMBDA_RUNTIME_API''
              | Some api \<Rightarrow> Inr \<lparr>lc_proxy_addr = addr, lc_upstream_runtime_api = api\<rparr>))"

definition upstream_base_url :: "'addr lp_config \<Rightarrow> string" where
  "upstream_base_url cfg = ''http://'' @ lc_upstream_runtime_api cfg"

subsection \<open>Facts\<close>

definition hop_names :: "string set" where
  "hop_names = {''host'', ''connection'', ''content-length'', ''transfer-encoding''}"

lemma forward_headers_eq: "forward_headers h = filter (\<lambda>p. to_ascii_lowercase (fst p) \<notin> hop_names) h"
  by (auto simp: forward_headers_def hop_names_def split_beta intro!: filter_cong)

lemma forward_request_Inr:
  "forward_request x send base_url m p h b = Inr r \<longleftrightarrow>
   (\<exists>s rh rb. send (forwarded_request base_url m p h b) = Inr (s, rh, Inr rb) \<and> x_status x s \<and> r = (s, rh, rb))"
  by (auto simp: forward_request_def status_from_def split: sum.splits if_splits)

text \<open>
  The fallback route is transparent. It answers exactly when the body could be read
  within the limit and the upstream call gave a complete response; the upstream then saw the same
  method, path and body and every header in order except host, connection, content-length and
  transfer-encoding, and the runtime gets the upstream's status and body, and for every header name
  except those of the connection the same values in the same order. Every other outcome is a 502.
\<close>

theorem handle_fallback_transparent:
  "(\<forall>e. handle_fallback x send base_url m p h body = Inl e \<longrightarrow> e = 502) \<and>
   (\<forall>r. handle_fallback x send base_url m p h body = Inr r \<longleftrightarrow>
     (\<exists>b s rh rb. body = Some b \<and> length b \<le> 10485760 \<and> x_status x s \<and>
        send \<lparr>rq_method = m, rq_url = base_url @ p,
              rq_headers = filter (\<lambda>q. to_ascii_lowercase (fst q) \<notin> hop_names) h, rq_body = b\<rparr> = Inr (s, rh, Inr rb) \<and>
        r = \<lparr>ht_status = s, ht_headers = sanitize_next_headers rh, ht_body = rb\<rparr>)) \<and>
   (\<forall>rh n. header_get_all n (sanitize_next_headers rh) =
      (if n \<in> {''content-length'', ''transfer-encoding'', ''connection''} then [] else header_get_all n rh))"
proof -
  have eq: "forwarded_request base_url m p h b = \<lparr>rq_method = m, rq_url = base_url @ p,
      rq_headers = filter (\<lambda>q. to_ascii_lowercase (fst q) \<notin> hop_names) h, rq_body = b\<rparr>" for b
    by (simp add: forwarded_request_def forward_headers_eq)
  have rd: "read_forward_body body = Some b \<longleftrightarrow> body = Some b \<and> length b \<le> 10485760" for b
    by (auto simp: read_forward_body_def max_forward_body_bytes_def split: option.splits)
  have err: "handle_fallback x send base_url m p h body = Inl e \<Longrightarrow> e = 502" for e
    by (auto simp: handle_fallback_def split: option.splits sum.splits)
  have "handle_fallback x send base_url m p h body = Inr r \<longleftrightarrow>
      (\<exists>b s rh rb. read_forward_body body = Some b \<and>
        forward_request x send base_url m p h b = Inr (s, rh, rb) \<and>
        r = response_from_bytes s (sanitize_next_headers rh) rb)" for r
    by (simp add: handle_fallback_def split: option.splits sum.splits) blast
  then have "handle_fallback x send base_url m p h body = Inr r \<longleftrightarrow>
     (\<exists>b s rh rb. body = Some b \<and> length b \<le> 10485760 \<and> x_status x s \<and>
        send \<lparr>rq_method = m, rq_url = base_url @ p,
              rq_headers = filter (\<lambda>q. to_ascii_lowercase (fst q) \<notin> hop_names) h, rq_body = b\<rparr> = Inr (s, rh, Inr rb) \<and>
        r = \<lparr>ht_status = s, ht_headers = sanitize_next_headers rh, ht_body = rb\<rparr>)" for r
    unfolding rd forward_request_Inr eq response_from_bytes_def by blast
  with err sanitize_next_headers_get show ?thesis by blast
qed

theorem handle_fallback_transparent_witness:
  "handle_fallback plain_ext (\<lambda>rq. Inr (204, [(''connection'', ''close'')] @ rq_headers rq, Inr (rq_body rq)))
     ''u'' ''POST'' ''/p'' [(''host'', ''h''), (''a'', ''v'')] (Some ''body'') =
   Inr \<lparr>ht_status = 204, ht_headers = [(''a'', ''v'')], ht_body = ''body''\<rparr>"
  by (rule handle_fallback_transparent[THEN conjunct2, THEN conjunct1, THEN spec, THEN iffD2], rule exI[of _ "''body''"],
      rule exI[of _ 204], rule exI[of _ "[(''connection'', ''close''), (''a'', ''v'')]"], rule exI[of _ "''body''"])
    (simp add: sanitize_next_headers_def header_remove_def hop_names_def to_ascii_lowercase_def ascii_lower_def plain_ext_def)

end
