(* ===== verification/Lp_Proxy.thy ===== *)
theory Lp_Proxy
  imports Lp_Client Gw_Machine
begin

text \<open>
  The state machine of the layer proxy (\<^verbatim>\<open>bootstrap/layer-proxy/src/proxy.rs\<close> and
  \<^verbatim>\<open>state.rs\<close>): one outer invocation at a time, handed to the runtime either unchanged or as a
  queue of virtual invocations whose responses are streamed back as NDJSON records.

  A handler that holds the state lock is one function. What happens between two locks (the fetch of
  the next invocation, a forwarded completion, the end of a streamed response) is in flight in the
  model's state and ends in a step of its own. The waiting on \<^verbatim>\<open>Notify\<close> is left out: a step is
  possible whenever its handler would act, whether or not somebody is awake to take it.
\<close>

subsection \<open>State\<close>

record pass_through =
  pt_request_id :: string
  pt_headers :: header_map
  pt_body :: bytes
  pt_delivered :: bool

text \<open>
  \<open>sb_stream\<close> stands for \<^verbatim>\<open>stream_tx\<close> and \<^verbatim>\<open>stream_join\<close>, which are set and taken together: the
  number of the upstream response stream. \<^verbatim>\<open>inflight\<close> is a set, kept as a list without repetition.
\<close>

record smug_batch =
  sb_outer_request_id :: string
  sb_base_headers :: header_map
  sb_queue :: "virtual_invocation list"
  sb_inflight :: "string list"
  sb_stream :: "nat option"

datatype active =
    AcNone
  | AcPassThrough pass_through
  | AcSmugBatch smug_batch
  | AcSmugFinalizing

text \<open>
  A streamed response of an outer invocation, as the upstream API sees it: the lines sent, each with
  the id of its record, and whether the body is closed. \<open>us_ids\<close> remembers the ids of the batch;
  no handler reads it.
\<close>

record upstream_stream =
  us_request_id :: string
  us_ids :: "string list"
  us_lines :: "(string \<times> bytes) list"
  us_closed :: bool

record proxy =
  px_fetching :: bool
  px_active :: active
  px_streams :: "upstream_stream list"
  px_forwards :: nat
  px_finalizers :: "nat list"

definition proxy_init :: proxy where
  "proxy_init = \<lparr>px_fetching = False, px_active = AcNone, px_streams = [], px_forwards = 0, px_finalizers = []\<rparr>"

subsection \<open>Taking the next invocation\<close>

definition try_take_next :: "ext \<Rightarrow> proxy \<Rightarrow> (nat + http_response option) \<times> proxy" where
  "try_take_next x p =
     (case px_active p of
        AcPassThrough pass \<Rightarrow>
          if pt_delivered pass then (Inr None, p)
          else (Inr (Some (response_from_bytes 200 (pt_headers pass) (pt_body pass))),
                p\<lparr>px_active := AcPassThrough (pass\<lparr>pt_delivered := True\<rparr>)\<rparr>)
      | AcSmugBatch batch \<Rightarrow>
          (case sb_queue batch of
             [] \<Rightarrow> (Inr None, p)
           | vi # queue \<Rightarrow>
               let p = p\<lparr>px_active := AcSmugBatch (batch\<lparr>sb_queue := queue,
                           sb_inflight := List.insert (vi_id vi) (sb_inflight batch)\<rparr>)\<rparr>
               in if \<not> x_header_value x (vi_id vi) then (Inl 502, p)
                  else (Inr (Some (response_from_bytes 200
                          (header_insert request_id_header (vi_id vi) (sb_base_headers batch))
                          (vi_event_bytes vi))), p))
      | AcNone \<Rightarrow> (Inr None, p)
      | AcSmugFinalizing \<Rightarrow> (Inr None, p))"

text \<open>The decision to fetch, and what is done with the result of the fetch.\<close>

definition begin_fetch :: "proxy \<Rightarrow> bool \<times> proxy" where
  "begin_fetch p =
     (if px_active p = AcNone then (\<not> px_fetching p, p\<lparr>px_fetching := True\<rparr>) else (False, p))"

definition finish_fetch :: "ext \<Rightarrow> string + next_invocation \<Rightarrow> proxy \<Rightarrow> (nat + unit) \<times> proxy" where
  "finish_fetch x fetched p0 =
     (let p = p0\<lparr>px_fetching := False\<rparr>
      in case fetched of
           Inl err \<Rightarrow> (Inl 502, p)
         | Inr nxt \<Rightarrow>
             (let h = sanitize_next_headers (ni_headers nxt)
              in case parse_outer_smug_batch x (ni_body nxt) of
                   Inl err \<Rightarrow> (Inl 502, p)
                 | Inr (Some virtuals) \<Rightarrow>
                     (Inr (), p\<lparr>px_active := AcSmugBatch
                          \<lparr>sb_outer_request_id = ni_request_id nxt,
                           sb_base_headers = header_remove response_mode_header h,
                           sb_queue = virtuals, sb_inflight = [],
                           sb_stream = Some (length (px_streams p))\<rparr>,
                        px_streams := px_streams p @
                          [\<lparr>us_request_id = ni_request_id nxt, us_ids = map vi_id virtuals,
                            us_lines = [], us_closed = False\<rparr>]\<rparr>)
                 | Inr None \<Rightarrow>
                     (Inr (), p\<lparr>px_active := AcPassThrough
                          \<lparr>pt_request_id = ni_request_id nxt, pt_headers = ni_headers nxt,
                           pt_body = ni_body nxt, pt_delivered = False\<rparr>\<rparr>)))"

subsection \<open>Completions\<close>

datatype completion_kind = CkResponse header_map bytes | CkError header_map bytes

datatype completion_outcome =
    ForwardToUpstream string header_map bytes
  | HandledLocally "nat option"

definition update_stream :: "nat \<Rightarrow> (upstream_stream \<Rightarrow> upstream_stream) \<Rightarrow> proxy \<Rightarrow> proxy" where
  "update_stream i f p = p\<lparr>px_streams := (px_streams p)[i := f (px_streams p ! i)]\<rparr>"

definition completion_record :: "ext \<Rightarrow> string \<Rightarrow> completion_kind \<Rightarrow> lp_record" where
  "completion_record x i kind =
     (case kind of
        CkResponse _ body \<Rightarrow>
          (case parse_apigw_v2_response x i body of Inr r \<Rightarrow> r | Inl _ \<Rightarrow> error_record i 502)
      | CkError _ _ \<Rightarrow> error_record i 500)"

definition handle_completion_inner :: "ext \<Rightarrow> string \<Rightarrow> completion_kind \<Rightarrow> proxy \<Rightarrow>
    (nat + completion_outcome) \<times> proxy" where
  "handle_completion_inner x i kind p =
     (case px_active p of
        AcPassThrough pass \<Rightarrow>
          if i \<noteq> pt_request_id pass then (Inr (HandledLocally None), p)
          else (case kind of
              CkResponse h b \<Rightarrow> (Inr (ForwardToUpstream (upstream_path i ''response'') h b), p)
            | CkError h b \<Rightarrow> (Inr (ForwardToUpstream (upstream_path i ''error'') h b), p))
      | AcSmugBatch batch \<Rightarrow>
          if i \<notin> set (sb_inflight batch) then (Inr (HandledLocally None), p)
          else
            (let batch = batch\<lparr>sb_inflight := remove1 i (sb_inflight batch)\<rparr>;
                 p = p\<lparr>px_active := AcSmugBatch batch\<rparr>
             in case encode_record_line x (completion_record x i kind) of
                  Inl _ \<Rightarrow> (Inl 502, p)
                | Inr line \<Rightarrow>
                    (let p = (case sb_stream batch of
                          Some s \<Rightarrow> update_stream s (\<lambda>u. u\<lparr>us_lines := us_lines u @ [(i, line)]\<rparr>) p
                        | None \<Rightarrow> p)
                     in if \<not> (sb_queue batch = [] \<and> sb_inflight batch = [])
                        then (Inr (HandledLocally None), p)
                        else (Inr (HandledLocally (sb_stream batch)),
                              (case sb_stream batch of
                                 Some s \<Rightarrow> update_stream s (\<lambda>u. u\<lparr>us_closed := True\<rparr>) p
                               | None \<Rightarrow> p)\<lparr>px_active := AcSmugFinalizing\<rparr>)))
      | AcNone \<Rightarrow> (Inr (HandledLocally None), p)
      | AcSmugFinalizing \<Rightarrow> (Inr (HandledLocally None), p))"

text \<open>
  What \<^verbatim>\<open>handle_response\<close> and \<^verbatim>\<open>handle_error\<close> start with the outcome: a forwarded call, or the task
  that waits for the streamed response to end; and what they do when that is over.
\<close>

definition start_completion :: "nat + completion_outcome \<Rightarrow> proxy \<Rightarrow> proxy" where
  "start_completion out p =
     (case out of
        Inr (ForwardToUpstream _ _ _) \<Rightarrow> p\<lparr>px_forwards := Suc (px_forwards p)\<rparr>
      | Inr (HandledLocally (Some s)) \<Rightarrow> p\<lparr>px_finalizers := px_finalizers p @ [s]\<rparr>
      | _ \<Rightarrow> p)"

text \<open>The status the handler answers at once; None when it waits for the forwarded call.\<close>

definition completion_reply :: "nat + completion_outcome \<Rightarrow> nat option" where
  "completion_reply out =
     (case out of Inl st \<Rightarrow> Some st | Inr (HandledLocally _) \<Rightarrow> Some 202 | Inr (ForwardToUpstream _ _ _) \<Rightarrow> None)"

definition handle_response :: "ext \<Rightarrow> string \<Rightarrow> header_map \<Rightarrow> bytes \<Rightarrow> proxy \<Rightarrow> nat option \<times> proxy" where
  "handle_response x i h b p =
     (case handle_completion_inner x i (CkResponse h b) p of (out, p') \<Rightarrow> (completion_reply out, start_completion out p'))"

definition handle_error :: "ext \<Rightarrow> string \<Rightarrow> header_map \<Rightarrow> bytes \<Rightarrow> proxy \<Rightarrow> nat option \<times> proxy" where
  "handle_error x i h b p =
     (case handle_completion_inner x i (CkError h b) p of (out, p') \<Rightarrow> (completion_reply out, start_completion out p'))"

definition forward_done :: "string + nat \<Rightarrow> proxy \<Rightarrow> nat \<times> proxy" where
  "forward_done res p0 =
     (let p = p0\<lparr>px_forwards := px_forwards p0 - 1\<rparr>
      in case res of
           Inl _ \<Rightarrow> (502, p)
         | Inr status \<Rightarrow> if is_success status then (202, p\<lparr>px_active := AcNone\<rparr>) else (502, p))"

definition finalize_task :: "proxy \<Rightarrow> proxy" where
  "finalize_task p = p\<lparr>px_finalizers := tl (px_finalizers p), px_active := AcNone\<rparr>"

subsection \<open>Steps\<close>

datatype proxy_label =
    Deliver http_response
  | TakeFailed nat
  | BeginFetch
  | EndFetch "string + next_invocation"
  | Complete string completion_kind
  | ForwardDone "string + nat"
  | Finalized

inductive proxy_step :: "ext \<Rightarrow> proxy \<Rightarrow> proxy_label \<Rightarrow> proxy \<Rightarrow> bool" for x where
  deliver: "try_take_next x p = (Inr (Some r), p') \<Longrightarrow> proxy_step x p (Deliver r) p'"
| take_failed: "try_take_next x p = (Inl st, p') \<Longrightarrow> proxy_step x p (TakeFailed st) p'"
| begin_fetch: "begin_fetch p = (True, p') \<Longrightarrow> proxy_step x p BeginFetch p'"
| end_fetch: "px_fetching p \<Longrightarrow> finish_fetch x f p = (r, p') \<Longrightarrow> proxy_step x p (EndFetch f) p'"
| complete: "handle_completion_inner x i kind p = (out, p') \<Longrightarrow>
    proxy_step x p (Complete i kind) (start_completion out p')"
| forward_done: "0 < px_forwards p \<Longrightarrow> forward_done res p = (st, p') \<Longrightarrow> proxy_step x p (ForwardDone res) p'"
| finalized: "px_finalizers p \<noteq> [] \<Longrightarrow> proxy_step x p Finalized (finalize_task p)"

inductive_cases proxy_stepE: "proxy_step x p l p'"

inductive_simps proxy_step_simps:
  "proxy_step x p (Deliver r) p'"
  "proxy_step x p (TakeFailed st) p'"
  "proxy_step x p BeginFetch p'"
  "proxy_step x p (EndFetch f) p'"
  "proxy_step x p (Complete i kind) p'"
  "proxy_step x p (ForwardDone res) p'"
  "proxy_step x p Finalized p'"

text \<open>Runs, with a guard that restricts what the environment does.\<close>

inductive proxy_run :: "ext \<Rightarrow> (proxy \<Rightarrow> proxy_label \<Rightarrow> bool) \<Rightarrow> proxy \<Rightarrow> proxy_label list \<Rightarrow> proxy \<Rightarrow> bool"
  for x guard where
  start: "proxy_run x guard p [] p"
| step: "proxy_run x guard p ls p' \<Longrightarrow> guard p' l \<Longrightarrow> proxy_step x p' l p'' \<Longrightarrow> proxy_run x guard p (ls @ [l]) p''"

interpretation proxying: machine "\<lambda>p l p'. guard p l \<and> proxy_step x p l p'" "proxy_run x guard" for x guard
proof
  show "proxy_run x guard p [] p' \<longleftrightarrow> p' = p" for p p'
    by (auto elim: proxy_run.cases intro: proxy_run.start)
  show "proxy_run x guard p (ls @ [l]) p'' \<longleftrightarrow> (\<exists>p'. proxy_run x guard p ls p' \<and> guard p' l \<and> proxy_step x p' l p'')" for p ls l p''
    by (auto elim: proxy_run.cases intro: proxy_run.step)
qed

text \<open>No completion arrives while an earlier one is still being forwarded upstream.\<close>

definition calm :: "proxy \<Rightarrow> proxy_label \<Rightarrow> bool" where
  "calm p l \<longleftrightarrow> (\<forall>i kind. l = Complete i kind \<longrightarrow> px_forwards p = 0)"

definition any_label :: "proxy \<Rightarrow> proxy_label \<Rightarrow> bool" where
  "any_label p l \<longleftrightarrow> True"

subsection \<open>The invariant\<close>

text \<open>Every record can be printed, which is what \<^verbatim>\<open>serde_json\<close> promises for such a struct.\<close>

definition prints :: "ext \<Rightarrow> bool" where
  "prints x \<longleftrightarrow> (\<forall>r. x_json_print x (enc_lp_record r) \<noteq> None)"

definition stream_ok :: "upstream_stream \<Rightarrow> bool" where
  "stream_ok u \<longleftrightarrow> distinct (us_ids u) \<and> (us_closed u \<longrightarrow> mset (map fst (us_lines u)) = mset (us_ids u))"

definition batch_ok :: "proxy \<Rightarrow> smug_batch \<Rightarrow> bool" where
  "batch_ok p b \<longleftrightarrow> (\<exists>s. sb_stream b = Some s \<and> s < length (px_streams p) \<and> \<not> us_closed (px_streams p ! s) \<and>
     us_request_id (px_streams p ! s) = sb_outer_request_id b \<and>
     mset (us_ids (px_streams p ! s)) =
       mset (map vi_id (sb_queue b)) + mset (sb_inflight b) + mset (map fst (us_lines (px_streams p ! s))))"

definition active_ok :: "proxy \<Rightarrow> bool" where
  "active_ok p \<longleftrightarrow> (case px_active p of
      AcNone \<Rightarrow> px_forwards p = 0 \<and> px_finalizers p = []
    | AcPassThrough _ \<Rightarrow> px_forwards p \<le> 1 \<and> px_finalizers p = [] \<and> \<not> px_fetching p
    | AcSmugBatch b \<Rightarrow> px_forwards p = 0 \<and> px_finalizers p = [] \<and> \<not> px_fetching p \<and> batch_ok p b
    | AcSmugFinalizing \<Rightarrow> px_forwards p = 0 \<and> length (px_finalizers p) = 1 \<and> \<not> px_fetching p)"

definition open_ok :: "proxy \<Rightarrow> nat \<Rightarrow> bool" where
  "open_ok p i \<longleftrightarrow> us_closed (px_streams p ! i) \<or>
     (\<exists>b. px_active p = AcSmugBatch b \<and> sb_stream b = Some i)"

definition proxy_ok :: "proxy \<Rightarrow> bool" where
  "proxy_ok p \<longleftrightarrow> list_all stream_ok (px_streams p) \<and> active_ok p \<and> (\<forall>i < length (px_streams p). open_ok p i)"

lemma proxy_init_ok: "proxy_ok proxy_init"
  by (simp add: proxy_ok_def proxy_init_def active_ok_def)

lemma fresh_in_queue:
  assumes "distinct ids" and "mset ids = mset (i # qs) + mset infl + mset dn"
  shows "i \<notin> set infl"
proof
  assume "i \<in> set infl"
  then have "0 < count (mset infl) i" unfolding count_greater_zero_iff by simp
  then have "1 \<le> count (mset infl) i" by linarith
  moreover have "count (mset ids) i = 1 + count (mset qs) i + count (mset infl) i + count (mset dn) i"
    unfolding assms(2) by simp
  ultimately have "2 \<le> count (mset ids) i" by linarith
  moreover have "count (mset ids) i \<le> 1" using assms(1) by (simp add: distinct_count_atmost_1)
  ultimately show False by simp
qed

lemma batch_streamD:
  assumes "proxy_ok p" and "px_active p = AcSmugBatch b"
  obtains s where "sb_stream b = Some s" "s < length (px_streams p)" "\<not> us_closed (px_streams p ! s)"
    "us_request_id (px_streams p ! s) = sb_outer_request_id b" "distinct (us_ids (px_streams p ! s))"
    "mset (us_ids (px_streams p ! s)) =
       mset (map vi_id (sb_queue b)) + mset (sb_inflight b) + mset (map fst (us_lines (px_streams p ! s)))"
    "px_forwards p = 0" "px_finalizers p = []" "\<not> px_fetching p"
proof -
  from assms have "active_ok p" by (simp add: proxy_ok_def)
  with assms(2) obtain s where s: "sb_stream b = Some s" "s < length (px_streams p)" "\<not> us_closed (px_streams p ! s)"
    "us_request_id (px_streams p ! s) = sb_outer_request_id b"
    "mset (us_ids (px_streams p ! s)) =
       mset (map vi_id (sb_queue b)) + mset (sb_inflight b) + mset (map fst (us_lines (px_streams p ! s)))"
    "px_forwards p = 0" "px_finalizers p = []" "\<not> px_fetching p"
    by (auto simp: active_ok_def batch_ok_def)
  moreover have "distinct (us_ids (px_streams p ! s))"
    using assms(1) s(2) by (auto simp: proxy_ok_def list_all_length stream_ok_def)
  ultimately show thesis using that by blast
qed

text \<open>One lemma per handler.\<close>

lemma try_take_next_ok:
  assumes ok: "proxy_ok p" and t: "try_take_next x p = (r, p')"
  shows "proxy_ok p'"
proof (cases "px_active p")
  case (AcPassThrough pass)
  with assms show ?thesis
    by (auto simp: try_take_next_def proxy_ok_def active_ok_def open_ok_def split: if_splits)
next
  case (AcSmugBatch b)
  note b = this
  show ?thesis
  proof (cases "sb_queue b")
    case Nil
    with assms b show ?thesis by (simp add: try_take_next_def)
  next
    case (Cons vi qs)
    from batch_streamD[OF ok b] obtain s where s: "sb_stream b = Some s" "s < length (px_streams p)"
      "\<not> us_closed (px_streams p ! s)" "us_request_id (px_streams p ! s) = sb_outer_request_id b"
      "distinct (us_ids (px_streams p ! s))"
      "mset (us_ids (px_streams p ! s)) =
         mset (map vi_id (sb_queue b)) + mset (sb_inflight b) + mset (map fst (us_lines (px_streams p ! s)))"
      "px_forwards p = 0" "px_finalizers p = []" "\<not> px_fetching p" by metis
    have "vi_id vi \<notin> set (sb_inflight b)"
      by (rule fresh_in_queue[OF s(5), of _ "map vi_id qs" _ "map fst (us_lines (px_streams p ! s))"])
        (simp add: s(6) Cons)
    then have p': "p' = p\<lparr>px_active := AcSmugBatch (b\<lparr>sb_queue := qs, sb_inflight := vi_id vi # sb_inflight b\<rparr>)\<rparr>"
      using t b Cons by (auto simp: try_take_next_def Let_def split: if_splits)
    have "active_ok p'" using s Cons by (simp add: p' active_ok_def batch_ok_def)
    moreover have "open_ok p' i" if "open_ok p i" for i
      using that b by (auto simp: p' open_ok_def)
    ultimately show ?thesis using ok by (simp add: p' proxy_ok_def)
  qed
qed (use assms in \<open>auto simp: try_take_next_def\<close>)

lemma begin_fetch_ok: "proxy_ok p \<Longrightarrow> begin_fetch p = (b, p') \<Longrightarrow> proxy_ok p'"
  by (auto simp: begin_fetch_def proxy_ok_def active_ok_def open_ok_def batch_ok_def split: if_splits)

lemma parse_outer_ids:
  "parse_outer_smug_batch x b = Inr (Some vs) \<Longrightarrow> distinct (map vi_id vs)"
  by (auto simp: parse_outer_smug_batch_def res_bind_Inr_iff dest: parse_items_Inr split: sum.splits if_splits)

lemma finish_fetch_ok:
  assumes ok: "proxy_ok p" and f: "finish_fetch x f p = (r, p')" and fetching: "px_fetching p"
  shows "proxy_ok p'"
proof -
  from ok fetching have none: "px_active p = AcNone" "px_forwards p = 0" "px_finalizers p = []"
    by (auto simp: proxy_ok_def active_ok_def split: active.splits)
  with ok have closed: "list_all stream_ok (px_streams p)" "\<forall>i < length (px_streams p). us_closed (px_streams p ! i)"
    by (auto simp: proxy_ok_def open_ok_def)
  show ?thesis
  proof (cases f)
    case (Inl err)
    with f none closed show ?thesis
      by (auto simp: finish_fetch_def proxy_ok_def active_ok_def open_ok_def)
  next
    case (Inr nxt)
    note nxt = this
    show ?thesis
    proof (cases "parse_outer_smug_batch x (ni_body nxt)")
      case (Inl err)
      with f nxt none closed show ?thesis
        by (auto simp: finish_fetch_def Let_def proxy_ok_def active_ok_def open_ok_def)
    next
      case (Inr vo)
      show ?thesis
      proof (cases vo)
        case None
        with Inr f nxt none closed show ?thesis
          by (auto simp: finish_fetch_def Let_def proxy_ok_def active_ok_def open_ok_def)
      next
        case (Some vs)
        with Inr parse_outer_ids[of x "ni_body nxt" vs] have "distinct (map vi_id vs)" by simp
        with Inr Some f nxt none closed show ?thesis
          by (auto simp: finish_fetch_def Let_def proxy_ok_def active_ok_def batch_ok_def open_ok_def
              stream_ok_def nth_append less_Suc_eq)
      qed
    qed
  qed
qed

lemma prints_line:
  assumes "prints x"
  obtains line where "encode_record_line x (completion_record x i kind) = Inr line"
proof -
  from assms obtain tx where "x_json_print x (enc_lp_record (completion_record x i kind)) = Some tx"
    unfolding prints_def by blast
  then show ?thesis using that by (simp add: encode_record_line_def to_vec_def)
qed

text \<open>A completion of the active batch: its line is appended, and the stream closed when nothing is left.\<close>

definition completed_batch :: "string \<Rightarrow> smug_batch \<Rightarrow> smug_batch" where
  "completed_batch i b = b\<lparr>sb_inflight := remove1 i (sb_inflight b)\<rparr>"

definition appended_line :: "string \<Rightarrow> bytes \<Rightarrow> upstream_stream \<Rightarrow> upstream_stream" where
  "appended_line i line u = u\<lparr>us_lines := us_lines u @ [(i, line)]\<rparr>"

lemma handle_completion_batch:
  assumes "px_active p = AcSmugBatch b" and "i \<in> set (sb_inflight b)" and "sb_stream b = Some s" and "s < length (px_streams p)"
    and "encode_record_line x (completion_record x i kind) = Inr line"
  shows "handle_completion_inner x i kind p =
    (if sb_queue b = [] \<and> remove1 i (sb_inflight b) = []
     then (Inr (HandledLocally (Some s)), p\<lparr>px_streams := (px_streams p)[s := (appended_line i line (px_streams p ! s))\<lparr>us_closed := True\<rparr>],
       px_active := AcSmugFinalizing\<rparr>)
     else (Inr (HandledLocally None), p\<lparr>px_active := AcSmugBatch (completed_batch i b),
       px_streams := (px_streams p)[s := appended_line i line (px_streams p ! s)]\<rparr>))"
  using assms by (auto simp: handle_completion_inner_def Let_def update_stream_def completed_batch_def appended_line_def)

lemma appended_ids:
  assumes "i \<in> set (sb_inflight b)"
    and "mset (us_ids u) = mset (map vi_id (sb_queue b)) + mset (sb_inflight b) + mset (map fst (us_lines u))"
  shows "mset (us_ids (appended_line i line u)) = mset (map vi_id (sb_queue (completed_batch i b))) +
    mset (sb_inflight (completed_batch i b)) + mset (map fst (us_lines (appended_line i line u)))"
proof -
  have "mset (sb_inflight b) = add_mset i (mset (remove1 i (sb_inflight b)))" using assms(1) by simp
  with assms(2) show ?thesis by (simp add: appended_line_def completed_batch_def del: mset_remove1)
qed

lemma streams_ok_update: "list_all stream_ok us \<Longrightarrow> stream_ok u \<Longrightarrow> list_all stream_ok (us[s := u])"
  by (auto simp: list_all_iff dest: set_update_subset_insert[THEN subsetD])

lemma completion_in_batch_ok:
  assumes ok: "proxy_ok p" and b: "px_active p = AcSmugBatch b" and i: "i \<in> set (sb_inflight b)" and pr: "prints x"
    and h: "handle_completion_inner x i kind p = (out, p')"
  shows "proxy_ok (start_completion out p')"
proof -
  from batch_streamD[OF ok b] obtain s where s: "sb_stream b = Some s" "s < length (px_streams p)"
    "\<not> us_closed (px_streams p ! s)" "us_request_id (px_streams p ! s) = sb_outer_request_id b"
    "distinct (us_ids (px_streams p ! s))"
    "mset (us_ids (px_streams p ! s)) =
       mset (map vi_id (sb_queue b)) + mset (sb_inflight b) + mset (map fst (us_lines (px_streams p ! s)))"
    "px_forwards p = 0" "px_finalizers p = []" "\<not> px_fetching p" by metis
  have others: "us_closed (px_streams p ! k)" if "k < length (px_streams p)" "k \<noteq> s" for k
    using ok that b s(1) by (auto simp: proxy_ok_def open_ok_def)
  have streams: "list_all stream_ok (px_streams p)" using ok by (simp add: proxy_ok_def)
  obtain line where line: "encode_record_line x (completion_record x i kind) = Inr line" using pr by (rule prints_line)
  let ?u = "appended_line i line (px_streams p ! s)" and ?b = "completed_batch i b"
  note ids = appended_ids[OF i s(6), of line]
  note effect = handle_completion_batch[OF b i s(1,2) line]
  show ?thesis
  proof (cases "sb_queue b = [] \<and> remove1 i (sb_inflight b) = []")
    case False
    with effect h have res: "out = Inr (HandledLocally None)"
      "p' = p\<lparr>px_active := AcSmugBatch ?b, px_streams := (px_streams p)[s := ?u]\<rparr>" by auto
    have "stream_ok ?u" using s(3,5) by (simp add: stream_ok_def appended_line_def)
    moreover have "batch_ok p' ?b" using s(1-4) ids
      by (simp add: res batch_ok_def completed_batch_def appended_line_def)
    moreover have "open_ok p' k" if "k < length (px_streams p')" for k
      using others[of k] that s(1) by (cases "k = s") (simp_all add: res open_ok_def completed_batch_def)
    ultimately show ?thesis using s(7-9) streams_ok_update[OF streams]
      by (simp add: res(1) start_completion_def proxy_ok_def active_ok_def) (simp add: res(2))
  next
    case True
    let ?v = "?u\<lparr>us_closed := True\<rparr>"
    from True effect h have res: "out = Inr (HandledLocally (Some s))"
      "p' = p\<lparr>px_streams := (px_streams p)[s := ?v], px_active := AcSmugFinalizing\<rparr>" by auto
    have "stream_ok ?v" using s(5) ids True by (simp add: stream_ok_def appended_line_def completed_batch_def)
    moreover have "open_ok p' k" if "k < length (px_streams p')" for k
      using others[of k] that by (cases "k = s") (simp_all add: res open_ok_def)
    ultimately show ?thesis using s(7-9) streams_ok_update[OF streams]
      by (simp add: res start_completion_def proxy_ok_def active_ok_def open_ok_def)
  qed
qed

lemma handle_completion_ok:
  assumes ok: "proxy_ok p" and pr: "prints x" and calm: "px_forwards p = 0"
    and h: "handle_completion_inner x i kind p = (out, p')"
  shows "proxy_ok (start_completion out p')"
proof (cases "px_active p")
  case (AcPassThrough pass)
  with ok calm have "px_finalizers p = []" "\<not> px_fetching p" "list_all stream_ok (px_streams p)"
    "\<forall>i < length (px_streams p). us_closed (px_streams p ! i)"
    by (auto simp: proxy_ok_def active_ok_def open_ok_def)
  with AcPassThrough h ok calm show ?thesis
    by (auto simp: handle_completion_inner_def start_completion_def proxy_ok_def active_ok_def open_ok_def
        split: if_splits completion_kind.splits)
next
  case (AcSmugBatch b)
  with completion_in_batch_ok[OF ok AcSmugBatch _ pr h] h ok show ?thesis
    by (cases "i \<in> set (sb_inflight b)") (auto simp: handle_completion_inner_def start_completion_def)
qed (use h ok in \<open>auto simp: handle_completion_inner_def start_completion_def\<close>)

lemma forward_done_ok:
  assumes ok: "proxy_ok p" and f: "forward_done res p = (st, p')" and some: "0 < px_forwards p"
  shows "proxy_ok p'"
proof -
  from ok some obtain pass where pass: "px_active p = AcPassThrough pass"
    by (auto simp: proxy_ok_def active_ok_def split: active.splits)
  with ok some have "px_forwards p = 1" "px_finalizers p = []" "list_all stream_ok (px_streams p)"
    "\<forall>i < length (px_streams p). us_closed (px_streams p ! i)" "\<not> px_fetching p"
    by (auto simp: proxy_ok_def active_ok_def open_ok_def)
  with f pass show ?thesis
    by (auto simp: forward_done_def Let_def proxy_ok_def active_ok_def open_ok_def split: sum.splits if_splits)
qed

lemma finalize_task_ok:
  assumes ok: "proxy_ok p" and some: "px_finalizers p \<noteq> []"
  shows "proxy_ok (finalize_task p)"
proof -
  from ok some have fin: "px_active p = AcSmugFinalizing" by (auto simp: proxy_ok_def active_ok_def split: active.splits)
  with ok obtain s where "px_finalizers p = [s]" by (auto simp: proxy_ok_def active_ok_def length_Suc_conv)
  with ok fin show ?thesis
    by (auto simp: finalize_task_def proxy_ok_def active_ok_def open_ok_def)
qed

lemma proxy_step_ok:
  assumes "proxy_step x p l p'" and "proxy_ok p" and "prints x" and "calm p l"
  shows "proxy_ok p'"
  using assms(1)
proof cases
  case (complete i kind out p1)
  with assms(4) have "px_forwards p = 0" by (simp add: calm_def)
  with handle_completion_ok[OF assms(2,3) _ complete(3)] complete show ?thesis by simp
qed (use assms(2) in \<open>auto intro: try_take_next_ok begin_fetch_ok finish_fetch_ok forward_done_ok finalize_task_ok\<close>)

lemma proxy_run_ok:
  assumes "proxy_run x calm p ls p'" and "proxy_ok p" and "prints x"
  shows "proxy_ok p'"
  using assms(1) by (rule proxying.state_invariant) (use assms(2,3) in \<open>auto intro: proxy_step_ok\<close>)

text \<open>What the lines of a stream are: records of the completions, each under its own id.\<close>

definition line_ok :: "ext \<Rightarrow> string \<times> bytes \<Rightarrow> bool" where
  "line_ok x q \<longleftrightarrow> (\<exists>kind. encode_record_line x (completion_record x (fst q) kind) = Inr (snd q))"

definition lines_ok :: "ext \<Rightarrow> proxy \<Rightarrow> bool" where
  "lines_ok x p \<longleftrightarrow> (\<forall>u \<in> set (px_streams p). list_all (line_ok x) (us_lines u))"

lemma update_stream_lines:
  assumes "lines_ok x p" and "\<And>u. u \<in> set (px_streams p) \<Longrightarrow> list_all (line_ok x) (us_lines (f u))"
  shows "lines_ok x (update_stream s f p)"
proof (cases "s < length (px_streams p)")
  case True
  then have "px_streams p ! s \<in> set (px_streams p)" by simp
  with assms show ?thesis
    by (auto simp: lines_ok_def update_stream_def dest!: set_update_subset_insert[THEN subsetD])
next
  case False
  with assms(1) show ?thesis by (simp add: lines_ok_def update_stream_def list_update_beyond)
qed

lemma handle_completion_lines:
  assumes lo: "lines_ok x p" and h: "handle_completion_inner x i kind p = (out, p')"
  shows "lines_ok x p'"
proof (cases "px_active p")
  case (AcSmugBatch b)
  let ?b = "b\<lparr>sb_inflight := remove1 i (sb_inflight b)\<rparr>" and ?p = "\<lambda>b. p\<lparr>px_active := AcSmugBatch b\<rparr>"
  have same: "lines_ok x (q\<lparr>px_active := a\<rparr>) = lines_ok x q" for q a by (simp add: lines_ok_def)
  show ?thesis
  proof (cases "i \<in> set (sb_inflight b)")
    case False
    with AcSmugBatch h lo show ?thesis by (simp add: handle_completion_inner_def)
  next
    case True
    note i = this
    show ?thesis
    proof (cases "encode_record_line x (completion_record x i kind)")
      case (Inl e)
      with AcSmugBatch i h lo same show ?thesis by (auto simp: handle_completion_inner_def Let_def)
    next
      case (Inr line)
      have base: "lines_ok x (?p ?b)" using lo same by simp
      have line: "line_ok x (i, line)" using Inr by (auto simp: line_ok_def)
      show ?thesis
      proof (cases "sb_stream b")
        case None
        with AcSmugBatch i Inr h base same show ?thesis
          by (auto simp: handle_completion_inner_def Let_def split: if_splits)
      next
        case (Some s)
        define q where "q = update_stream s (\<lambda>u. u\<lparr>us_lines := us_lines u @ [(i, line)]\<rparr>) (?p ?b)"
        have q: "lines_ok x q" unfolding q_def
          by (rule update_stream_lines[OF base]) (use base line in \<open>simp add: lines_ok_def\<close>)
        have "lines_ok x (update_stream s (\<lambda>u. u\<lparr>us_closed := True\<rparr>) q)"
          by (rule update_stream_lines[OF q]) (use q in \<open>simp add: lines_ok_def\<close>)
        with q same have "lines_ok x (update_stream s (\<lambda>u. u\<lparr>us_closed := True\<rparr>) q\<lparr>px_active := AcSmugFinalizing\<rparr>)"
          by simp
        with q AcSmugBatch i Inr h Some show ?thesis
          by (auto simp: handle_completion_inner_def Let_def q_def split: if_splits)
      qed
    qed
  qed
qed (use assms in \<open>auto simp: handle_completion_inner_def split: if_splits completion_kind.splits\<close>)

lemma proxy_step_lines:
  assumes "proxy_step x p l p'" and lo: "lines_ok x p"
  shows "lines_ok x p'"
  using assms(1)
proof cases
  case (complete i kind out p1)
  from handle_completion_lines[OF lo complete(3)] complete(2) show ?thesis
    by (auto simp: start_completion_def lines_ok_def split: sum.splits completion_outcome.splits option.splits)
qed (use lo in \<open>auto simp: lines_ok_def try_take_next_def begin_fetch_def finish_fetch_def forward_done_def
    finalize_task_def Let_def split: active.splits if_splits list.splits sum.splits option.splits\<close>)

lemma proxy_run_lines: "proxy_run x guard p ls p' \<Longrightarrow> lines_ok x p \<Longrightarrow> lines_ok x p'"
  by (erule proxying.state_invariant) (auto intro: proxy_step_lines)

lemma completion_record_id [simp]: "lp_id (completion_record x i kind) = i"
  by (auto simp: completion_record_def error_record_def parse_apigw_v2_response_def from_slice_def ok_or_def
      dec_apigw_v2_response_def split: completion_kind.splits sum.splits option.splits bind_splits)

subsection \<open>A batch can always be finished\<close>

lemma run_trans: "proxy_run x g p' ls' p'' \<Longrightarrow> proxy_run x g p ls p' \<Longrightarrow> proxy_run x g p (ls @ ls') p''"
  by (auto simp: proxying.run_append)

lemma proxy_single: "g p l \<Longrightarrow> proxy_step x p l p' \<Longrightarrow> proxy_run x g p [l] p'"
  by (simp add: proxying.run_single)

lemma deliver_queue:
  assumes "px_active p = AcSmugBatch b" and "sb_queue b = vs"
    and "distinct (map vi_id vs @ sb_inflight b)" and "\<And>vi. vi \<in> set vs \<Longrightarrow> x_header_value x (vi_id vi)"
  shows "\<exists>rs. length rs = length vs \<and> map ht_body rs = map vi_event_bytes vs \<and>
    proxy_run x calm p (map Deliver rs)
      (p\<lparr>px_active := AcSmugBatch (b\<lparr>sb_queue := [], sb_inflight := rev (map vi_id vs) @ sb_inflight b\<rparr>)\<rparr>)"
  using assms
proof (induction vs arbitrary: p b)
  case Nil
  then have "p\<lparr>px_active := AcSmugBatch (b\<lparr>sb_queue := [], sb_inflight := sb_inflight b\<rparr>)\<rparr> = p" by simp
  then show ?case by (simp add: proxy_run.start)
next
  case (Cons vi vs)
  let ?b = "b\<lparr>sb_queue := vs, sb_inflight := vi_id vi # sb_inflight b\<rparr>"
  let ?p = "p\<lparr>px_active := AcSmugBatch ?b\<rparr>"
  let ?r = "response_from_bytes 200 (header_insert request_id_header (vi_id vi) (sb_base_headers b)) (vi_event_bytes vi)"
  have "try_take_next x p = (Inr (Some ?r), ?p)" using Cons.prems by (simp add: try_take_next_def Let_def)
  then have one: "proxy_run x calm p [Deliver ?r] ?p"
    by (intro proxy_single) (auto simp: calm_def intro: proxy_step.deliver)
  obtain rs where rs: "length rs = length vs" "map ht_body rs = map vi_event_bytes vs"
    "proxy_run x calm ?p (map Deliver rs)
      (?p\<lparr>px_active := AcSmugBatch (?b\<lparr>sb_queue := [], sb_inflight := rev (map vi_id vs) @ sb_inflight ?b\<rparr>)\<rparr>)"
    using Cons.IH[of ?p ?b] Cons.prems by auto
  from run_trans[OF rs(3) one] rs(1,2) show ?case
    by (intro exI[of _ "?r # rs"]) (simp add: response_from_bytes_def)
qed

definition completion_line :: "ext \<Rightarrow> string \<Rightarrow> completion_kind \<Rightarrow> bytes" where
  "completion_line x i kind = (case encode_record_line x (completion_record x i kind) of Inr line \<Rightarrow> line | Inl _ \<Rightarrow> [])"

lemma complete_inflight:
  assumes "px_active p = AcSmugBatch b" and "sb_queue b = []" and "sb_stream b = Some s"
    and "s < length (px_streams p)" and "px_forwards p = 0" and "prints x"
    and "mset order = mset (sb_inflight b)" and "distinct order" and "order \<noteq> []"
  shows "\<exists>p'. proxy_run x calm p (map (\<lambda>i. Complete i (kind i)) order) p' \<and> px_active p' = AcSmugFinalizing \<and>
    us_lines (px_streams p' ! s) = us_lines (px_streams p ! s) @ map (\<lambda>i. (i, completion_line x i (kind i))) order \<and>
    us_closed (px_streams p' ! s) \<and> us_request_id (px_streams p' ! s) = us_request_id (px_streams p ! s) \<and>
    px_finalizers p' = px_finalizers p @ [s]"
  using assms
proof (induction order arbitrary: p b)
  case Nil
  then show ?case by simp
next
  case (Cons i order)
  have i: "i \<in> set (sb_inflight b)" using mset_eq_setD[OF Cons.prems(7)] by auto
  obtain line where line: "encode_record_line x (completion_record x i (kind i)) = Inr line" using Cons.prems(6) by (rule prints_line)
  have rest: "mset order = mset (remove1 i (sb_inflight b))" using Cons.prems(7) by (metis mset_remove1 remove1.simps(2))
  let ?u = "appended_line i line (px_streams p ! s)"
  have u: "us_lines ?u = us_lines (px_streams p ! s) @ [(i, completion_line x i (kind i))]"
    "us_request_id ?u = us_request_id (px_streams p ! s)"
    using line by (simp_all add: appended_line_def completion_line_def)
  have calm: "calm p l" for l using Cons.prems(5) by (simp add: calm_def)
  note effect = handle_completion_batch[OF Cons.prems(1) i Cons.prems(3,4) line]
  show ?case
  proof (cases "order = []")
    case True
    with rest have "remove1 i (sb_inflight b) = []" by (metis mset_zero_iff mset.simps(1))
    with effect Cons.prems(2) have "handle_completion_inner x i (kind i) p = (Inr (HandledLocally (Some s)),
        p\<lparr>px_streams := (px_streams p)[s := ?u\<lparr>us_closed := True\<rparr>], px_active := AcSmugFinalizing\<rparr>)" by simp
    from proxy_single[of calm, OF calm proxy_step.complete[OF this]] u True Cons.prems(4) show ?thesis
      by (intro exI[of _ "p\<lparr>px_streams := (px_streams p)[s := ?u\<lparr>us_closed := True\<rparr>], px_active := AcSmugFinalizing,
        px_finalizers := px_finalizers p @ [s]\<rparr>"]) (simp add: start_completion_def)
  next
    case False
    define p1 where "p1 = p\<lparr>px_active := AcSmugBatch (completed_batch i b), px_streams := (px_streams p)[s := ?u]\<rparr>"
    from False have "remove1 i (sb_inflight b) \<noteq> []" using rest by (auto simp del: mset_remove1)
    with effect have "handle_completion_inner x i (kind i) p = (Inr (HandledLocally None), p1)" by (auto simp: p1_def)
    from proxy_single[of calm, OF calm proxy_step.complete[OF this]]
    have one: "proxy_run x calm p [Complete i (kind i)] p1" by (simp add: start_completion_def)
    obtain p' where p': "proxy_run x calm p1 (map (\<lambda>i. Complete i (kind i)) order) p'" "px_active p' = AcSmugFinalizing"
      "us_lines (px_streams p' ! s) = us_lines (px_streams p1 ! s) @ map (\<lambda>i. (i, completion_line x i (kind i))) order"
      "us_closed (px_streams p' ! s)" "us_request_id (px_streams p' ! s) = us_request_id (px_streams p1 ! s)"
      "px_finalizers p' = px_finalizers p1 @ [s]"
      using Cons.IH[of p1 "completed_batch i b"] Cons.prems rest False by (auto simp: p1_def completed_batch_def)
    from run_trans[OF p'(1) one] p' u Cons.prems(4) show ?thesis by (intro exI[of _ p']) (simp add: p1_def)
  qed
qed

subsection \<open>The steps as a function\<close>

text \<open>
  A label determines the next state: the relation is the graph of an executable function, in which
  a completion is one of the two handlers.
\<close>

fun proxy_exec :: "ext \<Rightarrow> proxy \<Rightarrow> proxy_label \<Rightarrow> proxy option" where
  "proxy_exec x p (Deliver r) =
     (case try_take_next x p of (Inr (Some r'), p') \<Rightarrow> if r' = r then Some p' else None | _ \<Rightarrow> None)"
| "proxy_exec x p (TakeFailed st) =
     (case try_take_next x p of (Inl st', p') \<Rightarrow> if st' = st then Some p' else None | _ \<Rightarrow> None)"
| "proxy_exec x p BeginFetch = (case begin_fetch p of (b, p') \<Rightarrow> if b then Some p' else None)"
| "proxy_exec x p (EndFetch f) = (if px_fetching p then Some (snd (finish_fetch x f p)) else None)"
| "proxy_exec x p (Complete i kind) =
     Some (snd (case kind of CkResponse h b \<Rightarrow> handle_response x i h b p | CkError h b \<Rightarrow> handle_error x i h b p))"
| "proxy_exec x p (ForwardDone res) = (if 0 < px_forwards p then Some (snd (forward_done res p)) else None)"
| "proxy_exec x p Finalized = (if px_finalizers p \<noteq> [] then Some (finalize_task p) else None)"

lemma proxy_exec_iff: "proxy_exec x p l = Some p' \<longleftrightarrow> proxy_step x p l p'"
  by (cases l) (auto simp: proxy_step_simps prod_eq_iff handle_response_def handle_error_def
      split: prod.splits sum.splits option.splits if_splits completion_kind.splits)

fun proxy_execs :: "ext \<Rightarrow> (proxy \<Rightarrow> proxy_label \<Rightarrow> bool) \<Rightarrow> proxy \<Rightarrow> proxy_label list \<Rightarrow> proxy option" where
  "proxy_execs x guard p [] = Some p"
| "proxy_execs x guard p (l # ls) =
     (if guard p l then case proxy_exec x p l of None \<Rightarrow> None | Some p' \<Rightarrow> proxy_execs x guard p' ls else None)"

lemma proxy_execs_run: "proxy_execs x guard p ls = Some p' \<Longrightarrow> proxy_run x guard p ls p'"
  by (induction ls arbitrary: p)
    (auto simp: proxying.run_Nil proxying.run_Cons proxy_exec_iff split: if_splits option.splits)

end
