(* ===== verification/Lp_Life.thy ===== *)
theory Lp_Life
  imports Lp_Proxy
begin

text \<open>
  The life of an outer invocation in the layer proxy: what every run of the state machine of
  \<^verbatim>\<open>Lp_Proxy\<close> gives the upstream API, that a batch can always be finished, and the two states a
  batch does not leave.
\<close>

subsection \<open>A concrete environment\<close>

text \<open>
  Three documents parse: \<open>b\<close> is an outer batch with the ids \<open>i1\<close> and \<open>i2\<close>, \<open>e\<close> an empty batch and
  \<open>r\<close> a response of the runtime; everything prints as \<open>p\<close>.
\<close>

definition demo_item :: "string \<Rightarrow> json" where
  "demo_item i = JObj [(''requestContext'', JObj [(''requestId'', JStr i)])]"

definition demo_ext :: ext where
  "demo_ext = plain_ext\<lparr>
     x_json_parse := (\<lambda>b.
       if b = ''b'' then Some (JObj [(''v'', JInt 1), (''batch'', JArr [demo_item ''i1'', demo_item ''i2''])])
       else if b = ''e'' then Some (JObj [(''v'', JInt 1), (''batch'', JArr [])])
       else if b = ''r'' then Some (JObj [(''statusCode'', JInt 201)]) else None),
     x_json_print := (\<lambda>j. Some ''p''), x_header_value := (\<lambda>s. s \<noteq> ''bad'')\<rparr>"

definition demo_next :: "string \<Rightarrow> bytes \<Rightarrow> next_invocation" where
  "demo_next i b = \<lparr>ni_request_id = i, ni_headers = [], ni_body = b\<rparr>"

definition demo_reply :: "string \<Rightarrow> http_response" where
  "demo_reply i = \<lparr>ht_status = 200, ht_headers = [(request_id_header, i)], ht_body = ''p''\<rparr>"

definition demo_round :: "proxy_label list" where
  "demo_round = [BeginFetch, EndFetch (Inr (demo_next ''o'' ''b'')), Deliver (demo_reply ''i1''),
     Deliver (demo_reply ''i2''), Complete ''i2'' (CkResponse [] ''r''), Complete ''i1'' (CkError [] []), Finalized]"

definition demo_done :: proxy where
  "demo_done = proxy_init\<lparr>px_streams := [\<lparr>us_request_id = ''o'', us_ids = [''i1'', ''i2''],
     us_lines = [(''i2'', ''p'' @ [CHR 0x0A]), (''i1'', ''p'' @ [CHR 0x0A])], us_closed = True\<rparr>]\<rparr>"

lemma demo_prints: "prints demo_ext"
  by (simp add: prints_def demo_ext_def)

lemma demo_header: "x_header_value demo_ext s \<longleftrightarrow> s \<noteq> ''bad''"
  by (simp add: demo_ext_def)

lemma proxy_init_sel:
  "px_active proxy_init = AcNone" "\<not> px_fetching proxy_init" "px_streams proxy_init = []"
  by (simp_all add: proxy_init_def)

lemmas proxy_eval = begin_fetch_def finish_fetch_def try_take_next_def handle_completion_inner_def start_completion_def
  handle_response_def handle_error_def
  forward_done_def finalize_task_def update_stream_def completion_record_def proxy_init_def Let_def calm_def any_label_def
  response_from_bytes_def parse_outer_smug_batch_def from_slice_def dec_envelope_def dec_apigw_v2_response_def
  parse_apigw_v2_response_def struct_view_def req_field_def def_field_def encode_record_line_def to_vec_def
  item_id_def ok_or_def demo_ext_def plain_ext_def demo_next_def demo_reply_def demo_item_def sanitize_next_headers_def
  header_remove_def header_insert_def request_id_header_def response_mode_header_def upstream_path_def is_success_def

lemma demo_run: "proxy_run demo_ext calm proxy_init demo_round demo_done"
  by (rule proxy_execs_run) (simp add: demo_round_def demo_done_def proxy_eval)

subsection \<open>Every outer response is complete\<close>

lemma proxy_init_lines: "lines_ok x proxy_init"
  by (simp add: lines_ok_def proxy_init_def)



subsection \<open>A batch can be finished\<close>

lemma parse_outer_distinct: "parse_outer_smug_batch x b = Inr (Some vs) \<Longrightarrow> distinct (map vi_id vs)"
  by (auto simp: parse_outer_smug_batch_def res_bind_Inr_iff dest: parse_items_Inr split: sum.splits if_splits)

lemma batch_run:
  assumes pr: "prints x" and act: "px_active p = AcSmugBatch b" and q: "sb_queue b = vs" "vs \<noteq> []" "sb_inflight b = []"
    and s: "sb_stream b = Some s" "s < length (px_streams p)" "us_lines (px_streams p ! s) = []"
    and p: "px_forwards p = 0" "px_finalizers p = []"
    and vs: "distinct (map vi_id vs)" "\<And>vi. vi \<in> set vs \<Longrightarrow> x_header_value x (vi_id vi)"
    and order: "mset order = mset (map vi_id vs)"
  shows "\<exists>rs p'. map ht_body rs = map vi_event_bytes vs \<and>
    proxy_run x calm p (map Deliver rs @ map (\<lambda>i. Complete i (kind i)) order @ [Finalized]) p' \<and>
    px_active p' = AcNone \<and> us_lines (px_streams p' ! s) = map (\<lambda>i. (i, completion_line x i (kind i))) order \<and> us_closed (px_streams p' ! s) \<and>
    us_request_id (px_streams p' ! s) = us_request_id (px_streams p ! s)"
proof -
  let ?b = "b\<lparr>sb_queue := [], sb_inflight := rev (map vi_id vs)\<rparr>"
  let ?p = "p\<lparr>px_active := AcSmugBatch ?b\<rparr>"
  have dist: "distinct (map vi_id vs @ sb_inflight b)" using vs(1) q(3) by simp
  from deliver_queue[OF act q(1) dist vs(2)] q(3) obtain rs where
    rs: "map ht_body rs = map vi_event_bytes vs" "proxy_run x calm p (map Deliver rs) ?p" by auto
  have order': "mset order = mset (sb_inflight ?b)" "distinct order" "order \<noteq> []"
    using order q(2) vs(1) mset_eq_imp_distinct_iff[OF order] by auto
  obtain p1 where p1: "proxy_run x calm ?p (map (\<lambda>i. Complete i (kind i)) order) p1" "px_active p1 = AcSmugFinalizing"
    "us_lines (px_streams p1 ! s) = us_lines (px_streams ?p ! s) @ map (\<lambda>i. (i, completion_line x i (kind i))) order"
    "us_closed (px_streams p1 ! s)" "us_request_id (px_streams p1 ! s) = us_request_id (px_streams ?p ! s)"
    "px_finalizers p1 = px_finalizers ?p @ [s]"
    using complete_inflight[of ?p ?b s x order kind] s p pr order' by auto
  have "proxy_step x p1 Finalized (finalize_task p1)" using p1(6) by (auto intro: proxy_step.finalized)
  from proxy_run.step[OF p1(1) _ this]
  have "proxy_run x calm ?p (map (\<lambda>i. Complete i (kind i)) order @ [Finalized]) (finalize_task p1)"
    by (simp add: calm_def)
  from run_trans[OF this rs(2)] rs(1) p1 s(3) show ?thesis
    by - (rule exI[of _ rs], rule exI[of _ "finalize_task p1"], simp add: finalize_task_def)
qed

lemma batch_served:
  assumes "prints x" and "proxy_run x calm proxy_init ls p" and "px_active p = AcNone" and "\<not> px_fetching p"
    and "parse_outer_smug_batch x (ni_body nxt) = Inr (Some vs)" and "vs \<noteq> []"
    and "list_all (\<lambda>vi. x_header_value x (vi_id vi)) vs" and "mset order = mset (map vi_id vs)"
  shows "\<exists>rs p'. map ht_body rs = map vi_event_bytes vs \<and>
    proxy_run x calm p (BeginFetch # EndFetch (Inr nxt) # map Deliver rs @
      map (\<lambda>i. Complete i (kind i)) order @ [Finalized]) p' \<and>
    px_active p' = AcNone \<and>
    (let u = px_streams p' ! length (px_streams p)
     in us_request_id u = ni_request_id nxt \<and> us_closed u \<and>
        us_lines u = map (\<lambda>i. (i, completion_line x i (kind i))) order)"
proof -
  from proxy_run_ok[OF assms(2) proxy_init_ok assms(1)] assms(3) have idle: "px_forwards p = 0" "px_finalizers p = []"
    by (simp_all add: proxy_ok_def active_ok_def)
  let ?p1 = "p\<lparr>px_fetching := True\<rparr>"
  define p2 where "p2 = snd (finish_fetch x (Inr nxt) ?p1)"
  have "proxy_step x p BeginFetch ?p1" using assms(3,4) by (intro proxy_step.begin_fetch) (simp add: begin_fetch_def)
  moreover have "proxy_step x ?p1 (EndFetch (Inr nxt)) p2"
    using proxy_step.end_fetch[of ?p1 x "Inr nxt" "fst (finish_fetch x (Inr nxt) ?p1)" p2] by (simp add: p2_def)
  ultimately have "proxy_run x calm p ([BeginFetch] @ [EndFetch (Inr nxt)]) p2"
    by (intro run_trans[OF proxy_single proxy_single]) (auto simp: calm_def)
  then have two: "proxy_run x calm p [BeginFetch, EndFetch (Inr nxt)] p2" by simp
  obtain b where b: "px_active p2 = AcSmugBatch b" "sb_queue b = vs" "sb_inflight b = []"
    "sb_stream b = Some (length (px_streams p))" "length (px_streams p2) = Suc (length (px_streams p))"
    "us_lines (px_streams p2 ! length (px_streams p)) = []"
    "us_request_id (px_streams p2 ! length (px_streams p)) = ni_request_id nxt"
    "px_forwards p2 = 0" "px_finalizers p2 = []"
    using idle assms(5) by (simp add: p2_def finish_fetch_def Let_def)
  from batch_run[OF assms(1) b(1,2) assms(6) b(3,4) _ b(6,8,9) parse_outer_distinct[OF assms(5)] _ assms(8), of kind]
    b(5) assms(7)
  obtain rs p' where "map ht_body rs = map vi_event_bytes vs"
    "proxy_run x calm p2 (map Deliver rs @ map (\<lambda>i. Complete i (kind i)) order @ [Finalized]) p'"
    "px_active p' = AcNone" "us_lines (px_streams p' ! length (px_streams p)) = map (\<lambda>i. (i, completion_line x i (kind i))) order"
    "us_closed (px_streams p' ! length (px_streams p))"
    "us_request_id (px_streams p' ! length (px_streams p)) = us_request_id (px_streams p2 ! length (px_streams p))"
    by (auto simp: list_all_iff)
  with run_trans[OF this(2) two] b(7) show ?thesis by (auto simp: Let_def)
qed

text \<open>
  Property C19: from every idle state that can be reached, an outer batch with at least one item
  and ids that make valid header values can be served to its end: its events are handed to the
  runtime in the order of the batch, and whatever the order in which the runtime completes them
  (with a response or an error), the response stream of the invocation is closed with one record
  per id in that order, the conversion of its completion, and the proxy is idle again.
\<close>

theorem outer_batch_round:
  assumes "prints x" and "proxy_run x calm proxy_init ls p" and "px_active p = AcNone" and "\<not> px_fetching p"
    and "parse_outer_smug_batch x (ni_body nxt) = Inr (Some vs)" and "vs \<noteq> []"
    and "list_all (\<lambda>vi. x_header_value x (vi_id vi)) vs" and "mset order = mset (map vi_id vs)"
  shows "\<exists>rs p'. map ht_body rs = map vi_event_bytes vs \<and>
    proxy_run x calm p (BeginFetch # EndFetch (Inr nxt) # map Deliver rs @
      map (\<lambda>i. Complete i (kind i)) order @ [Finalized]) p' \<and>
    px_active p' = AcNone \<and>
    (let u = px_streams p' ! length (px_streams p)
     in us_request_id u = ni_request_id nxt \<and> us_closed u \<and>
        us_lines u = map (\<lambda>i. (i, completion_line x i (kind i))) order)"
  using assms by (rule batch_served)

lemma demo_parse: "parse_outer_smug_batch demo_ext ''b'' =
    Inr (Some [\<lparr>vi_id = ''i1'', vi_event_bytes = ''p''\<rparr>, \<lparr>vi_id = ''i2'', vi_event_bytes = ''p''\<rparr>])"
  by (simp add: proxy_eval)

lemma demo_line: "completion_line demo_ext i kind = ''p'' @ [CHR 0x0A]"
  by (simp add: completion_line_def encode_record_line_def to_vec_def demo_ext_def)

theorem outer_batch_round_witness:
  "\<exists>rs p'. map ht_body rs = [''p'', ''p''] \<and>
    proxy_run demo_ext calm proxy_init (BeginFetch # EndFetch (Inr (demo_next ''o'' ''b'')) # map Deliver rs @
      map (\<lambda>i. Complete i (CkResponse [] ''r'')) [''i2'', ''i1''] @ [Finalized]) p' \<and>
    px_active p' = AcNone \<and> us_request_id (px_streams p' ! 0) = ''o'' \<and> us_closed (px_streams p' ! 0) \<and>
    us_lines (px_streams p' ! 0) = [(''i2'', ''p'' @ [CHR 0x0A]), (''i1'', ''p'' @ [CHR 0x0A])]"
proof -
  have "parse_outer_smug_batch demo_ext (ni_body (demo_next ''o'' ''b'')) =
      Inr (Some [\<lparr>vi_id = ''i1'', vi_event_bytes = ''p''\<rparr>, \<lparr>vi_id = ''i2'', vi_event_bytes = ''p''\<rparr>])"
    by (simp add: demo_next_def demo_parse)
  from outer_batch_round[OF demo_prints proxy_run.start _ _ this, of "[''i2'', ''i1'']" "\<lambda>_. CkResponse [] ''r''"]
  show ?thesis by (simp add: proxy_init_sel demo_header Let_def demo_next_def demo_line)
qed

subsection \<open>States a batch does not leave\<close>

text \<open>A batch without items: nothing to deliver, nothing in flight, so no completion counts.\<close>

lemma empty_batch_step:
  assumes act: "px_active p = AcSmugBatch b" and e: "sb_queue b = []" "sb_inflight b = []"
    and idle: "px_forwards p = 0" "px_finalizers p = []" "\<not> px_fetching p"
    and step: "proxy_step x p l p'"
  shows "p' = p \<and> (\<exists>i kind. l = Complete i kind)"
  using step
proof cases
  case (complete i kind out p1)
  with act e have "out = Inr (HandledLocally None)" "p1 = p" by (auto simp: handle_completion_inner_def)
  with complete show ?thesis by (simp add: start_completion_def)
qed (use assms in \<open>auto simp: try_take_next_def begin_fetch_def\<close>)

lemma empty_batch_run:
  assumes "proxy_run x guard p ls p'" and "px_active p = AcSmugBatch b" "sb_queue b = []" "sb_inflight b = []"
    and "px_forwards p = 0" "px_finalizers p = []" "\<not> px_fetching p"
  shows "p' = p \<and> (\<forall>l \<in> set ls. \<exists>i kind. l = Complete i kind)"
  using assms by (induction rule: proxy_run.induct) (auto dest: empty_batch_step)

text \<open>
  Property C40: an outer event whose batch is empty (\<^verbatim>\<open>{"v":1,"batch":[]}\<close>) wedges the proxy: the batch
  becomes active with an open response stream, and whatever happens afterwards the only steps left
  are completions that change nothing. No invocation is handed to the runtime any more and the
  stream of the outer invocation is never closed.
\<close>

theorem empty_batch_wedges:
  assumes "prints x" and "proxy_run x calm proxy_init ls p" and "px_active p = AcNone" and "\<not> px_fetching p"
    and "parse_outer_smug_batch x (ni_body nxt) = Inr (Some [])"
    and "proxy_execs x any_label p [BeginFetch, EndFetch (Inr nxt)] = Some p'"
    and "proxy_run x any_label p' ls' p''"
  shows "p'' = p' \<and> (\<exists>b. px_active p' = AcSmugBatch b \<and> sb_outer_request_id b = ni_request_id nxt) \<and>
    \<not> us_closed (px_streams p' ! length (px_streams p)) \<and> (\<forall>l \<in> set ls'. \<exists>i kind. l = Complete i kind)"
proof -
  from proxy_run_ok[OF assms(2) proxy_init_ok assms(1)] assms(3) have idle: "px_forwards p = 0" "px_finalizers p = []"
    by (simp_all add: proxy_ok_def active_ok_def)
  from assms(3-6) obtain b where b: "px_active p' = AcSmugBatch b" "sb_queue b = []" "sb_inflight b = []"
    "sb_outer_request_id b = ni_request_id nxt" "px_forwards p' = 0" "px_finalizers p' = []" "\<not> px_fetching p'"
    "\<not> us_closed (px_streams p' ! length (px_streams p))"
    using idle by (auto simp: any_label_def begin_fetch_def finish_fetch_def Let_def)
  from empty_batch_run[OF assms(7) b(1-3) b(5-7)] b show ?thesis by auto
qed

lemma demo_wedged_run:
  "\<exists>p'. proxy_execs demo_ext any_label proxy_init [BeginFetch, EndFetch (Inr (demo_next ''o'' ''e''))] = Some p' \<and>
     proxy_run demo_ext any_label p' [Complete ''o'' (CkResponse [] ''r'')] p'"
proof -
  define p' where "p' = the (proxy_execs demo_ext any_label proxy_init [BeginFetch, EndFetch (Inr (demo_next ''o'' ''e''))])"
  have "proxy_execs demo_ext any_label p' [Complete ''o'' (CkResponse [] ''r'')] = Some p'"
    by (simp add: p'_def proxy_eval)
  then have "proxy_run demo_ext any_label p' [Complete ''o'' (CkResponse [] ''r'')] p'" by (rule proxy_execs_run)
  then show ?thesis by (intro exI[of _ p']) (simp add: p'_def proxy_eval)
qed

theorem empty_batch_wedges_witness:
  "\<exists>p' :: proxy. (\<exists>b. px_active p' = AcSmugBatch b \<and> sb_outer_request_id b = ''o'') \<and> \<not> us_closed (px_streams p' ! 0)"
proof -
  obtain p' where p': "proxy_execs demo_ext any_label proxy_init [BeginFetch, EndFetch (Inr (demo_next ''o'' ''e''))] = Some p'"
    "proxy_run demo_ext any_label p' [Complete ''o'' (CkResponse [] ''r'')] p'" using demo_wedged_run by blast
  have "parse_outer_smug_batch demo_ext (ni_body (demo_next ''o'' ''e'')) = Inr (Some [])" by (simp add: proxy_eval)
  from empty_batch_wedges[OF demo_prints proxy_run.start _ _ this p'] show ?thesis
    by (simp add: proxy_init_sel demo_next_def) blast
qed

text \<open>An id in flight stays in flight until it is completed.\<close>

lemma inflight_stays:
  assumes "proxy_ok p" and "prints x" and step: "proxy_step x p l p'" and "calm p l"
    and act: "px_active p = AcSmugBatch b" and i: "i \<in> set (sb_inflight b)" and "\<forall>kind. l \<noteq> Complete i kind"
  shows "\<exists>b'. px_active p' = AcSmugBatch b' \<and> i \<in> set (sb_inflight b') \<and> sb_stream b' = sb_stream b"
proof -
  from batch_streamD[OF assms(1) act] have idle: "px_forwards p = 0" "px_finalizers p = []" "\<not> px_fetching p" by metis+
  from step show ?thesis
  proof cases
    case (complete j kind out p1)
    with assms(7) have "j \<noteq> i" by auto
    with i have "i \<in> set (remove1 j (sb_inflight b))" by simp
    moreover from this have "remove1 j (sb_inflight b) \<noteq> []" by auto
    ultimately show ?thesis using complete act i
      by (auto simp: handle_completion_inner_def Let_def start_completion_def update_stream_def
          split: if_splits sum.splits option.splits)
  qed (use idle act i in \<open>auto simp: try_take_next_def begin_fetch_def Let_def split: if_splits list.splits\<close>)
qed

lemma inflight_run:
  assumes "proxy_run x calm p ls p'" and "proxy_ok p" and "prints x" and "px_active p = AcSmugBatch b"
    and "i \<in> set (sb_inflight b)" and "\<forall>kind. Complete i kind \<notin> set ls"
  shows "\<exists>b'. px_active p' = AcSmugBatch b' \<and> i \<in> set (sb_inflight b') \<and> sb_stream b' = sb_stream b"
  using assms
proof (induction rule: proxy_run.induct)
  case (step p ls p' l p'')
  from step obtain b' where b': "px_active p' = AcSmugBatch b'" "i \<in> set (sb_inflight b')" "sb_stream b' = sb_stream b"
    by auto
  have "proxy_ok p'" using step by (auto intro: proxy_run_ok)
  from inflight_stays[OF this step.prems(2) step.hyps(3,2) b'(1,2)] step.prems(5) b'(3) show ?case by auto
qed auto

text \<open>
  An id that is no valid header value is taken out of the queue although it cannot be
  handed to the runtime (the runtime gets a 502), and as long as no completion arrives under that
  id, which the runtime was never told, the batch stays active and its stream open.
\<close>

theorem undeliverable_id_keeps_batch:
  assumes "prints x" and "proxy_run x calm proxy_init ls p" and "px_active p = AcSmugBatch b"
    and "sb_queue b = vi # vs" and "\<not> x_header_value x (vi_id vi)" and "try_take_next x p = (r, p')"
    and "proxy_run x calm p' ls' p''" and "\<forall>kind. Complete (vi_id vi) kind \<notin> set ls'"
  shows "r = Inl 502 \<and> (\<exists>b' s. px_active p'' = AcSmugBatch b' \<and> vi_id vi \<in> set (sb_inflight b') \<and>
    sb_stream b = Some s \<and> sb_stream b' = Some s \<and> \<not> us_closed (px_streams p'' ! s))"
proof -
  from proxy_run_ok[OF assms(2) proxy_init_ok assms(1)] have ok: "proxy_ok p" .
  from try_take_next_ok[OF ok assms(6)] have ok': "proxy_ok p'" .
  from assms(3-6) obtain b1 where b1: "r = Inl 502" "px_active p' = AcSmugBatch b1" "vi_id vi \<in> set (sb_inflight b1)"
    "sb_stream b1 = sb_stream b" by (auto simp: try_take_next_def Let_def)
  from inflight_run[OF assms(7) ok' assms(1) b1(2,3) assms(8)] b1(4) obtain b' where
    b': "px_active p'' = AcSmugBatch b'" "vi_id vi \<in> set (sb_inflight b')" "sb_stream b' = sb_stream b" by auto
  from proxy_run_ok[OF assms(7) ok' assms(1)] have "proxy_ok p''" .
  from batch_streamD[OF this b'(1)] obtain s where "sb_stream b' = Some s" "\<not> us_closed (px_streams p'' ! s)" by metis
  with b1(1) b' show ?thesis by (intro conjI exI[of _ b'] exI[of _ s]) simp_all
qed

definition odd_ext :: ext where
  "odd_ext = demo_ext\<lparr>x_header_value := (\<lambda>s. s \<noteq> ''i1'')\<rparr>"

theorem undeliverable_id_keeps_batch_witness:
  "\<exists>p b vi vs (p' :: proxy). px_active p = AcSmugBatch b \<and> sb_queue b = vi # vs \<and>
     try_take_next odd_ext p = (Inl 502, p') \<and> (\<exists>b' s. px_active p' = AcSmugBatch b' \<and> sb_stream b' = Some s \<and>
       \<not> us_closed (px_streams p' ! s))"
proof -
  define p where "p = the (proxy_execs odd_ext calm proxy_init [BeginFetch, EndFetch (Inr (demo_next ''o'' ''b''))])"
  have pr: "prints odd_ext" by (simp add: prints_def odd_ext_def demo_ext_def)
  have run: "proxy_run odd_ext calm proxy_init [BeginFetch, EndFetch (Inr (demo_next ''o'' ''b''))] p"
    by (rule proxy_execs_run) (simp add: p_def odd_ext_def proxy_eval)
  obtain b where b: "px_active p = AcSmugBatch b" "sb_queue b = [\<lparr>vi_id = ''i1'', vi_event_bytes = ''p''\<rparr>,
      \<lparr>vi_id = ''i2'', vi_event_bytes = ''p''\<rparr>]" by (simp add: p_def odd_ext_def proxy_eval)
  obtain r p' where t: "try_take_next odd_ext p = (r, p')" by (metis prod.exhaust)
  have bad: "\<not> x_header_value odd_ext (vi_id \<lparr>vi_id = ''i1'', vi_event_bytes = ''p''\<rparr>)" by (simp add: odd_ext_def)
  from undeliverable_id_keeps_batch[OF pr run b bad t proxy_run.start] t b show ?thesis by simp blast
qed

subsection \<open>A completion forwarded twice\<close>

text \<open>
  The restriction of these guarantees to runs without a second completion during a
  forward is needed. A completion of a passed through invocation that is posted twice is forwarded
  twice; the second answer of the upstream API, arriving when the next batch is already active,
  discards that batch: the proxy is idle, an id of the batch is undelivered, another has been handed
  to the runtime, and the response stream of the batch is open for ever.
\<close>

theorem stale_forward_discards_batch:
  "\<exists>ls p i. proxy_run demo_ext any_label proxy_init ls p \<and> px_active p = AcNone \<and> px_forwards p = 0 \<and>
     px_finalizers p = [] \<and> px_streams p = [\<lparr>us_request_id = ''o'', us_ids = [''i1'', ''i2''], us_lines = [], us_closed = False\<rparr>]"
proof -
  let ?pass = "\<lparr>ht_status = 200, ht_headers = [], ht_body = ''x''\<rparr>"
  let ?ls = "[BeginFetch, EndFetch (Inr (demo_next ''q'' ''x'')), Deliver ?pass,
      Complete ''q'' (CkResponse [] ''r''), Complete ''q'' (CkResponse [] ''r''), ForwardDone (Inr 202),
      BeginFetch, EndFetch (Inr (demo_next ''o'' ''b'')), Deliver (demo_reply ''i1''), ForwardDone (Inr 202)]"
  let ?p = "proxy_init\<lparr>px_streams := [\<lparr>us_request_id = ''o'', us_ids = [''i1'', ''i2''], us_lines = [], us_closed = False\<rparr>]\<rparr>"
  have "proxy_run demo_ext any_label proxy_init ?ls ?p"
    by (rule proxy_execs_run) (simp add: proxy_eval)
  then show ?thesis by - (rule exI[of _ ?ls], rule exI[of _ ?p], simp add: proxy_init_def)
qed

end
