(* ===== verification/Gw_Lp_Wire.thy ===== *)
theory Gw_Lp_Wire
  imports Gw_Plan Gw_Framing Lp_Life
begin

text \<open>
  The gateway and the layer proxy on one wire: the payload the gateway builds is the batch the proxy
  takes apart, and the record the proxy writes is the record the gateway dispatches.
\<close>

subsection \<open>What the JSON library promises for a document\<close>

text \<open>
  The compact writer of \<^verbatim>\<open>serde_json\<close> prints the document on one line and the reader gives it back.
\<close>

definition wire_ok :: "ext \<Rightarrow> json \<Rightarrow> bool" where
  "wire_ok x j \<longleftrightarrow> (case x_json_print x j of
      None \<Rightarrow> False
    | Some b \<Rightarrow> x_json_parse x b = Some j \<and> b \<noteq> [] \<and> last b \<noteq> carriage_return \<and> newline \<notin> set b)"

lemma wire_okE:
  assumes "wire_ok x j"
  obtains b where "x_json_print x j = Some b" "x_json_parse x b = Some j" "b \<noteq> []" "last b \<noteq> carriage_return"
    "newline \<notin> set b"
  using assms by (auto simp: wire_ok_def split: option.splits)

subsection \<open>Objects as maps\<close>

lemma bt_insert_map: "map (\<lambda>(k, v). (k, f v)) (bt_insert k v m) = bt_insert k (f v) (map (\<lambda>(k, v). (k, f v)) m)"
  by (induction k v m rule: bt_insert.induct) auto

lemma last_wins_map:
  "last_wins (map (\<lambda>(k, v). (k, f v)) kvs) (map (\<lambda>(k, v). (k, f v)) m) = map (\<lambda>(k, v). (k, f v)) (last_wins kvs m)"
  by (induction kvs m rule: last_wins.induct) (simp_all flip: bt_insert_map)

lemma value_get_to_value:
  assumes "distinct (map fst kvs)"
  shows "value_get (to_value (JObj kvs)) k = map_option to_value (map_of kvs k)"
proof -
  have "map fst (map (\<lambda>(k, v). (k, to_value v)) kvs) = map fst kvs" by (induction kvs) auto
  with assms have "distinct (map fst (map (\<lambda>(k, v). (k, to_value v)) kvs))" by (simp only:)
  from map_of_last_wins[OF this, of "[]"]
  have "map_of (last_wins (map (\<lambda>(k, v). (k, to_value v)) kvs) []) = map_of (map (\<lambda>(k, v). (k, to_value v)) kvs)"
    by simp
  then show ?thesis by (simp add: map_of_map)
qed

lemma dec_str_map_to_value: "dec_str_map (to_value (enc_str_map m)) = Some (last_wins m [])"
proof -
  have "map (\<lambda>(k, v). (k, to_value v)) (map (\<lambda>(k, v). (k, JStr v)) m) = map (\<lambda>(k, v). (k, JStr v)) m"
    by (induction m) auto
  then have "to_value (enc_str_map m) = JObj (map (\<lambda>(k, v). (k, JStr v)) (last_wins m []))"
    using last_wins_map[of JStr m "[]"] by (simp add: enc_str_map_def del: map_map)
  moreover have "distinct (map fst (last_wins m []))" using last_wins_ok[of m] by (simp add: hm_ok_def)
  ultimately show ?thesis using dec_str_pairs_append[of "[]" "last_wins m []"] by simp
qed

lemma to_value_str_list [simp]: "to_value (enc_str_list xs) = enc_str_list xs"
  by (simp add: enc_str_list_def)

text \<open>
  An environment for the examples: \<open>b\<close> is the batch event of one request, \<open>p\<close> the record of its
  response with status 201, \<open>r\<close> what the runtime answers.
\<close>

definition wire_req :: pending_request where
  "wire_req = \<lparr>pr_id = ''i1'', pr_method = GET, pr_path = ''/'', pr_route = ''/'', pr_path_params = [], pr_headers = [],
     pr_query = [], pr_raw_query_string = [], pr_body = [], pr_respond_to = SinkStream 3 13\<rparr>"

definition wire_event :: json where
  "wire_event = batch_event sample_key 0 [batch_item_of plain_ext 0 wire_req]"

definition wire_ext :: ext where
  "wire_ext = plain_ext\<lparr>x_json_print := (\<lambda>j. if j = wire_event then Some ''b'' else Some ''p''),
     x_json_parse := (\<lambda>b. if b = ''b'' then Some wire_event
        else if b = ''p'' then Some (enc_lp_record (error_record ''i1'' 201))
        else if b = ''r'' then Some (JObj [(''statusCode'', JInt 201)]) else None)\<rparr>"

lemma wire_print: "x_json_print wire_ext j = (if j = wire_event then Some ''b'' else Some ''p'')"
  by (simp add: wire_ext_def)

lemma wire_prints: "x_json_print wire_ext j \<noteq> None" "pr_id wire_req = ''i1''"
  by (simp_all add: wire_print wire_req_def)

lemma wire_item: "batch_item_of wire_ext t req = batch_item_of plain_ext t req"
  by (simp add: batch_item_of_def encode_body_def wire_ext_def Let_def)

lemma wire_payload: "build_payload_bytes wire_ext sample_key 0 (map (batch_item_of wire_ext 0) [wire_req]) = Inr ''b''"
  by (simp add: build_payload_bytes_def to_vec_def wire_item wire_print wire_event_def)

lemma wire_event_ok: "wire_ok wire_ext (batch_event sample_key 0 (map (batch_item_of wire_ext 0) [wire_req]))"
  by (simp add: wire_ok_def wire_item wire_print flip: wire_event_def) (simp add: wire_ext_def)

lemma wire_completion: "completion_record wire_ext ''i1'' (CkResponse [] ''r'') = error_record ''i1'' 201"
  by (simp add: wire_ext_def proxy_eval error_record_def)

lemma wire_record_event: "enc_lp_record (error_record i st) \<noteq> wire_event"
  by (simp add: enc_lp_record_def wire_event_def batch_event_def)

lemma wire_record_ok: "wire_ok wire_ext (enc_lp_record (error_record ''i1'' 201))"
  using wire_record_event by (simp add: wire_ok_def wire_ext_def)

subsection \<open>From the gateway to the proxy\<close>

lemma item_id_of_item: "item_id (to_value (enc_batch_item b)) = Some (rc_request_id (bi_request_context b))"
proof -
  have d: "distinct (map fst (case enc_batch_item b of JObj kvs \<Rightarrow> kvs))"
    "distinct (map fst (case enc_request_context (bi_request_context b) of JObj kvs \<Rightarrow> kvs))"
    by (auto simp: enc_batch_item_def enc_request_context_def opt_field_def map_field_def split: option.splits)
  have "value_get (to_value (enc_batch_item b)) ''requestContext'' =
      Some (to_value (enc_request_context (bi_request_context b)))"
    using d(1) unfolding enc_batch_item_def json.case
    by (subst value_get_to_value) (auto simp: opt_field_def map_field_def split: option.splits)
  moreover have "value_get (to_value (enc_request_context (bi_request_context b))) ''requestId'' =
      Some (JStr (rc_request_id (bi_request_context b)))"
    using d(2) unfolding enc_request_context_def json.case
    by (subst value_get_to_value) (auto simp: opt_field_def split: option.splits)
  ultimately show ?thesis by (simp add: item_id_def)
qed

lemma dec_envelope_batch_event:
  "dec_envelope (batch_event key t items) = Some \<lparr>ob_v = 1, ob_batch = map (to_value \<circ> enc_batch_item) items\<rparr>"
proof -
  have "all_some (map (Some \<circ> f) xs) = Some (map f xs)" for f :: "json \<Rightarrow> json" and xs by (induction xs) auto
  from this[of to_value "map enc_batch_item items"] show ?thesis
    by (simp add: dec_envelope_def batch_event_def struct_view_def req_field_def def_field_def Let_def)
qed

lemma payload_parsed:
  assumes "build_payload_bytes x key t (map (batch_item_of x t) reqs) = Inr payload"
    and "wire_ok x (batch_event key t (map (batch_item_of x t) reqs))"
    and "distinct (map pr_id reqs)"
    and "\<forall>req \<in> set reqs. x_json_print x (to_value (enc_batch_item (batch_item_of x t req))) \<noteq> None"
  shows "\<exists>vs. parse_outer_smug_batch x payload = Inr (Some vs) \<and> map vi_id vs = map pr_id reqs \<and>
    map (\<lambda>v. Some (vi_event_bytes v)) vs =
      map (\<lambda>req. x_json_print x (to_value (enc_batch_item (batch_item_of x t req)))) reqs"
proof -
  let ?items = "map (to_value \<circ> enc_batch_item \<circ> batch_item_of x t) reqs"
  from assms(1,2) have parse: "x_json_parse x payload = Some (batch_event key t (map (batch_item_of x t) reqs))"
    by (auto simp: build_payload_bytes_def to_vec_def elim: wire_okE)
  then have env: "from_slice x dec_envelope payload = Inr \<lparr>ob_v = 1, ob_batch = ?items\<rparr>"
    by (simp add: from_slice_def dec_envelope_batch_event comp_assoc)
  have ids: "map item_id ?items = map Some (map pr_id reqs)"
    by (simp add: item_id_of_item batch_item_of_def Let_def)
  obtain vs where vs: "parse_items x ?items [] = Inr vs" "map vi_id vs = map pr_id reqs"
    using parse_items_total[of ?items x "map pr_id reqs" "[]", OF _ ids assms(3)] assms(4) by auto
  from parse_items_Inr[OF vs(1)] have "map (\<lambda>v. Some (vi_event_bytes v)) vs = map (x_json_print x) ?items"
    by (simp add: comp_def)
  moreover have "parse_outer_smug_batch x payload = Inr (Some vs)"
    using env vs by (cases reqs) (simp_all add: parse_outer_smug_batch_def)
  ultimately show ?thesis using vs(2) by (simp add: comp_def)
qed

text \<open>
  Property C39: the payload the gateway builds for a batch of requests with distinct ids is taken
  apart by the layer proxy into exactly those requests: one virtual invocation per request, in the
  order of the batch, under the id of the request, whose event is the item of that request printed.
\<close>

theorem payload_reaches_proxy:
  assumes "build_payload_bytes x key t (map (batch_item_of x t) reqs) = Inr payload"
    and "wire_ok x (batch_event key t (map (batch_item_of x t) reqs))"
    and "distinct (map pr_id reqs)"
    and "\<forall>req \<in> set reqs. x_json_print x (to_value (enc_batch_item (batch_item_of x t req))) \<noteq> None"
  shows "\<exists>vs. parse_outer_smug_batch x payload = Inr (Some vs) \<and> map vi_id vs = map pr_id reqs \<and>
    map (\<lambda>v. Some (vi_event_bytes v)) vs =
      map (\<lambda>req. x_json_print x (to_value (enc_batch_item (batch_item_of x t req)))) reqs"
  using assms by (rule payload_parsed)

theorem payload_reaches_proxy_witness:
  "\<exists>vs. parse_outer_smug_batch wire_ext ''b'' = Inr (Some vs) \<and> map vi_id vs = [''i1'']"
  using payload_reaches_proxy[OF wire_payload wire_event_ok] wire_prints by auto

subsection \<open>From the proxy to the gateway\<close>

lemma struct_view_obj:
  assumes "hm_ok m"
  obtains known where "struct_view names (JObj m) = Some known"
    "\<And>k. map_of known k = (if k \<in> set names then map_of m k else None)"
proof
  show "struct_view names (JObj m) = Some (filter (\<lambda>(k, v). k \<in> set names) m)"
    using assms by (auto simp: struct_view_def hm_ok_def Let_def intro: distinct_map_filter)
  show "map_of (filter (\<lambda>(k, v). k \<in> set names) m) k = (if k \<in> set names then map_of m k else None)" for k
    by (induction m) auto
qed

definition legacy_of :: "lp_record \<Rightarrow> legacy_record" where
  "legacy_of r = \<lparr>lr_v = lp_v r, lr_id = lp_id r, lr_status_code = lp_status_code r,
     lr_headers = last_wins (lp_headers r) [], lr_cookies = lp_cookies r, lr_body = lp_body r,
     lr_is_base64_encoded = lp_is_base64_encoded r\<rparr>"

lemma to_value_record:
  obtains m where "to_value (enc_lp_record r) = JObj m" "hm_ok m"
    "map_of m = map_of [(''v'', JInt (int (lp_v r))), (''id'', JStr (lp_id r)),
       (''statusCode'', JInt (int (lp_status_code r))), (''headers'', to_value (enc_str_map (lp_headers r))),
       (''cookies'', enc_str_list (lp_cookies r)), (''body'', JStr (lp_body r)),
       (''isBase64Encoded'', JBool (lp_is_base64_encoded r))]"
  by (rule that) (auto simp: enc_lp_record_def map_of_last_wins last_wins_ok simp del: last_wins.simps)

lemma dec_legacy_of:
  assumes "lp_v r < 256" and "lp_status_code r < 65536"
  shows "dec_legacy_record (to_value (enc_lp_record r)) = Some (legacy_of r)"
proof -
  obtain m where m: "to_value (enc_lp_record r) = JObj m" "hm_ok m"
    "map_of m = map_of [(''v'', JInt (int (lp_v r))), (''id'', JStr (lp_id r)),
       (''statusCode'', JInt (int (lp_status_code r))), (''headers'', to_value (enc_str_map (lp_headers r))),
       (''cookies'', enc_str_list (lp_cookies r)), (''body'', JStr (lp_body r)),
       (''isBase64Encoded'', JBool (lp_is_base64_encoded r))]" by (rule to_value_record)
  obtain known where known:
    "struct_view [''v'', ''id'', ''statusCode'', ''headers'', ''cookies'', ''body'', ''isBase64Encoded''] (JObj m) = Some known"
    "\<And>k. map_of known k =
       (if k \<in> set [''v'', ''id'', ''statusCode'', ''headers'', ''cookies'', ''body'', ''isBase64Encoded''] then map_of m k else None)"
    using struct_view_obj[OF m(2)] by blast
  show ?thesis using assms
    by (simp add: m(1) dec_legacy_record_def known req_field_def def_field_def m(3) dec_str_map_to_value legacy_of_def)
qed

lemma no_type_field: "value_get (to_value (enc_lp_record r)) ''type'' = None"
  by (rule to_value_record[of r]) simp

lemma parse_legacy_of:
  assumes "x_json_parse x b = Some (enc_lp_record r)" and "lp_v r < 256" and "lp_status_code r < 65536"
  shows "parse_stream_record x b = Inr (Legacy (legacy_of r))"
  using assms by (simp add: parse_stream_record_def from_slice_def no_type_field dec_legacy_of)

lemma dec_uint_bound: "dec_uint n j = Some v \<Longrightarrow> v < 2 ^ n"
  by (cases j) (auto split: if_splits simp: nat_less_iff)

lemma dec_apigw_fields:
  "dec_apigw_v2_response i j = Some r \<Longrightarrow> lp_v r = 1 \<and> lp_id r = i \<and> lp_status_code r < 65536 \<and> hm_ok (lp_headers r)"
  by (auto simp: dec_apigw_v2_response_def req_field_def def_field_def split: bind_splits option.splits
      dest: dec_str_map_ok dec_uint_bound)

lemma completion_record_fields:
  "lp_v (completion_record x i kind) = 1" "lp_status_code (completion_record x i kind) < 65536"
  "hm_ok (lp_headers (completion_record x i kind))"
  by (auto simp: completion_record_def error_record_def parse_apigw_v2_response_def from_slice_def ok_or_def
      split: completion_kind.splits sum.splits option.splits bind_splits dest: dec_apigw_fields)

text \<open>
  The line the proxy writes for a completion is read by the gateway as the record of
  that request: version 1, the id of the completion, and the status, headers, cookies, body and
  encoding flag the runtime gave (or those of the error record). Nothing is lost but the order of
  the headers, which neither side fixes.
\<close>

theorem completion_record_roundtrip:
  assumes "wire_ok x (enc_lp_record (completion_record x i kind))"
  shows "\<exists>b l. completion_line x i kind = b @ [newline] \<and> newline \<notin> set b \<and> parse_stream_record x b = Inr (Legacy l) \<and>
    (let r = completion_record x i kind in
     lr_v l = 1 \<and> lr_id l = i \<and> lr_status_code l = lp_status_code r \<and> map_of (lr_headers l) = map_of (lp_headers r) \<and>
     lr_cookies l = lp_cookies r \<and> lr_body l = lp_body r \<and> lr_is_base64_encoded l = lp_is_base64_encoded r)"
proof -
  let ?r = "completion_record x i kind"
  obtain b where b: "x_json_print x (enc_lp_record ?r) = Some b" "x_json_parse x b = Some (enc_lp_record ?r)" "newline \<notin> set b"
    using assms by (rule wire_okE)
  have "completion_line x i kind = b @ [newline]"
    using b(1) by (simp add: completion_line_def encode_record_line_def to_vec_def)
  moreover have "parse_stream_record x b = Inr (Legacy (legacy_of ?r))"
    using b(2) completion_record_fields by (simp add: parse_legacy_of)
  moreover have "map_of (lr_headers (legacy_of ?r)) = map_of (lp_headers ?r)"
    using completion_record_fields(3)[of x i kind] by (simp add: legacy_of_def map_of_last_wins hm_ok_def)
  ultimately show ?thesis using b(3) completion_record_fields[of x i kind]
    by (intro exI[of _ b] exI[of _ "legacy_of ?r"]) (simp add: legacy_of_def Let_def)
qed

theorem completion_record_roundtrip_witness:
  "\<exists>b l. parse_stream_record wire_ext b = Inr (Legacy l) \<and> lr_v l = 1 \<and> lr_id l = ''i1'' \<and> lr_status_code l = 201"
  using completion_record_roundtrip[of wire_ext "''i1''" "CkResponse [] ''r''"] wire_record_ok
  by (auto simp: wire_completion Let_def error_record_def)

end
