(* ===== verification/Gw_Lp_Service.thy ===== *)
theory Gw_Lp_Service
  imports Gw_Lp_Wire
begin

text \<open>
  A streamed batch through the whole system: the gateway's payload, the layer proxy's life with it,
  and the dispatch of the proxy's response stream to the waiting clients.
\<close>

subsection \<open>The lines of a finished batch\<close>

lemma lines_of_records:
  assumes "\<And>b. b \<in> set bs \<Longrightarrow> b \<noteq> [] \<and> last b \<noteq> carriage_return \<and> newline \<notin> set b"
  shows "lines_of (concat (map (\<lambda>b. b @ [newline]) bs)) = bs \<and> rest_of (concat (map (\<lambda>b. b @ [newline]) bs)) = []"
  using assms
proof (induction bs)
  case Nil
  then show ?case using lines_of_no_newline[of "[]"] by simp
next
  case (Cons b bs)
  then have b: "newline \<notin> set b" "strip_cr b = b" "b \<noteq> []" by (simp_all add: strip_cr_def)
  from lines_of_line[OF b(1), of "concat (map (\<lambda>b. b @ [newline]) bs)"] b Cons show ?case by simp
qed

text \<open>The response the gateway makes of a record.\<close>

definition response_of :: "ext \<Rightarrow> lp_record \<Rightarrow> ext_error + gateway_response" where
  "response_of x r = (let l = legacy_of r in
     build_gateway_response_parts x (lr_status_code l) (lr_headers l) (lr_cookies l) (lr_body l) (lr_is_base64_encoded l))"

lemma handle_line_record:
  assumes parse: "x_json_parse x b = Some (enc_lp_record r)" and r: "lp_v r = 1" "lp_id r = i" "lp_status_code r < 65536"
    and resp: "response_of x r = Inr resp" and e: "hm_get pending i = Some \<lparr>st_init = Some c, st_body = d\<rparr>"
  shows "handle_line x env bs w b (pending, lg) =
    Inr (hm_delete i pending, lg @ [Init c (InitResponse (with_meta bs w resp)) (env (length lg) c), BodyClosed d])"
proof -
  have "parse_stream_record x b = Inr (Legacy (legacy_of r))" using parse r by (simp add: parse_legacy_of)
  with resp r e show ?thesis
    by (simp add: handle_line_def dispatch_stream_record_def dispatch_entry_def dispatch_legacy_def record_v_def
        record_id_def legacy_of_def response_of_def Let_def send_init_def)
qed

definition answers :: "(string \<Rightarrow> chan) \<Rightarrow> (string \<Rightarrow> chan) \<Rightarrow> (string \<Rightarrow> gateway_response) \<Rightarrow> (string \<Rightarrow> bool) \<Rightarrow>
    string list \<Rightarrow> log" where
  "answers c d resp ok order = concat (map (\<lambda>i. [Init (c i) (InitResponse (resp i)) (ok i), BodyClosed (d i)]) order)"

lemma run_lines_records:
  assumes "distinct order"
    and "\<And>i. i \<in> set order \<Longrightarrow> x_json_parse x (b i) = Some (enc_lp_record (r i)) \<and> lp_v (r i) = 1 \<and> lp_id (r i) = i \<and>
        lp_status_code (r i) < 65536 \<and> response_of x (r i) = Inr (resp i) \<and>
        hm_get pending i = Some \<lparr>st_init = Some (c i), st_body = d i\<rparr>"
  shows "\<exists>ok. run_lines x env bs w (map b order) (pending, lg) =
    Inr (filter (\<lambda>p. fst p \<notin> set order) pending, lg @ answers c d (\<lambda>i. with_meta bs w (resp i)) ok order)"
  using assms
proof (induction order arbitrary: pending lg)
  case Nil
  then show ?case by (simp add: answers_def)
next
  case (Cons i order)
  let ?lg = "lg @ [Init (c i) (InitResponse (with_meta bs w (resp i))) (env (length lg) (c i)), BodyClosed (d i)]"
  from Cons.prems(2)[of i] have one: "handle_line x env bs w (b i) (pending, lg) = Inr (hm_delete i pending, ?lg)"
    by (simp add: handle_line_record)
  have rest: "hm_get (hm_delete i pending) j = hm_get pending j" if "j \<in> set order" for j
    using that Cons.prems(1) by (auto simp: delete_conv')
  obtain ok where ok: "run_lines x env bs w (map b order) (hm_delete i pending, ?lg) =
      Inr (filter (\<lambda>p. fst p \<notin> set order) (hm_delete i pending),
        ?lg @ answers c d (\<lambda>i. with_meta bs w (resp i)) ok order)"
    using Cons.IH[of "hm_delete i pending" ?lg] Cons.prems rest by auto
  have same: "answers c d f (ok(i := v)) order = answers c d f ok order" for f v
    using Cons.prems(1) by (auto simp: answers_def intro!: arg_cong[where f = concat])
  then have cons: "answers c d f (ok(i := v)) (i # order) =
      [Init (c i) (InitResponse (f i)) v, BodyClosed (d i)] @ answers c d f ok order" for f v
    unfolding answers_def by simp
  have filt: "filter (\<lambda>p. fst p \<notin> set order) (hm_delete i pending) = filter (\<lambda>p. fst p \<notin> set (i # order)) pending"
    by (induction pending) auto
  show ?case
    by (rule exI[of _ "ok(i := env (length lg) (c i))"])
      (simp add: one ok filt cons del: fun_upd_apply)
qed

text \<open>The dispatch of the finished stream, however it is cut into chunks.\<close>

lemma dispatch_records:
  assumes "distinct order" and keys: "fst ` set pending = set order"
    and "concat cs = concat (map (\<lambda>i. b i @ [newline]) order)" and "length (concat cs) \<le> max_buffer_bytes"
    and bytes: "\<And>i. i \<in> set order \<Longrightarrow> b i \<noteq> [] \<and> last (b i) \<noteq> carriage_return \<and> newline \<notin> set (b i)"
    and recs: "\<And>i. i \<in> set order \<Longrightarrow> x_json_parse x (b i) = Some (enc_lp_record (r i)) \<and> lp_v (r i) = 1 \<and>
        lp_id (r i) = i \<and> lp_status_code (r i) < 65536 \<and> response_of x (r i) = Inr (resp i) \<and>
        hm_get pending i = Some \<lparr>st_init = Some (c i), st_body = d i\<rparr>"
  shows "\<exists>ok. dispatch_response_stream x env w (map Inr cs) pending lg =
    lg @ answers c d (\<lambda>i. with_meta (length pending) w (resp i)) ok order"
proof -
  have whole: "lines_of (concat cs) = map b order \<and> rest_of (concat cs) = []"
  proof -
    have "lines_of (concat (map (\<lambda>b. b @ [newline]) (map b order))) = map b order \<and>
        rest_of (concat (map (\<lambda>b. b @ [newline]) (map b order))) = []"
      by (rule lines_of_records) (use bytes in auto)
    then show ?thesis using assms(3) by (simp add: comp_def)
  qed
  from run_lines_records[of order x b r resp pending c d env "length pending" w lg, OF assms(1) recs]
  obtain ok where ok: "run_lines x env (length pending) w (map b order) (pending, lg) =
      Inr (filter (\<lambda>p. fst p \<notin> set order) pending,
        lg @ answers c d (\<lambda>i. with_meta (length pending) w (resp i)) ok order)" by blast
  have "filter (\<lambda>p. fst p \<notin> set order) pending = []" using keys by (auto simp: filter_empty_conv)
  with ok whole have "stream_text x env w (concat cs) pending lg =
      lg @ answers c d (\<lambda>i. with_meta (length pending) w (resp i)) ok order"
    by (simp add: stream_text_def finish_stream_def strip_tail_def)
  with dispatch_response_stream_text[OF assms(4)] show ?thesis by auto
qed

subsection \<open>The whole service\<close>


lemma wire_line: "completion_line wire_ext ''i1'' (CkResponse [] ''r'') = ''p'' @ [newline]"
  by (simp add: completion_line_def encode_record_line_def to_vec_def wire_completion wire_print wire_record_event)


end
