(* ===== verification/Gw_Numbers.thy ===== *)
theory Gw_Numbers
  imports Gw_Json Gw_Float
begin

text \<open>
  Scalars of a YAML document and the number visitors of \<^verbatim>\<open>gateway/src/serde_ext.rs\<close>: a number, or a
  string that holds one, because CloudFormation turns numbers into strings. The YAML reader gives
  every scalar its text and the type it resolves to; what the visitors accept, and the decimal
  parsers of the standard library they call, are defined here.
\<close>

datatype scalar = SNull | SBool bool | SInt int | SFloat f64 | SStr

datatype yaml =
    YScalar string scalar
  | YSeq "yaml list"
  | YMap "(yaml \<times> yaml) list"

subsection \<open>Parsing decimal numbers\<close>

abbreviation is_digit :: "char \<Rightarrow> bool" where
  "is_digit c \<equiv> byte_in 0x30 0x39 c"

definition digit_value :: "char \<Rightarrow> nat" where
  "digit_value c = of_char c - 48"

definition u64_max :: nat where
  "u64_max = 2 ^ 64 - 1"

fun digits_u64 :: "string \<Rightarrow> nat \<Rightarrow> nat option" where
  "digits_u64 [] acc = Some acc"
| "digits_u64 (c # s) acc =
     (if is_digit c \<and> acc * 10 + digit_value c \<le> u64_max then digits_u64 s (acc * 10 + digit_value c) else None)"

text \<open>\<^verbatim>\<open>str::parse::<u64>\<close>: an optional plus sign, then digits only, at least one, without overflow.\<close>

definition parse_u64 :: "string \<Rightarrow> nat option" where
  "parse_u64 s =
     (let t = (case s of c # r \<Rightarrow> if c = CHR ''+'' then r else s | [] \<Rightarrow> [])
      in if t = [] then None else digits_u64 t 0)"

definition digits_nat :: "string \<Rightarrow> nat" where
  "digits_nat s = foldl (\<lambda>a c. a * 10 + digit_value c) 0 s"

definition split_sign :: "string \<Rightarrow> bool \<times> string" where
  "split_sign s = (case s of c # r \<Rightarrow> if c = CHR ''-'' then (True, r) else if c = CHR ''+'' then (False, r) else (False, s)
     | [] \<Rightarrow> (False, []))"

definition parse_exponent :: "string \<Rightarrow> int option" where
  "parse_exponent s =
     (case s of
        [] \<Rightarrow> Some 0
      | c # r \<Rightarrow>
          if c = CHR ''e'' \<or> c = CHR ''E'' then
            (let (neg, ds) = split_sign r
             in if ds \<noteq> [] \<and> list_all is_digit ds
                then Some (if neg then - int (digits_nat ds) else int (digits_nat ds)) else None)
          else None)"

text \<open>\<^verbatim>\<open>str::parse::<f64>\<close>: the decimal value, correctly rounded.\<close>

definition parse_f64 :: "string \<Rightarrow> f64 option" where
  "parse_f64 s =
     (let (neg, t) = split_sign s; l = to_ascii_lowercase t
      in if l = ''inf'' \<or> l = ''infinity'' then Some (f_inf neg)
         else if l = ''nan'' then Some F_NaN
         else
           let ip = takeWhile is_digit t; r1 = dropWhile is_digit t;
               (fp, r2) = (case r1 of c # r \<Rightarrow> if c = CHR ''.'' then (takeWhile is_digit r, dropWhile is_digit r) else ([], r1)
                 | [] \<Rightarrow> ([], []))
           in if ip = [] \<and> fp = [] then None
              else (case parse_exponent r2 of
                  None \<Rightarrow> None
                | Some e \<Rightarrow>
                    let v = of_nat (digits_nat (ip @ fp)) * 10 powi (e - int (length fp))
                    in Some (fl (if neg then - v else v))))"

subsection \<open>The visitors\<close>

text \<open>An integer that fits neither \<^verbatim>\<open>u64\<close> nor \<^verbatim>\<open>i64\<close> is not offered to \<^verbatim>\<open>visit_u64\<close> or \<^verbatim>\<open>visit_i64\<close>.\<close>

definition visit_i64 :: "int \<Rightarrow> nat option" where
  "visit_i64 v = (if v < 0 then None else Some (nat v))"

definition f_fract_zero :: "f64 \<Rightarrow> bool" where
  "f_fract_zero v = (case v of F_Fin q \<Rightarrow> q = of_int (rat_trunc q) | _ \<Rightarrow> False)"

definition visit_f64 :: "f64 \<Rightarrow> nat option" where
  "visit_f64 v =
     (if \<not> f_is_finite v \<or> f_less v (F_Fin 0) then None
      else if \<not> f_fract_zero v then None
      else Some (f_to_u64 v))"

definition visit_str :: "string \<Rightarrow> nat option" where
  "visit_str v = parse_u64 (trim v)"

definition de_u64_or_string :: "yaml \<Rightarrow> nat option" where
  "de_u64_or_string y =
     (case y of
        YScalar _ (SInt v) \<Rightarrow> if 0 \<le> v \<and> v \<le> int u64_max then Some (nat v) else if - (2 ^ 63) \<le> v \<and> v < 0 then visit_i64 v else None
      | YScalar _ (SFloat v) \<Rightarrow> visit_f64 v
      | YScalar str SStr \<Rightarrow> visit_str str
      | _ \<Rightarrow> None)"

text \<open>\<^verbatim>\<open>usize\<close> is 64 bits wide where the gateway runs.\<close>

definition usize_visit_u64 :: "nat \<Rightarrow> nat option" where
  "usize_visit_u64 v = (if v \<le> u64_max then Some v else None)"

definition de_usize_or_string :: "yaml \<Rightarrow> nat option" where
  "de_usize_or_string y =
     (case y of
        YScalar _ (SInt v) \<Rightarrow>
          if 0 \<le> v \<and> v \<le> int u64_max then usize_visit_u64 (nat v)
          else if - (2 ^ 63) \<le> v \<and> v < 0 then Option.bind (visit_i64 v) usize_visit_u64 else None
      | YScalar _ (SFloat v) \<Rightarrow> Option.bind (visit_f64 v) usize_visit_u64
      | YScalar str SStr \<Rightarrow> Option.bind (visit_str str) usize_visit_u64
      | _ \<Rightarrow> None)"

definition de_option_u64_or_string :: "yaml \<Rightarrow> nat option option" where
  "de_option_u64_or_string y = (case y of YScalar _ SNull \<Rightarrow> Some None | _ \<Rightarrow> map_option Some (de_u64_or_string y))"

definition de_f64_or_string :: "yaml \<Rightarrow> f64 option" where
  "de_f64_or_string y =
     (case y of
        YScalar _ (SFloat v) \<Rightarrow> Some v
      | YScalar _ (SInt v) \<Rightarrow> if - (2 ^ 63) \<le> v \<and> v \<le> int u64_max then Some (fl (of_int v)) else None
      | YScalar str SStr \<Rightarrow> parse_f64 (trim str)
      | _ \<Rightarrow> None)"

subsection \<open>Numbers as strings\<close>

lemma digits_u64_append: "digits_u64 (s @ t) acc = Option.bind (digits_u64 s acc) (digits_u64 t)"
  by (induction s acc rule: digits_u64.induct) auto

lemma digit_char: "n < 10 \<Longrightarrow> is_digit (char_of (48 + n)) \<and> digit_value (char_of (48 + n)) = n"
  by (simp add: byte_in_def digit_value_def)

lemma digits_show_nat: "n \<le> u64_max \<Longrightarrow> digits_u64 (show_nat n) 0 = Some n"
proof (induction n rule: show_nat.induct)
  case (1 n)
  show ?case
  proof (cases "n < 10")
    case True
    with 1 digit_char[of n] show ?thesis by (simp add: show_nat.simps[of n])
  next
    case False
    have "n div 10 \<le> u64_max" using 1 by linarith
    with 1 False have "digits_u64 (show_nat (n div 10)) 0 = Some (n div 10)" by simp
    moreover have "n div 10 * 10 + n mod 10 = n" by simp
    ultimately show ?thesis using False 1 digit_char[of "n mod 10"]
      by (simp add: show_nat.simps[of n] digits_u64_append)
  qed
qed

lemma show_nat_digits: "list_all is_digit (show_nat n) \<and> show_nat n \<noteq> []"
proof (induction n rule: show_nat.induct)
  case (1 n)
  then show ?case using digit_char[of n] digit_char[of "n mod 10"] by (auto simp: show_nat.simps[of n])
qed

lemma digit_not_plus: "is_digit c \<Longrightarrow> c \<noteq> CHR ''+''"
  by (auto simp: byte_in_def)

lemma parse_show_nat: "n \<le> u64_max \<Longrightarrow> parse_u64 (show_nat n) = Some n"
  using show_nat_digits[of n] digits_show_nat[of n]
  by (cases "show_nat n") (auto simp: parse_u64_def Let_def digit_not_plus)

lemma digits_u64_bound: "digits_u64 s acc = Some n \<Longrightarrow> acc \<le> u64_max \<Longrightarrow> n \<le> u64_max"
  by (induction s acc rule: digits_u64.induct) (auto split: if_splits)

lemma strip_first_hd: "\<forall>w \<in> set ws. hd w \<noteq> c \<Longrightarrow> strip_first ws (c # s) = None"
proof (induction ws)
  case (Cons w ws)
  then show ?case by (cases w) auto
qed simp

lemma strip_first_Nil [simp]: "strip_first ws [] = None"
  by (induction ws) auto

lemma whitespace_not_digit: "\<forall>w \<in> set whitespace. \<not> is_digit (hd w) \<and> \<not> is_digit (hd (rev w))"
  by (simp add: whitespace_def byte_in_def)

lemma trim_digits:
  assumes "list_all is_digit s"
  shows "trim s = s"
proof (cases s)
  case Nil
  then show ?thesis by (simp add: trim_def trim_start_def trim_end_def strip_all_fixed)
next
  case (Cons c t)
  have "strip_first whitespace s = None" using assms Cons whitespace_not_digit by (auto intro: strip_first_hd)
  then have start: "trim_start s = s" by (simp add: trim_start_def strip_all_fixed)
  obtain d u where "rev s = d # u" using Cons by (cases "rev s") auto
  moreover from this have "is_digit d" using assms by (metis list.pred_inject(2) list_all_rev)
  ultimately have "strip_first (map rev whitespace) (rev s) = None"
    using whitespace_not_digit by (auto intro!: strip_first_hd)
  then show ?thesis using start by (simp add: trim_def trim_end_def strip_all_fixed)
qed

text \<open>
  Turning a number into a string does not change what is read. Every unsigned 64-bit
  integer is read alike from a number and from any string that is its decimal form up to
  surrounding white space, by each of the integer visitors, and each of them only ever gives a
  value that fits.
\<close>

theorem number_as_string:
  assumes "n \<le> u64_max" and "trim s = show_nat n"
  shows "de_u64_or_string (YScalar s SStr) = Some n \<and> de_u64_or_string (YScalar q (SInt (int n))) = Some n \<and>
    de_usize_or_string (YScalar s SStr) = Some n \<and> de_usize_or_string (YScalar q (SInt (int n))) = Some n \<and>
    de_option_u64_or_string (YScalar s SStr) = Some (Some n) \<and>
    (\<forall>y m. de_u64_or_string y = Some m \<longrightarrow> m \<le> u64_max) \<and> (\<forall>y m. de_usize_or_string y = Some m \<longrightarrow> m \<le> u64_max)"
proof -
  have str: "visit_str s = Some n" using parse_show_nat[OF assms(1)] assms(2) by (simp add: visit_str_def)
  have u64: "m \<le> u64_max" if "visit_f64 v = Some m \<or> visit_str t = Some m \<or> (visit_i64 i = Some m \<and> i < 0)" for v t i m
    using that by (cases v) (auto simp: visit_f64_def visit_str_def visit_i64_def parse_u64_def Let_def u64_max_def
        f_is_finite_def split: if_splits dest: digits_u64_bound)
  have bound: "m \<le> u64_max" if "de_u64_or_string y = Some m" for y m
    using that u64 by (auto simp: de_u64_or_string_def u64_max_def nat_le_iff split: yaml.splits scalar.splits if_splits)
  have usize: "m \<le> u64_max" if "de_usize_or_string y = Some m" for y m
    using that by (auto simp: de_usize_or_string_def usize_visit_u64_def split: yaml.splits scalar.splits if_splits bind_splits)
  show ?thesis
    using assms(1) str bound usize
    by (auto simp: de_u64_or_string_def de_usize_or_string_def usize_visit_u64_def de_option_u64_or_string_def)
qed

theorem number_as_string_witness:
  "de_u64_or_string (YScalar (show_nat 250) SStr) = Some 250 \<and> de_u64_or_string (YScalar [] (SInt 250)) = Some 250 \<and>
   de_usize_or_string (YScalar (show_nat 250) SStr) = Some 250"
  using number_as_string[of 250 "show_nat 250" "[]"] show_nat_digits[of 250] by (simp add: u64_max_def trim_digits)

text \<open>
  A number with a fractional part, a negative or a non-finite one is refused; but a number
  too large for 64 bits is not: it is read as the largest one.
\<close>

theorem float_numbers:
  "(\<forall>q. de_u64_or_string (YScalar s (SFloat (F_Fin q))) =
      (if 0 \<le> q \<and> q \<in> \<int> then Some (min (nat \<lfloor>q\<rfloor>) u64_max) else None)) \<and>
   de_u64_or_string (YScalar s (SFloat F_NaN)) = None \<and> de_u64_or_string (YScalar s (SFloat F_PosInf)) = None \<and>
   de_u64_or_string (YScalar s (SFloat (F_Fin (2 ^ 70)))) = Some u64_max"
proof -
  have fin: "de_u64_or_string (YScalar s (SFloat (F_Fin q))) = (if 0 \<le> q \<and> q \<in> \<int> then Some (min (nat \<lfloor>q\<rfloor>) u64_max) else None)" for q
  proof -
    have "q = of_int (rat_trunc q) \<longleftrightarrow> q \<in> \<int>" if "0 \<le> q"
      using that by (auto simp: rat_trunc_def Ints_def)
    then show ?thesis
      by (auto simp: de_u64_or_string_def visit_f64_def f_is_finite_def f_fract_zero_def u64_max_def rat_trunc_def)
  qed
  have "(2 :: rat) ^ 70 = of_int (2 ^ 70)" by simp
  then have "(2 :: rat) ^ 70 \<in> \<int>" by (metis Ints_of_int)
  with fin[of "2 ^ 70"] have "de_u64_or_string (YScalar s (SFloat (F_Fin (2 ^ 70)))) = Some u64_max"
    by (simp add: u64_max_def)
  with fin show ?thesis by (simp add: de_u64_or_string_def visit_f64_def f_is_finite_def)
qed

end
