(* ===== verification/Gw_Batcher.thy ===== *)
theory Gw_Batcher
  imports Gw_Flush
begin

text \<open>
  The per-key batcher tasks of \<^verbatim>\<open>gateway/src/batching.rs\<close>: \<^verbatim>\<open>batcher_task\<close> with its fixed and its
  dynamic variant, \<^verbatim>\<open>sigmoid_wait_ms\<close> and \<^verbatim>\<open>DynamicRateEstimator\<close>. What the tasks learn from
  the runtime (clock readings, results of \<^verbatim>\<open>recv\<close> under a timeout, the branch a \<^verbatim>\<open>select!\<close>
  takes) is a list consumed in order, clock readings in nanoseconds; a task whose list is used up is waiting.
\<close>

subsection \<open>The dynamic wait\<close>

text \<open>\<open>exp\<close> of the platform is the parameter \<open>fexp\<close>.\<close>

definition sigmoid_wait_ms :: "(f64 \<Rightarrow> f64) \<Rightarrow> f64 \<Rightarrow> nat \<Rightarrow> nat \<Rightarrow> f64 \<Rightarrow> f64 \<Rightarrow> nat" where
  "sigmoid_wait_ms fexp rps min_wait_ms max_wait_ms target_rps steepness =
     (if max_wait_ms \<le> min_wait_ms then max_wait_ms
      else
        let adjusted = f_mul (f_sub rps target_rps) steepness;
            sigmoid = f_div (F_Fin 1) (f_add (F_Fin 1) (fexp (f_neg adjusted)));
            scaled = f_add (f_of_nat min_wait_ms) (f_mul sigmoid (f_of_nat (max_wait_ms - min_wait_ms)));
            rounded = f_round scaled;
            clamped = f_trunc (f_clamp rounded (f_of_nat min_wait_ms) (f_of_nat max_wait_ms))
        in f_to_u64 clamped)"

record rate_estimator =
  est_interval_ms :: nat
  est_window_size :: nat
  est_count :: "64 word"
  est_samples_rps :: "f64 list"

definition estimator_new :: "nat \<Rightarrow> nat \<Rightarrow> rate_estimator" where
  "estimator_new interval_ms window_size =
     \<lparr>est_interval_ms = interval_ms, est_window_size = window_size, est_count = 0, est_samples_rps = []\<rparr>"

definition record_request :: "rate_estimator \<Rightarrow> rate_estimator" where
  "record_request e = e\<lparr>est_count := (if est_count e = - 1 then est_count e else est_count e + 1)\<rparr>"

text \<open>\<^verbatim>\<open>Duration::as_secs_f64\<close> of a whole number of milliseconds.\<close>

definition as_secs_f64 :: "nat \<Rightarrow> f64" where
  "as_secs_f64 ms =
     f_add (f_of_nat (ms div 1000)) (f_div (f_of_nat (ms mod 1000 * 10 ^ 6)) (f_of_nat (10 ^ 9)))"

definition current_rps :: "rate_estimator \<Rightarrow> f64" where
  "current_rps e =
     (let secs = as_secs_f64 (est_interval_ms e)
      in if f_less (F_Fin 0) secs then f_div (f_of_nat (unat (est_count e))) secs else F_Fin 0)"

fun pop_front_to :: "nat \<Rightarrow> 'a list \<Rightarrow> 'a list" where
  "pop_front_to w [] = []"
| "pop_front_to w (x # xs) = (if length (x # xs) > w then pop_front_to w xs else x # xs)"

definition tick :: "rate_estimator \<Rightarrow> rate_estimator" where
  "tick e = e\<lparr>est_count := 0,
     est_samples_rps := pop_front_to (est_window_size e) (est_samples_rps e @ [current_rps e])\<rparr>"

definition smoothed_rps :: "rate_estimator \<Rightarrow> f64" where
  "smoothed_rps e =
     (if est_samples_rps e = [] then F_Fin 0
      else f_div (foldl f_add (F_Fin 0) (est_samples_rps e)) (f_of_nat (length (est_samples_rps e))))"

subsection \<open>The fixed batcher\<close>

datatype recv_result = Got pending_request | Shut | Elapsed

text \<open>
  The inner loop. The flag says that it ended (the batch is to be flushed); the remaining clock
  readings and \<^verbatim>\<open>recv\<close> results are returned.
\<close>

fun fill_fixed :: "nat \<Rightarrow> nat \<Rightarrow> pending_request list \<Rightarrow> nat list \<Rightarrow> recv_result list \<Rightarrow>
    bool \<times> pending_request list \<times> nat list \<times> recv_result list" where
  "fill_fixed max_batch_size flush_at batch clock recvs =
     (if length batch < max_batch_size then
        (case clock of
           [] \<Rightarrow> (False, batch, clock, recvs)
         | now # clock' \<Rightarrow>
             if now \<ge> flush_at then (True, batch, clock', recvs)
             else (case recvs of
                 [] \<Rightarrow> (False, batch, clock', recvs)
               | Got req # recvs' \<Rightarrow> fill_fixed max_batch_size flush_at (batch @ [req]) clock' recvs'
               | Shut # recvs' \<Rightarrow> (True, batch, clock', recvs')
               | Elapsed # recvs' \<Rightarrow> (True, batch, clock', recvs')))
      else (True, batch, clock, recvs))"

declare fill_fixed.simps [simp del]

datatype task_state = Exited | WaitingFirst | WaitingMore "pending_request list"

lemma fill_fixed_recvs: "fill_fixed mb fa batch clock recvs = (d, batch', clock', recvs') \<Longrightarrow> length recvs' \<le> length recvs"
proof (induction mb fa batch clock recvs rule: fill_fixed.induct)
  case (1 mb fa batch clock recvs)
  from "1.prems" show ?case
    by (subst (asm) fill_fixed.simps)
      (auto split: if_splits list.splits recv_result.splits dest!: "1.IH"[rotated -1])
qed

text \<open>
  The task. \<open>flush\<close> is \<^verbatim>\<open>flush_batch\<close> with the arguments it does not change, and its state is
  threaded through; a batch of at most one request does not look at the clock.
\<close>

function batcher_task_fixed :: "(nat \<Rightarrow> f64 option \<Rightarrow> pending_request list \<Rightarrow> 's \<Rightarrow> 's) \<Rightarrow> nat \<Rightarrow> nat \<Rightarrow>
    nat list \<Rightarrow> recv_result list \<Rightarrow> 's \<Rightarrow> 's \<times> task_state" where
  "batcher_task_fixed flush max_wait_ms max_batch_size clock recvs s =
     (case recvs of
        [] \<Rightarrow> (s, WaitingFirst)
      | Shut # _ \<Rightarrow> (s, Exited)
      | Elapsed # _ \<Rightarrow> (s, Exited)
      | Got first # recvs' \<Rightarrow>
          if max_batch_size > 1 then
            (case clock of
               [] \<Rightarrow> (s, WaitingMore [first])
             | now # clock' \<Rightarrow>
                 (case fill_fixed max_batch_size (now + max_wait_ms * 10 ^ 6) [first] clock' recvs' of
                    (done_, batch, clock'', recvs'') \<Rightarrow>
                      if done_ then batcher_task_fixed flush max_wait_ms max_batch_size clock'' recvs''
                                      (flush max_wait_ms None batch s)
                      else (s, WaitingMore batch)))
          else batcher_task_fixed flush max_wait_ms max_batch_size clock recvs' (flush max_wait_ms None [first] s))"
  by pat_completeness auto
termination
  by (relation "measure (\<lambda>(flush, w, mb, clock, recvs, s). length recvs)")
    (auto dest!: sym[of _ "fill_fixed _ _ _ _ _"] fill_fixed_recvs)

declare batcher_task_fixed.simps [simp del]

subsection \<open>The dynamic batcher\<close>

text \<open>The branches of the two \<^verbatim>\<open>select!\<close>: the timer in scope, the sampler, or the queue.\<close>

datatype select_event = Timer | SamplerTick | Req pending_request | Closed

fun wait_first :: "rate_estimator \<Rightarrow> select_event list \<Rightarrow>
    rate_estimator \<times> select_event list \<times> (task_state + pending_request)" where
  "wait_first est [] = (est, [], Inl WaitingFirst)"
| "wait_first est (Timer # es) = (est, es, Inl Exited)"
| "wait_first est (SamplerTick # es) = wait_first (tick est) es"
| "wait_first est (Req r # es) = (est, es, Inr r)"
| "wait_first est (Closed # es) = (est, es, Inl Exited)"

text \<open>The fill loop: \<open>None\<close> when it is still waiting, otherwise whether the queue was closed.\<close>

fun fill_dynamic :: "nat \<Rightarrow> rate_estimator \<Rightarrow> pending_request list \<Rightarrow> select_event list \<Rightarrow>
    rate_estimator \<times> pending_request list \<times> select_event list \<times> bool option" where
  "fill_dynamic max_batch_size est batch [] =
     (if length batch < max_batch_size then (est, batch, [], None) else (est, batch, [], Some False))"
| "fill_dynamic max_batch_size est batch (e # es) =
     (if length batch < max_batch_size then
        (case e of
           Timer \<Rightarrow> (est, batch, es, Some False)
         | SamplerTick \<Rightarrow> fill_dynamic max_batch_size (tick est) batch es
         | Req r \<Rightarrow>
             if length (batch @ [r]) \<ge> max_batch_size
             then (record_request est, batch @ [r], es, Some False)
             else fill_dynamic max_batch_size (record_request est) (batch @ [r]) es
         | Closed \<Rightarrow> (est, batch, es, Some True))
      else (est, batch, e # es, Some False))"

lemma wait_first_events: "wait_first est es = (est', es', Inr r) \<Longrightarrow> length es' < length es"
  by (induction est es rule: wait_first.induct) auto

lemma fill_dynamic_events: "fill_dynamic mb est batch es = (est', batch', es', d) \<Longrightarrow> length es' \<le> length es"
  by (induction mb est batch es rule: fill_dynamic.induct)
    (auto split: if_splits select_event.splits)

function dynamic_loop :: "(f64 \<Rightarrow> f64) \<Rightarrow> (nat \<Rightarrow> f64 option \<Rightarrow> pending_request list \<Rightarrow> 's \<Rightarrow> 's) \<Rightarrow> nat \<Rightarrow> nat \<Rightarrow>
    dynamic_wait_config \<Rightarrow> rate_estimator \<Rightarrow> select_event list \<Rightarrow> 's \<Rightarrow> 's \<times> task_state" where
  "dynamic_loop fexp flush max_wait_ms max_batch_size dw est events s =
     (case wait_first est events of
        (est, events, Inl st) \<Rightarrow> (s, st)
      | (est, events, Inr first) \<Rightarrow>
          (let est = record_request est;
               wait_ms = sigmoid_wait_ms fexp (smoothed_rps est) (dw_min_wait_ms dw) max_wait_ms
                           (dw_target_rps dw) (dw_steepness dw)
           in case fill_dynamic max_batch_size est [first] events of
                (est, batch, events, None) \<Rightarrow> (s, WaitingMore batch)
              | (est, batch, events, Some was_closed) \<Rightarrow>
                  (let s = flush wait_ms (Some (smoothed_rps est)) batch s
                   in if was_closed then (s, Exited)
                      else dynamic_loop fexp flush max_wait_ms max_batch_size dw est events s)))"
  by pat_completeness auto
termination
proof (relation "measure (\<lambda>(fexp, flush, w, mb, dw, est, events, s). length events)", goal_cases)
  case 1
  then show ?case by simp
next
  case prems: (2 fexp flush w mb dw est events s a b c d e f g h i j k l m)
  then show ?case
    by (auto dest!: sym[of _ "wait_first _ _"] sym[of _ "fill_dynamic _ _ _ _"]
        wait_first_events fill_dynamic_events)
qed

declare dynamic_loop.simps [simp del]

definition batcher_task_dynamic :: "(f64 \<Rightarrow> f64) \<Rightarrow> (nat \<Rightarrow> f64 option \<Rightarrow> pending_request list \<Rightarrow> 's \<Rightarrow> 's) \<Rightarrow>
    nat \<Rightarrow> nat \<Rightarrow> dynamic_wait_config \<Rightarrow> select_event list \<Rightarrow> 's \<Rightarrow> 's \<times> task_state" where
  "batcher_task_dynamic fexp flush max_wait_ms max_batch_size dw events s =
     dynamic_loop fexp flush max_wait_ms max_batch_size dw
       (estimator_new (dw_sampling_interval_ms dw) (dw_smoothing_samples dw)) events s"

record batcher_config =
  bc_max_wait_ms :: nat
  bc_max_batch_size :: nat
  bc_dynamic_wait :: "dynamic_wait_config option"

definition batcher_config_of :: "operation_config \<Rightarrow> batcher_config" where
  "batcher_config_of op =
     \<lparr>bc_max_wait_ms = oc_max_wait_ms op, bc_max_batch_size = oc_max_batch_size op,
      bc_dynamic_wait = oc_dynamic_wait op\<rparr>"

definition batcher_task :: "(f64 \<Rightarrow> f64) \<Rightarrow> (nat \<Rightarrow> f64 option \<Rightarrow> pending_request list \<Rightarrow> 's \<Rightarrow> 's) \<Rightarrow>
    batcher_config \<Rightarrow> nat list \<Rightarrow> recv_result list \<Rightarrow> select_event list \<Rightarrow> 's \<Rightarrow> 's \<times> task_state" where
  "batcher_task fexp flush cfg clock recvs events s =
     (case bc_dynamic_wait cfg of
        Some dw \<Rightarrow> batcher_task_dynamic fexp flush (bc_max_wait_ms cfg) (bc_max_batch_size cfg) dw events s
      | None \<Rightarrow> batcher_task_fixed flush (bc_max_wait_ms cfg) (bc_max_batch_size cfg) clock recvs s)"

text \<open>The flush of the task for one key; \<open>now\<close> is the wall clock when the batch is flushed.\<close>

definition flush_step :: "ext \<Rightarrow> env \<Rightarrow> (nat \<Rightarrow> try_send) \<Rightarrow> (submit_state \<Rightarrow> 64 word) \<Rightarrow> batch_key \<Rightarrow> nat \<Rightarrow>
    nat \<Rightarrow> f64 option \<Rightarrow> pending_request list \<Rightarrow> submit_state \<Rightarrow> submit_state" where
  "flush_step x env ts now key max_bytes wait_ms rps batch s =
     flush_batch x env ts (now s) key max_bytes wait_ms rps batch s"

subsection \<open>What a task received and what it flushed\<close>

definition gots :: "recv_result list \<Rightarrow> pending_request list" where
  "gots rs = concat (map (\<lambda>r. case r of Got q \<Rightarrow> [q] | _ \<Rightarrow> []) rs)"

definition reqs :: "select_event list \<Rightarrow> pending_request list" where
  "reqs es = concat (map (\<lambda>e. case e of Req q \<Rightarrow> [q] | _ \<Rightarrow> []) es)"

definition held :: "task_state \<Rightarrow> pending_request list" where
  "held st = (case st of WaitingMore b \<Rightarrow> b | _ \<Rightarrow> [])"

lemma gots_simps [simp]:
  "gots [] = []" "gots (Got q # rs) = q # gots rs" "gots (Shut # rs) = gots rs" "gots (Elapsed # rs) = gots rs"
  "gots (a @ b) = gots a @ gots b"
  by (simp_all add: gots_def)

lemma reqs_simps [simp]:
  "reqs [] = []" "reqs (Req q # es) = q # reqs es" "reqs (Timer # es) = reqs es" "reqs (SamplerTick # es) = reqs es"
  "reqs (Closed # es) = reqs es" "reqs (a @ b) = reqs a @ reqs b"
  by (simp_all add: reqs_def)

lemma held_simps [simp]: "held Exited = []" "held WaitingFirst = []" "held (WaitingMore b) = b"
  by (simp_all add: held_def)

text \<open>The inner loop takes a prefix of the results; every turn costs a reading, the last one maybe two.\<close>

lemma fill_fixed_takes:
  assumes "fill_fixed mb fa batch clock recvs = (d, batch', clock', recvs')"
  shows "\<exists>used. recvs = used @ recvs' \<and> batch' = batch @ gots used \<and>
     (length batch \<le> mb \<longrightarrow> length batch' \<le> mb) \<and>
     length clock \<le> length clock' + length used + 1 \<and>
     (d \<or> clock' = [] \<or> recvs' = [])"
  using assms
proof (induction mb fa batch clock recvs arbitrary: d batch' rule: fill_fixed.induct)
  case (1 mb fa batch clock recvs)
  note prem = "1.prems"[unfolded fill_fixed.simps[of mb fa batch clock recvs]]
  show ?case
  proof (cases "length batch < mb")
    case False
    with prem show ?thesis by simp
  next
    case True
    note lt = this
    show ?thesis
    proof (cases clock)
      case Nil
      with prem lt show ?thesis by auto
    next
      case (Cons now cl)
      note cl = this
      show ?thesis
      proof (cases "now \<ge> fa \<or> recvs = []")
        case True
        with prem lt cl show ?thesis by (auto split: if_splits)
      next
        case False
        then obtain r rs where rs: "recvs = r # rs" "\<not> now \<ge> fa" by (cases recvs) auto
        show ?thesis
        proof (cases r)
          case (Got q)
          with prem lt cl rs have "fill_fixed mb fa (batch @ [q]) cl rs = (d, batch', clock', recvs')"
            by simp
          from "1.IH"[OF lt cl rs(2) rs(1) Got this] obtain used where u: "rs = used @ recvs'"
            "batch' = (batch @ [q]) @ gots used" "length (batch @ [q]) \<le> mb \<longrightarrow> length batch' \<le> mb"
            "length cl \<le> length clock' + length used + 1" "d \<or> clock' = [] \<or> recvs' = []"
            by blast
          with lt cl rs Got show ?thesis by (intro exI[of _ "Got q # used"]) simp
        next
          case Shut
          with prem lt cl rs show ?thesis by (intro exI[of _ "[Shut]"]) simp
        next
          case Elapsed
          with prem lt cl rs show ?thesis by (intro exI[of _ "[Elapsed]"]) simp
        qed
      qed
    qed
  qed
qed

definition good_batch :: "nat \<Rightarrow> pending_request list \<Rightarrow> bool" where
  "good_batch mb b \<longleftrightarrow> b \<noteq> [] \<and> length b \<le> max 1 mb"

lemma tight: "2 * (u + r) + 2 \<le> Suc c \<Longrightarrow> c \<le> c' + u + 1 \<Longrightarrow> c' = 0 \<or> r = 0 \<Longrightarrow> r = (0 :: nat)"
  by presburger

lemma good_batch_single: "good_batch mb [q]"
  by (simp add: good_batch_def)

text \<open>
  The contract of both loops, over the kind of events they take in: the batches that were flushed and
  the batch that is being filled are what the used part of the events brought, in order. \<open>enough\<close> says
  that the loop had all it needed to use every event.
\<close>

definition batch_run :: "('e list \<Rightarrow> pending_request list) \<Rightarrow> ('e \<Rightarrow> bool) \<Rightarrow> ('b \<Rightarrow> 's \<Rightarrow> 's) \<Rightarrow> ('b \<Rightarrow> pending_request list) \<Rightarrow>
    ('b \<Rightarrow> bool) \<Rightarrow> bool \<Rightarrow> 'e list \<Rightarrow> 's \<Rightarrow> 's \<Rightarrow> task_state \<Rightarrow> bool" where
  "batch_run content final flush requests good enough es s s' st \<longleftrightarrow>
     (\<exists>bs used rest. s' = fold flush bs s \<and> list_all good bs \<and> es = used @ rest \<and>
        content used = concat (map requests bs) @ held st \<and> (st = Exited \<longrightarrow> used \<noteq> [] \<and> final (last used)) \<and>
        (enough \<longrightarrow> st \<noteq> Exited \<longrightarrow> rest = []))"

locale batch_loop =
  fixes content :: "'e list \<Rightarrow> pending_request list" and final :: "'e \<Rightarrow> bool"
  assumes content_append: "content (us @ vs) = content us @ content vs"
begin

lemma content_Nil: "content [] = []"
  using content_append[of "[]" "[]"] by simp

lemma loop_stops:
  assumes "es = used @ rest" and "content used = held st" and "st = Exited \<longrightarrow> used \<noteq> [] \<and> final (last used)"
    and "enough \<longrightarrow> st \<noteq> Exited \<longrightarrow> rest = []" and "s' = s"
  shows "batch_run content final flush requests good enough es s s' st"
  unfolding batch_run_def using assms by (intro exI[of _ "[]"] exI[of _ used] exI[of _ rest]) simp

lemma loop_ends:
  assumes "es = used @ rest" and "content used = requests b" and "good b" and "used \<noteq> []" and "final (last used)"
    and "s' = flush b s" and "st = Exited"
  shows "batch_run content final flush requests good enough es s s' st"
  unfolding batch_run_def using assms by (intro exI[of _ "[b]"] exI[of _ used] exI[of _ rest]) (simp add: held_def)

lemma loop_flushes:
  assumes "es = us @ es'" and "content us = requests b" and "good b"
    and "batch_run content final flush requests good enough' es' (flush b s) s' st" and "enough \<longrightarrow> enough'"
  shows "batch_run content final flush requests good enough es s s' st"
proof -
  from assms(4) obtain bs used rest where "s' = fold flush bs (flush b s)" "list_all good bs" "es' = used @ rest"
    "content used = concat (map requests bs) @ held st" "st = Exited \<longrightarrow> used \<noteq> [] \<and> final (last used)"
    "enough' \<longrightarrow> st \<noteq> Exited \<longrightarrow> rest = []" unfolding batch_run_def by blast
  with assms(1-3,5) show ?thesis
    unfolding batch_run_def
    by (intro exI[of _ "b # bs"] exI[of _ "us @ used"] exI[of _ rest]) (auto simp: content_append)
qed

end

interpretation fixed: batch_loop gots "\<lambda>r. r \<in> {Shut, Elapsed}"
  by unfold_locales simp

interpretation dynamic: batch_loop reqs "\<lambda>e. e \<in> {Timer, Closed}"
  by unfold_locales simp

lemma fill_fixed_enough:
  assumes "fill_fixed mb fa [q] cl rs = (False, batch, cl', rs')" and "mb > 1" and "2 * length (Got q # rs) \<le> length (now # cl)"
  shows "rs' = []"
proof -
  from fill_fixed_takes[OF assms(1)] assms(2) obtain us where us: "rs = us @ rs'" "length cl \<le> length cl' + length us + 1"
    "cl' = [] \<or> rs' = []" by auto
  have "2 * (length us + length rs') + 2 \<le> Suc (length cl)" using assms(3) us(1) by simp
  moreover from us(3) have "length cl' = 0 \<or> length rs' = 0" by simp
  ultimately have "length rs' = 0" using us(2) tight by blast
  then show ?thesis by simp
qed

lemma batcher_task_fixed_run:
  assumes "batcher_task_fixed flush w mb clock recvs s = (s', st)"
  shows "batch_run gots (\<lambda>r. r \<in> {Shut, Elapsed}) (flush w None) id (good_batch mb) (2 * length recvs \<le> length clock) recvs s s' st"
  using assms
proof (induction flush w mb clock recvs s arbitrary: s' rule: batcher_task_fixed.induct)
  case (1 flush w mb clock recvs s)
  note prem = "1.prems"[unfolded batcher_task_fixed.simps[of flush w mb clock recvs s]]
  consider "recvs = []" | r rs where "recvs = r # rs" "r \<in> {Shut, Elapsed}" | q rs where "recvs = Got q # rs"
    by (metis insertI1 insertI2 neq_Nil_conv recv_result.exhaust)
  then show ?case
  proof cases
    case 1
    with prem show ?thesis by (intro fixed.loop_stops[of _ "[]" "[]"]) auto
  next
    case (2 r rs)
    then have "s' = s" "st = Exited" "gots [r] = []" using prem by (auto simp: gots_def)
    with 2 show ?thesis by (intro fixed.loop_stops[of _ "[r]" rs]) auto
  next
    case (3 q rs)
    note rs = this
    show ?thesis
    proof (cases "mb > 1")
      case False
      with prem rs have "batcher_task_fixed flush w mb clock rs (flush w None [q] s) = (s', st)" by simp
      from "1.IH"(2)[OF rs refl False this] show ?thesis
        by (rule fixed.loop_flushes[of _ "[Got q]" rs _ "[q]", rotated 3]) (simp_all add: rs good_batch_single)
    next
      case mb: True
      show ?thesis
      proof (cases clock)
        case Nil
        with prem rs mb show ?thesis by (intro fixed.loop_stops[of _ "[Got q]" rs]) auto
      next
        case cl: (Cons now cl)
        obtain d batch cl' rs' where f: "fill_fixed mb (now + w * 10 ^ 6) [q] cl rs = (d, batch, cl', rs')"
          by (metis prod.exhaust)
        from fill_fixed_takes[OF f] mb obtain us where us: "rs = us @ rs'" "batch = q # gots us" "length batch \<le> mb"
          "length cl \<le> length cl' + length us + 1" by auto
        show ?thesis
        proof (cases d)
          case False
          with prem rs mb cl f have "s' = s" "st = WaitingMore batch" by auto
          with fill_fixed_enough[of mb "now + w * 10 ^ 6" q cl rs batch cl' rs' now] f False mb us rs cl show ?thesis
            by (intro fixed.loop_stops[of _ "Got q # us" rs']) auto
        next
          case True
          with prem rs mb cl f have "batcher_task_fixed flush w mb cl' rs' (flush w None batch s) = (s', st)" by simp
          from "1.IH"(1)[OF rs refl mb cl f[symmetric] refl refl True this] show ?thesis
            by (rule fixed.loop_flushes[of _ "Got q # us" rs' _ batch, rotated 3]) (use us rs cl in \<open>auto simp: good_batch_def\<close>)
        qed
      qed
    qed
  qed
qed

lemma batcher_task_fixed_batches:
  assumes "batcher_task_fixed flush w mb clock recvs s = (s', st)"
  shows "\<exists>bs used rest. s' = fold (flush w None) bs s \<and> list_all (good_batch mb) bs \<and>
     recvs = used @ rest \<and> gots used = concat bs @ held st \<and>
     (st = Exited \<longrightarrow> used \<noteq> [] \<and> last used \<in> {Shut, Elapsed}) \<and>
     (2 * length recvs \<le> length clock \<longrightarrow> st \<noteq> Exited \<longrightarrow> rest = [])"
  using batcher_task_fixed_run[OF assms] by (simp add: batch_run_def)

subsection \<open>The dynamic task\<close>

lemma wait_first_takes:
  assumes "wait_first est es = (est', es', r)"
  shows "\<exists>used. es = used @ es' \<and>
     reqs used = (case r of Inl st \<Rightarrow> held st | Inr q \<Rightarrow> [q]) \<and>
     (r = Inl Exited \<longrightarrow> used \<noteq> [] \<and> last used \<in> {Timer, Closed}) \<and>
     (\<forall>st. r = Inl st \<longrightarrow> st \<noteq> Exited \<longrightarrow> es' = [])"
  using assms
proof (induction est es rule: wait_first.induct)
  case (3 est es)
  then obtain used where "es = used @ es'" "reqs used = (case r of Inl st \<Rightarrow> held st | Inr q \<Rightarrow> [q])"
    "r = Inl Exited \<longrightarrow> used \<noteq> [] \<and> last used \<in> {Timer, Closed}"
    "\<forall>st. r = Inl st \<longrightarrow> st \<noteq> Exited \<longrightarrow> es' = []" by auto
  then show ?case by (intro exI[of _ "SamplerTick # used"]) auto
next
  case (2 est es)
  then show ?case by (intro exI[of _ "[Timer]"]) auto
next
  case (4 est r es)
  then show ?case by (intro exI[of _ "[Req r]"]) auto
next
  case (5 est es)
  then show ?case by (intro exI[of _ "[Closed]"]) auto
qed auto

lemma fill_dynamic_takes:
  assumes "fill_dynamic mb est batch es = (est', batch', es', d)"
  shows "\<exists>used. es = used @ es' \<and> batch' = batch @ reqs used \<and>
     (length batch \<le> mb \<longrightarrow> length batch' \<le> mb) \<and>
     (d = Some True \<longrightarrow> used \<noteq> [] \<and> last used = Closed) \<and> (d = None \<longrightarrow> es' = [])"
  using assms
proof (induction mb est batch es rule: fill_dynamic.induct)
  case (1 mb est batch)
  then show ?case by (auto split: if_splits)
next
  case (2 mb est batch e es)
  show ?case
  proof (cases "length batch < mb")
    case False
    with 2 show ?thesis by auto
  next
    case True
    note lt = this
    show ?thesis
    proof (cases e)
      case Timer
      with 2 lt show ?thesis by (intro exI[of _ "[Timer]"]) auto
    next
      case Closed
      with 2 lt show ?thesis by (intro exI[of _ "[Closed]"]) auto
    next
      case SamplerTick
      with "2.prems" lt have "fill_dynamic mb (tick est) batch es = (est', batch', es', d)" by simp
      from "2.IH"(1)[OF lt SamplerTick this] obtain used where "es = used @ es'" "batch' = batch @ reqs used"
        "length batch \<le> mb \<longrightarrow> length batch' \<le> mb" "d = Some True \<longrightarrow> used \<noteq> [] \<and> last used = Closed"
        "d = None \<longrightarrow> es' = []" by blast
      with SamplerTick show ?thesis by (intro exI[of _ "SamplerTick # used"]) auto
    next
      case (Req q)
      show ?thesis
      proof (cases "length (batch @ [q]) \<ge> mb")
        case True
        with 2 lt Req show ?thesis by (intro exI[of _ "[Req q]"]) auto
      next
        case False
        with "2.prems" lt Req have "fill_dynamic mb (record_request est) (batch @ [q]) es = (est', batch', es', d)"
          by simp
        from "2.IH"(2)[OF lt Req False this] obtain used where "es = used @ es'"
          "batch' = (batch @ [q]) @ reqs used"
          "length (batch @ [q]) \<le> mb \<longrightarrow> length batch' \<le> mb" "d = Some True \<longrightarrow> used \<noteq> [] \<and> last used = Closed"
          "d = None \<longrightarrow> es' = []" by blast
        with Req lt show ?thesis by (intro exI[of _ "Req q # used"]) auto
      qed
    qed
  qed
qed

subsection \<open>Bounds of the dynamic wait\<close>

lemma f_not_NaN_ops:
  "f_add (F_Fin u) a = F_NaN \<longleftrightarrow> a = F_NaN"
  "y \<noteq> 0 \<Longrightarrow> f_div (F_Fin y) a = F_NaN \<longleftrightarrow> a = F_NaN"
  "y \<noteq> 0 \<Longrightarrow> f_mul a (F_Fin y) = F_NaN \<longleftrightarrow> a = F_NaN"
  "f_sub a (F_Fin u) = F_NaN \<longleftrightarrow> a = F_NaN"
  "f_neg a = F_NaN \<longleftrightarrow> a = F_NaN"
  "f_round a = F_NaN \<longleftrightarrow> a = F_NaN"
  by (cases a; simp add: f_inf_def f_sub_def f_round_def)+

lemma f_clamp_round:
  assumes "a \<noteq> F_NaN" and "m \<le> n"
  shows "\<exists>k. f_clamp (f_round a) (F_Fin (of_nat m)) (F_Fin (of_nat n)) = F_Fin (of_nat k) \<and> m \<le> k \<and> k \<le> n"
proof (cases a)
  case (F_Fin x)
  define r where "r = rat_round x"
  have f: "f_round a = F_Fin (of_int r)" by (simp add: F_Fin f_round_def r_def)
  consider "(of_int r :: rat) < of_nat m" | "(of_nat n :: rat) < of_int r"
    | "(of_nat m :: rat) \<le> of_int r" "(of_int r :: rat) \<le> of_nat n" by linarith
  then show ?thesis
  proof cases
    case 1
    with assms(2) show ?thesis by (intro exI[of _ m]) (simp add: f f_clamp_def)
  next
    case 2
    with assms(2) show ?thesis by (intro exI[of _ n]) (auto simp: f f_clamp_def Let_def)
  next
    case 3
    from 3(1) have r: "int m \<le> r" by (metis of_int_le_iff of_int_of_nat_eq)
    from 3(2) have r': "r \<le> int n" by (metis of_int_le_iff of_int_of_nat_eq)
    define k where "k = nat r"
    with r have k: "r = int k" by simp
    with r r' have "m \<le> k" "k \<le> n" by simp_all
    then have "f_clamp (f_round a) (F_Fin (of_nat m)) (F_Fin (of_nat n)) = F_Fin (of_nat k)"
      by (simp add: f k f_clamp_def Let_def)
    with \<open>m \<le> k\<close> \<open>k \<le> n\<close> show ?thesis by blast
  qed
qed (use assms in \<open>auto simp: f_clamp_def f_round_def Let_def\<close>)

lemma sigmoid_wait_bounds:
  assumes "min_w \<le> max_w" and "max_w < 2 ^ 53" and "rps \<noteq> F_NaN" and "target = F_Fin t"
    and "steepness = F_Fin k" and "k \<noteq> 0" and "\<And>a. a \<noteq> F_NaN \<Longrightarrow> fexp a \<noteq> F_NaN"
  shows "min_w \<le> sigmoid_wait_ms fexp rps min_w max_w target steepness
    \<and> sigmoid_wait_ms fexp rps min_w max_w target steepness \<le> max_w"
proof (cases "max_w \<le> min_w")
  case True
  with assms(1) show ?thesis by (simp add: sigmoid_wait_ms_def)
next
  case False
  define scaled where "scaled = f_add (f_of_nat min_w) (f_mul (f_div (F_Fin 1) (f_add (F_Fin 1)
      (fexp (f_neg (f_mul (f_sub rps target) steepness))))) (f_of_nat (max_w - min_w)))"
  have ex: "f_of_nat min_w = F_Fin (of_nat min_w)" "f_of_nat max_w = F_Fin (of_nat max_w)"
    "f_of_nat (max_w - min_w) = F_Fin (of_nat (max_w - min_w))"
    using assms(1,2) by (simp_all add: f_of_nat_exact del: of_nat_diff)
  have "(of_nat (max_w - min_w) :: rat) \<noteq> 0" using False by simp
  then have "scaled \<noteq> F_NaN"
    unfolding scaled_def ex using assms(3-7) by (simp add: f_not_NaN_ops del: of_nat_diff f_add.simps f_div.simps f_mul.simps)
  from f_clamp_round[OF this assms(1)] obtain j where
    j: "f_clamp (f_round scaled) (F_Fin (of_nat min_w)) (F_Fin (of_nat max_w)) = F_Fin (of_nat j)" "min_w \<le> j" "j \<le> max_w"
    by blast
  have "sigmoid_wait_ms fexp rps min_w max_w target steepness
      = f_to_u64 (f_trunc (f_clamp (f_round scaled) (f_of_nat min_w) (f_of_nat max_w)))"
    using False unfolding sigmoid_wait_ms_def Let_def scaled_def by simp
  also have "\<dots> = f_to_u64 (f_trunc (F_Fin (of_nat j)))" unfolding ex(1,2) j(1) ..
  also have "\<dots> = j"
  proof -
    have "j \<le> 2 ^ 64 - 1" using j(3) assms(2) by simp
    then show ?thesis by (simp add: f_trunc_def rat_trunc_def)
  qed
  finally show ?thesis using j(2,3) by simp
qed

text \<open>The estimator never feeds a NaN to the sigmoid.\<close>

definition est_ok :: "nat \<Rightarrow> rate_estimator \<Rightarrow> bool" where
  "est_ok w e \<longleftrightarrow> est_window_size e = w \<and> list_all f_nonneg (est_samples_rps e) \<and> length (est_samples_rps e) \<le> w"

lemma pop_front_to_drop: "pop_front_to w xs = drop (length xs - w) xs"
  by (induction w xs rule: pop_front_to.induct) (auto simp: Suc_diff_le)

lemma current_rps_nonneg: "f_nonneg (current_rps e)"
proof -
  have "unat (est_count e) < 2 ^ 64" using unsigned_less[of "est_count e", where ?'a = nat] by simp
  from f_of_nat_finite[OF this] show ?thesis
    by (auto simp: current_rps_def Let_def intro!: f_div_nonneg f_of_nat_nonneg)
qed

lemma estimator_new_ok: "est_ok w (estimator_new i w)"
  by (simp add: est_ok_def estimator_new_def)

lemma record_request_ok: "est_ok w e \<Longrightarrow> est_ok w (record_request e)"
  by (simp add: est_ok_def record_request_def)

lemma tick_ok: "est_ok w e \<Longrightarrow> est_ok w (tick e)"
  using current_rps_nonneg[of e]
  by (auto simp: est_ok_def tick_def pop_front_to_drop list_all_iff dest: in_set_dropD)

lemma foldl_f_add_nonneg: "f_nonneg a \<Longrightarrow> list_all f_nonneg xs \<Longrightarrow> f_nonneg (foldl f_add a xs)"
  by (induction xs arbitrary: a) (simp_all add: f_add_nonneg)

lemma smoothed_rps_not_NaN:
  assumes "est_ok w e" and "w < 2 ^ 53"
  shows "smoothed_rps e \<noteq> F_NaN"
proof -
  have "f_nonneg (foldl f_add (F_Fin 0) (est_samples_rps e))"
    using assms(1) by (simp add: est_ok_def foldl_f_add_nonneg)
  then show ?thesis
    using f_of_nat_exact[of "length (est_samples_rps e)"] assms
    by (cases "foldl f_add (F_Fin 0) (est_samples_rps e)") (simp_all add: smoothed_rps_def f_inf_def est_ok_def)
qed

lemma wait_first_ok: "est_ok w est \<Longrightarrow> est_ok w (fst (wait_first est es))"
  by (induction est es rule: wait_first.induct) (simp_all add: tick_ok)

lemma fill_dynamic_ok: "est_ok w est \<Longrightarrow> est_ok w (fst (fill_dynamic mb est batch es))"
  by (induction mb est batch es rule: fill_dynamic.induct)
    (auto simp: tick_ok record_request_ok split: select_event.split)

subsection \<open>The dynamic loop\<close>

definition dynamic_batch :: "(f64 \<Rightarrow> f64) \<Rightarrow> nat \<Rightarrow> nat \<Rightarrow> nat \<Rightarrow> dynamic_wait_config \<Rightarrow> nat \<times> f64 option \<times> pending_request list \<Rightarrow> bool" where
  "dynamic_batch fexp w mb n dw = (\<lambda>(wt, r, b). good_batch mb b \<and> (\<exists>e. est_ok n e \<and> wt = sigmoid_wait_ms fexp (smoothed_rps e)
     (dw_min_wait_ms dw) w (dw_target_rps dw) (dw_steepness dw)))"

lemma fill_dynamic_good:
  assumes "fill_dynamic mb est [q] es = (est', batch, es', d)" and "batch = q # reqs us" and "length [q] \<le> mb \<longrightarrow> length batch \<le> mb"
  shows "good_batch mb batch"
proof (cases "1 \<le> mb")
  case False
  with assms(1) have "batch = [q]" by (cases es) auto
  then show ?thesis by (simp add: good_batch_single)
qed (use assms(2,3) in \<open>simp add: good_batch_def\<close>)

lemma dynamic_loop_run:
  assumes "est_ok n est" and "dynamic_loop fexp flush w mb dw est es s = (s', st)"
  shows "batch_run reqs (\<lambda>e. e \<in> {Timer, Closed}) (\<lambda>(wt, r, b). flush wt r b) (\<lambda>b. snd (snd b)) (dynamic_batch fexp w mb n dw) True es s s' st"
  using assms
proof (induction fexp flush w mb dw est es s arbitrary: s' rule: dynamic_loop.induct)
  case (1 fexp flush w mb dw est es s)
  note prem = "1.prems"(2)[unfolded dynamic_loop.simps[of fexp flush w mb dw est es s]]
  obtain est1 es1 r where wf: "wait_first est es = (est1, es1, r)" by (metis prod.exhaust)
  from wait_first_takes[OF wf] obtain u1 where u1: "es = u1 @ es1"
    "reqs u1 = (case r of Inl st \<Rightarrow> held st | Inr q \<Rightarrow> [q])"
    "r = Inl Exited \<longrightarrow> u1 \<noteq> [] \<and> last u1 \<in> {Timer, Closed}"
    "\<forall>st. r = Inl st \<longrightarrow> st \<noteq> Exited \<longrightarrow> es1 = []" by blast
  show ?case
  proof (cases r)
    case (Inl st1)
    with prem wf have "s' = s" "st = st1" by auto
    with u1 Inl show ?thesis by (intro dynamic.loop_stops[of _ u1 es1]) auto
  next
    case (Inr q)
    define est2 where "est2 = record_request est1"
    have ok2: "est_ok n est2" unfolding est2_def
      using wait_first_ok[OF "1.prems"(1), of es] wf by (simp add: record_request_ok)
    define wt where "wt = sigmoid_wait_ms fexp (smoothed_rps est2) (dw_min_wait_ms dw) w (dw_target_rps dw) (dw_steepness dw)"
    obtain est3 batch es2 d where fd: "fill_dynamic mb est2 [q] es1 = (est3, batch, es2, d)" by (metis prod.exhaust)
    have ok3: "est_ok n est3" using fill_dynamic_ok[OF ok2, of mb "[q]" es1] fd by simp
    from fill_dynamic_takes[OF fd, unfolded append_Cons append_Nil] obtain u2 where u2: "es1 = u2 @ es2" "batch = q # reqs u2"
      "length [q] \<le> mb \<longrightarrow> length batch \<le> mb" "d = Some True \<longrightarrow> u2 \<noteq> [] \<and> last u2 = Closed" "d = None \<longrightarrow> es2 = []"
      by blast
    let ?b = "(wt, Some (smoothed_rps est3), batch)"
    have good: "dynamic_batch fexp w mb n dw ?b"
      using fill_dynamic_good[OF fd u2(2,3)] ok2 by (auto simp: dynamic_batch_def wt_def)
    have used: "es = (u1 @ u2) @ es2" "reqs (u1 @ u2) = batch" using u1(1,2) u2(1,2) Inr by simp_all
    consider "d = None" | "d = Some True" | "d = Some False" by (metis (full_types) option.exhaust)
    then show ?thesis
    proof cases
      case 1
      with prem wf Inr fd have "s' = s" "st = WaitingMore batch" by (auto simp: est2_def Let_def)
      with used u2(5) 1 show ?thesis by (intro dynamic.loop_stops[of _ "u1 @ u2" es2]) auto
    next
      case 2
      with prem wf Inr fd have "s' = flush wt (Some (smoothed_rps est3)) batch s" "st = Exited" by (auto simp: est2_def wt_def Let_def)
      then show ?thesis
        by (intro dynamic.loop_ends[of es "u1 @ u2" es2 "\<lambda>b. snd (snd b)" ?b]) (use used good u2(4) 2 in simp_all)
    next
      case 3
      with prem wf Inr fd have "dynamic_loop fexp flush w mb dw est3 es2 (flush wt (Some (smoothed_rps est3)) batch s) = (s', st)"
        by (simp add: est2_def wt_def Let_def)
      from "1.IH"[OF wf[symmetric] refl Inr est2_def wt_def fd[symmetric] refl refl 3 refl _ ok3] this
      have "batch_run reqs (\<lambda>e. e \<in> {Timer, Closed}) (\<lambda>(wt, r, b). flush wt r b) (\<lambda>b. snd (snd b)) (dynamic_batch fexp w mb n dw) True es2
          ((\<lambda>(wt, r, b). flush wt r b) ?b s) s' st" by simp
      then show ?thesis
        by (rule dynamic.loop_flushes[of es "u1 @ u2" es2 "\<lambda>b. snd (snd b)" ?b, rotated 3]) (use used good in simp_all)
    qed
  qed
qed

lemma dynamic_loop_batches:
  assumes "est_ok n est" and "dynamic_loop fexp flush w mb dw est es s = (s', st)"
  shows "\<exists>bs used rest. s' = fold (\<lambda>(wt, r, b). flush wt r b) bs s \<and> list_all (dynamic_batch fexp w mb n dw) bs \<and>
     es = used @ rest \<and> reqs used = concat (map (\<lambda>b. snd (snd b)) bs) @ held st \<and>
     (st = Exited \<longrightarrow> used \<noteq> [] \<and> last used \<in> {Timer, Closed}) \<and> (st \<noteq> Exited \<longrightarrow> rest = [])"
  using dynamic_loop_run[OF assms] by (simp add: batch_run_def)

lemma flush_step_fold:
  "submit_total (fold (\<lambda>(w, r, b). flush_step x env ts now key mx w r b) bs s)
     = submit_total s + batch_owes (concat (map (\<lambda>b. snd (snd b)) bs)) \<and>
   (list_all job_ok (fst (snd s)) \<longrightarrow>
    list_all job_ok (fst (snd (fold (\<lambda>(w, r, b). flush_step x env ts now key mx w r b) bs s))))"
proof (induction bs arbitrary: s)
  case (Cons b bs)
  obtain w r q where b: "b = (w, r, q)" by (metis prod.exhaust)
  let ?s = "flush_step x env ts now key mx w r q s"
  have "submit_total ?s = submit_total s + batch_owes q"
    "list_all job_ok (fst (snd s)) \<Longrightarrow> list_all job_ok (fst (snd ?s))"
    by (simp_all add: flush_step_def flush_batch_total flush_batch_jobs_ok)
  with Cons.IH[of ?s] show ?case by (simp add: b)
qed simp

lemma jobs_run_total:
  assumes "submit_total (n, jobs, lg) = t" and "list_all job_ok jobs" and "mset order = mset jobs"
  shows "settled (fold (run_invocation_job x env invoker) order lg) = t"
proof -
  from mset_eq_setD[OF assms(3)] assms(2) have "list_all job_ok order" by (simp add: list_all_iff)
  moreover have "jobs_owe order = jobs_owe jobs"
    using arg_cong[OF assms(3), of "\<lambda>m. \<Sum>\<^sub># (image_mset job_owes m)"]
    by (simp add: jobs_owe_def sum_mset_sum_list flip: mset_map)
  ultimately show ?thesis using assms(1) by (simp add: run_jobs_settled submit_total_def)
qed

lemma fold_fixed_dynamic:
  "fold (flush w None) bs s = fold (\<lambda>(w, r, b). flush w r b) (map (\<lambda>b. (w, None, b)) bs) s"
  by (induction bs arbitrary: s) simp_all

subsection \<open>Properties\<close>

text \<open>
  Property C22: the fixed batcher flushes requests in the order it received them, each in exactly
  one batch, in batches that are never empty and never larger than the configured size (or one);
  it holds back only the batch it is filling, and stops only on an idle timeout or a closed queue,
  with nothing in hand.
\<close>

theorem fixed_task_batches:
  assumes "batcher_task_fixed flush w mb clock recvs s = (s', st)"
  shows "\<exists>bs used rest. s' = fold (flush w None) bs s \<and> list_all (good_batch mb) bs \<and>
     recvs = used @ rest \<and> gots used = concat bs @ held st \<and>
     (st = Exited \<longrightarrow> used \<noteq> [] \<and> last used \<in> {Shut, Elapsed}) \<and>
     (2 * length recvs \<le> length clock \<longrightarrow> st \<noteq> Exited \<longrightarrow> rest = [])"
  by (rule batcher_task_fixed_batches[OF assms])

definition req_n :: "nat \<Rightarrow> pending_request" where
  "req_n n = sample_request (show_nat n) (SinkBuffered n)"

theorem fixed_task_batches_witness:
  "\<exists>bs. [[req_n 1, req_n 2], [req_n 3]] = fold (\<lambda>b l. l @ [b]) bs [] \<and> list_all (good_batch 2) bs"
proof -
  have t: "batcher_task_fixed (\<lambda>w r b l. l @ [b]) 5 2 [0, 1, 2, 3, 9000000, 9000001, 9000002, 9000003]
      [Got (req_n 1), Got (req_n 2), Got (req_n 3), Elapsed] [] = ([[req_n 1, req_n 2], [req_n 3]], WaitingFirst)"
    by (simp add: batcher_task_fixed.simps fill_fixed.simps)
  from fixed_task_batches[OF t] show ?thesis by blast
qed

text \<open>
  Property C21: the dynamic batcher has the same guarantees, and every batch it flushes was given a
  wait between the configured minimum and maximum, whatever the platform's \<open>exp\<close> returns, provided
  only that \<open>exp\<close> of a number is a number. The hypotheses are what the spec compiler checks.
\<close>

theorem dynamic_task_batches:
  assumes "batcher_task_dynamic fexp flush w mb dw es s = (s', st)"
    and "check_dynamic m route w dw = Inr ()" and "w < 2 ^ 53" and "dw_smoothing_samples dw < 2 ^ 53"
    and "\<And>a. a \<noteq> F_NaN \<Longrightarrow> fexp a \<noteq> F_NaN"
  shows "\<exists>bs used rest. s' = fold (\<lambda>(wt, r, b). flush wt r b) bs s \<and>
     list_all (\<lambda>(wt, r, b). good_batch mb b \<and> dw_min_wait_ms dw \<le> wt \<and> wt \<le> w) bs \<and>
     es = used @ rest \<and> reqs used = concat (map (\<lambda>b. snd (snd b)) bs) @ held st \<and>
     (st = Exited \<longrightarrow> used \<noteq> [] \<and> last used \<in> {Timer, Closed}) \<and> (st \<noteq> Exited \<longrightarrow> rest = [])"
proof -
  let ?n = "dw_smoothing_samples dw"
  from assms(2) have dyn: "dynamic_ok w dw" unfolding check_dynamic_Inr_iff .
  then obtain t k where tk: "dw_min_wait_ms dw \<le> w" "dw_target_rps dw = F_Fin t" "dw_steepness dw = F_Fin k" "k \<noteq> 0"
    unfolding dynamic_ok_def by force
  have wt: "dw_min_wait_ms dw \<le> v \<and> v \<le> w" if "est_ok ?n e" "v = sigmoid_wait_ms fexp (smoothed_rps e)
      (dw_min_wait_ms dw) w (dw_target_rps dw) (dw_steepness dw)" for e v
    unfolding that(2) by (rule sigmoid_wait_bounds[OF tk(1) assms(3) smoothed_rps_not_NaN[OF that(1) assms(4)] tk(2-4)]) (rule assms(5))
  from dynamic_loop_batches[OF estimator_new_ok assms(1)[unfolded batcher_task_dynamic_def], unfolded dynamic_batch_def]
  obtain bs used rest where u: "s' = fold (\<lambda>(wt, r, b). flush wt r b) bs s"
    "list_all (\<lambda>(wt, r, b). good_batch mb b \<and> (\<exists>e. est_ok ?n e \<and> wt = sigmoid_wait_ms fexp (smoothed_rps e)
        (dw_min_wait_ms dw) w (dw_target_rps dw) (dw_steepness dw))) bs"
    "es = used @ rest" "reqs used = concat (map (\<lambda>b. snd (snd b)) bs) @ held st"
    "st = Exited \<longrightarrow> used \<noteq> [] \<and> last used \<in> {Timer, Closed}" "st \<noteq> Exited \<longrightarrow> rest = []" by blast
  have "list_all (\<lambda>(wt, r, b). good_batch mb b \<and> dw_min_wait_ms dw \<le> wt \<and> wt \<le> w) bs"
  proof (rule list.pred_mono_strong[OF u(2)])
    fix b :: "nat \<times> f64 option \<times> pending_request list"
    obtain v r q where "b = (v, r, q)" by (metis prod.exhaust)
    moreover assume "case b of (wt, r, q) \<Rightarrow> good_batch mb q \<and> (\<exists>e. est_ok ?n e \<and> wt = sigmoid_wait_ms fexp
        (smoothed_rps e) (dw_min_wait_ms dw) w (dw_target_rps dw) (dw_steepness dw))"
    ultimately show "case b of (wt, r, q) \<Rightarrow> good_batch mb q \<and> dw_min_wait_ms dw \<le> wt \<and> wt \<le> w"
      using wt[of _ v] by auto
  qed
  with u(1,3-6) show ?thesis by - (rule exI[of _ bs], rule exI[of _ used], rule exI[of _ rest], simp)
qed

definition sample_dynamic :: dynamic_wait_config where
  "sample_dynamic = \<lparr>dw_min_wait_ms = 1, dw_target_rps = F_Fin 10, dw_steepness = F_Fin (1 / 2),
     dw_sampling_interval_ms = 100, dw_smoothing_samples = 3\<rparr>"

theorem dynamic_task_batches_witness:
  "\<exists>bs. fst (batcher_task_dynamic (\<lambda>a. F_Fin 2) (\<lambda>w r b l. l @ [(w, b)]) 50 2 sample_dynamic
        [Req (req_n 1), SamplerTick, Req (req_n 2), SamplerTick, Req (req_n 3), Timer, Timer] [])
      = fold (\<lambda>(w, r, b) l. l @ [(w, b)]) bs []
    \<and> list_all (\<lambda>(wt, r :: f64 option, b). good_batch 2 b \<and> 1 \<le> wt \<and> wt \<le> 50) bs"
proof -
  let ?es = "[Req (req_n 1), SamplerTick, Req (req_n 2), SamplerTick, Req (req_n 3), Timer, Timer]"
  obtain s' st where t: "batcher_task_dynamic (\<lambda>a. F_Fin 2) (\<lambda>w r b l. l @ [(w, b)]) 50 2 sample_dynamic ?es []
      = (s', st)" by (metis prod.exhaust)
  have c: "check_dynamic GET ''/'' 50 sample_dynamic = Inr ()"
    by (simp add: check_dynamic_def sample_dynamic_def f_is_finite_def)
  have n: "dw_smoothing_samples sample_dynamic < 2 ^ 53" "dw_min_wait_ms sample_dynamic = 1"
    by (simp_all add: sample_dynamic_def)
  have "\<exists>bs used rest. s' = fold (\<lambda>(w, r :: f64 option, b) l. l @ [(w, b)]) bs [] \<and>
     list_all (\<lambda>(wt, r, b). good_batch 2 b \<and> dw_min_wait_ms sample_dynamic \<le> wt \<and> wt \<le> 50) bs \<and>
     ?es = used @ rest \<and> reqs used = concat (map (\<lambda>b. snd (snd b)) bs) @ held st \<and>
     (st = Exited \<longrightarrow> used \<noteq> [] \<and> last used \<in> {Timer, Closed}) \<and> (st \<noteq> Exited \<longrightarrow> rest = [])"
    by (rule dynamic_task_batches[OF t c _ n(1)]) simp_all
  then obtain bs :: "(nat \<times> f64 option \<times> pending_request list) list" where
    "s' = fold (\<lambda>(w, r, b) l. l @ [(w, b)]) bs []"
    "list_all (\<lambda>(wt, r, b). good_batch 2 b \<and> 1 \<le> wt \<and> wt \<le> 50) bs"
    unfolding n(2) by blast
  with t show ?thesis by (intro exI[of _ bs]) simp
qed



end
