(* ===== verification/Gw_Manager.thy ===== *)
theory Gw_Manager
  imports Gw_Batcher Gw_Machine Gw_Queue
begin

text \<open>
  \<^verbatim>\<open>BatcherManager\<close> of \<^verbatim>\<open>gateway/src/batching.rs\<close>: the registry of batcher tasks, \<^verbatim>\<open>enqueue\<close> with
  its retry, the life of a task as the registry sees it, and the interleaving of all of them as a
  step relation.
\<close>

subsection \<open>Registry and enqueue\<close>

text \<open>
  The queue of a task and where the task is: \<open>Serving\<close> its queue; \<open>Leaving\<close>, when it has found
  the queue empty at its idle timeout but its receiver still exists; \<open>Dropped\<close>, when the receiver
  is gone; \<open>Deregistered\<close>, when it has removed its key from the map.
\<close>

datatype task_status = Serving | Leaving | Dropped | Deregistered

record batcher =
  ba_key :: batch_key
  ba_cfg :: batcher_config
  ba_queue :: "pending_request list"
  ba_status :: task_status

record registry =
  rg_map :: "(batch_key, nat) hashmap"
  rg_batchers :: "batcher list"

definition receiver_alive :: "batcher \<Rightarrow> bool" where
  "receiver_alive b \<longleftrightarrow> ba_status b = Serving \<or> ba_status b = Leaving"

text \<open>The entry of the map: the sender that is there, or a new task.\<close>

definition enq_lookup :: "operation_config \<Rightarrow> batch_key \<Rightarrow> registry \<Rightarrow> nat \<times> registry" where
  "enq_lookup op key r =
     (case hm_get (rg_map r) key of
        Some i \<Rightarrow> (i, r)
      | None \<Rightarrow>
          (length (rg_batchers r),
           r\<lparr>rg_map := hm_insert key (length (rg_batchers r)) (rg_map r),
             rg_batchers := rg_batchers r @
               [\<lparr>ba_key = key, ba_cfg = batcher_config_of op, ba_queue = [], ba_status = Serving\<rparr>]\<rparr>))"

text \<open>\<^verbatim>\<open>try_send\<close> on a bounded queue: a dropped receiver is reported before a full queue.\<close>

definition enq_try_send :: "nat \<Rightarrow> pending_request \<Rightarrow> nat \<Rightarrow> registry \<Rightarrow> try_send \<times> registry" where
  "enq_try_send depth req i r =
     (let b = rg_batchers r ! i
      in if \<not> receiver_alive b then (TsClosed, r)
         else if length (ba_queue b) \<ge> depth then (TsFull, r)
         else (TsOk, r\<lparr>rg_batchers := (rg_batchers r)[i := b\<lparr>ba_queue := ba_queue b @ [req]\<rparr>]\<rparr>))"

definition enq_remove :: "batch_key \<Rightarrow> registry \<Rightarrow> registry" where
  "enq_remove key r = r\<lparr>rg_map := hm_delete key (rg_map r)\<rparr>"

datatype enqueue_error = QueueFull | BatcherClosed

text \<open>
  \<^verbatim>\<open>mpsc::channel\<close> panics on a capacity of 0, before the new entry is in the map: with a depth of 0 a
  call that finds no entry does not return (\<open>None\<close>).
\<close>

definition channel_panics :: "nat \<Rightarrow> batch_key \<Rightarrow> registry \<Rightarrow> bool" where
  "channel_panics depth key r \<longleftrightarrow> depth = 0 \<and> hm_get (rg_map r) key = None"

lemma channel_ok [simp]: "0 < depth \<Longrightarrow> \<not> channel_panics depth key r"
  by (simp add: channel_panics_def)

fun enqueue_loop :: "nat \<Rightarrow> nat \<Rightarrow> operation_config \<Rightarrow> batch_key \<Rightarrow> pending_request \<Rightarrow> registry \<Rightarrow>
    (enqueue_error + unit) option \<times> registry" where
  "enqueue_loop 0 depth op key req r = (Some (Inl BatcherClosed), r)"
| "enqueue_loop (Suc tries) depth op key req r =
     (if channel_panics depth key r then (None, r)
      else let l = enq_lookup op key r; s = enq_try_send depth req (fst l) (snd l)
      in case fst s of
           TsOk \<Rightarrow> (Some (Inr ()), snd s)
         | TsFull \<Rightarrow> (Some (Inl QueueFull), snd s)
         | TsClosed \<Rightarrow> enqueue_loop tries depth op key req (enq_remove key (snd s)))"

definition enqueue :: "nat \<Rightarrow> operation_config \<Rightarrow> pending_request \<Rightarrow> registry \<Rightarrow>
    (enqueue_error + unit) option \<times> registry" where
  "enqueue depth op req r = enqueue_loop 2 depth op (batch_key_of op req) req r"

subsection \<open>The registry invariant\<close>

definition registry_ok :: "nat \<Rightarrow> registry \<Rightarrow> bool" where
  "registry_ok depth r \<longleftrightarrow> hm_ok (rg_map r) \<and>
     (\<forall>key i. hm_get (rg_map r) key = Some i \<longrightarrow> i < length (rg_batchers r) \<and> ba_key (rg_batchers r ! i) = key) \<and>
     (\<forall>b \<in> set (rg_batchers r). length (ba_queue b) \<le> depth)"

lemma registry_okD:
  "registry_ok depth r \<Longrightarrow> hm_get (rg_map r) key = Some i \<Longrightarrow>
   i < length (rg_batchers r) \<and> ba_key (rg_batchers r ! i) = key"
  by (simp add: registry_ok_def)

lemma enq_lookup_ok:
  assumes "registry_ok depth r" and "enq_lookup op key r = (i, r')"
  shows "registry_ok depth r'" "i < length (rg_batchers r')" "ba_key (rg_batchers r' ! i) = key"
    "hm_get (rg_map r') key = Some i"
  using assms
  by (auto simp: enq_lookup_def registry_ok_def nth_append split: option.splits if_splits)
    (metis less_SucI)

lemma enq_lookup_batchers:
  assumes "enq_lookup op key r = (i, r')"
  shows "rg_batchers r' = rg_batchers r \<or>
    rg_batchers r' = rg_batchers r @ [\<lparr>ba_key = key, ba_cfg = batcher_config_of op, ba_queue = [], ba_status = Serving\<rparr>]"
  using assms by (auto simp: enq_lookup_def split: option.splits)

text \<open>A change of one batcher that keeps its key and the depth of its queue keeps the registry.\<close>

definition set_batcher :: "nat \<Rightarrow> batcher \<Rightarrow> registry \<Rightarrow> registry" where
  "set_batcher i b r = r\<lparr>rg_batchers := (rg_batchers r)[i := b]\<rparr>"

lemma set_batcher_simps [simp]:
  "rg_map (set_batcher i b r) = rg_map r" "rg_batchers (set_batcher i b r) = (rg_batchers r)[i := b]"
  by (simp_all add: set_batcher_def)

lemma nth_update_key: "ba_key b = ba_key (bs ! i) \<Longrightarrow> ba_key (bs[i := b] ! k) = ba_key (bs ! k)"
  by (cases "i < length bs"; cases "k = i") (simp_all add: list_update_beyond)

lemma set_batcher_ok:
  assumes "registry_ok depth r" and "ba_key b = ba_key (rg_batchers r ! i)" and "length (ba_queue b) \<le> depth"
  shows "registry_ok depth (set_batcher i b r)"
  using assms
  by (auto simp: registry_ok_def nth_update_key dest!: set_update_subset_insert[THEN subsetD])

lemma enq_try_send_cases:
  assumes "enq_try_send depth req i r = (t, r')"
  shows "t = TsClosed \<and> r' = r \<and> \<not> receiver_alive (rg_batchers r ! i) \<or>
    t = TsFull \<and> r' = r \<and> receiver_alive (rg_batchers r ! i) \<and> length (ba_queue (rg_batchers r ! i)) \<ge> depth \<or>
    t = TsOk \<and> receiver_alive (rg_batchers r ! i) \<and> length (ba_queue (rg_batchers r ! i)) < depth \<and>
      r' = set_batcher i ((rg_batchers r ! i)\<lparr>ba_queue := ba_queue (rg_batchers r ! i) @ [req]\<rparr>) r"
  using assms by (auto simp: enq_try_send_def Let_def set_batcher_def split: if_splits)

lemma enq_try_send_ok:
  assumes "registry_ok depth r" and "enq_try_send depth req i r = (t, r')"
  shows "registry_ok depth r'"
  using enq_try_send_cases[OF assms(2)] assms(1) by (auto intro!: set_batcher_ok)

interpretation batch_queue: bounded_queue "\<lambda>req r. snd (enq_try_send depth req i r)" "\<lambda>r. ba_queue (rg_batchers r ! i)"
  "\<lambda>r. i < length (rg_batchers r) \<and> receiver_alive (rg_batchers r ! i)" depth for depth i
  by unfold_locales (auto simp: enq_try_send_def Let_def receiver_alive_def nth_list_update list_update_beyond not_less)

text \<open>
  A burst of requests for one key: the task's queue takes the first ones that fit, in their order, and
  all that follow are refused as long as the task takes none.
\<close>

theorem burst_fills_queue:
  assumes "i < length (rg_batchers r)" and "receiver_alive (rg_batchers r ! i)"
  shows "ba_queue (rg_batchers (fold (\<lambda>req r. snd (enq_try_send depth req i r)) burst r) ! i) =
    ba_queue (rg_batchers r ! i) @ take (depth - length (ba_queue (rg_batchers r ! i))) burst"
  using assms batch_queue.put_burst[of depth i burst r] by simp

lemma enq_remove_ok: "registry_ok depth r \<Longrightarrow> registry_ok depth (enq_remove key r)"
  by (simp add: registry_ok_def enq_remove_def)

subsection \<open>The running system\<close>

text \<open>
  A call of \<^verbatim>\<open>enqueue\<close> in progress: about to look its key up, with the tries it has left, or about
  to send to the queue it has found. \<open>mg_accepted\<close>, \<open>mg_rejected\<close>, \<open>mg_panicked\<close>, \<open>mg_taken\<close> and
  \<open>mg_lost\<close> record what became of each request; they are read by no step.
\<close>

datatype call =
    Looking operation_config pending_request nat
  | Sending operation_config pending_request nat nat

record manager =
  mg_registry :: registry
  mg_calls :: "call list"
  mg_accepted :: "(operation_config \<times> pending_request \<times> nat) list"
  mg_rejected :: "(enqueue_error \<times> pending_request) list"
  mg_panicked :: "pending_request list"
  mg_taken :: "(nat \<times> pending_request) list"
  mg_lost :: "(nat \<times> pending_request) list"

definition manager_init :: manager where
  "manager_init = \<lparr>mg_registry = \<lparr>rg_map = [], rg_batchers = []\<rparr>, mg_calls = [], mg_accepted = [],
     mg_rejected = [], mg_panicked = [], mg_taken = [], mg_lost = []\<rparr>"

text \<open>One step of a call; \<open>None\<close> when the call has returned.\<close>

definition call_step :: "nat \<Rightarrow> call \<Rightarrow> manager \<Rightarrow> call option \<times> manager" where
  "call_step depth c m =
     (case c of
        Looking op req 0 \<Rightarrow> (None, m\<lparr>mg_rejected := mg_rejected m @ [(BatcherClosed, req)]\<rparr>)
      | Looking op req (Suc tries) \<Rightarrow>
          if channel_panics depth (batch_key_of op req) (mg_registry m) then (None, m\<lparr>mg_panicked := mg_panicked m @ [req]\<rparr>)
          else (let l = enq_lookup op (batch_key_of op req) (mg_registry m)
           in (Some (Sending op req tries (fst l)), m\<lparr>mg_registry := snd l\<rparr>))
      | Sending op req tries i \<Rightarrow>
          (let s = enq_try_send depth req i (mg_registry m)
           in case fst s of
                TsOk \<Rightarrow> (None, m\<lparr>mg_registry := snd s, mg_accepted := mg_accepted m @ [(op, req, i)]\<rparr>)
              | TsFull \<Rightarrow> (None, m\<lparr>mg_registry := snd s, mg_rejected := mg_rejected m @ [(QueueFull, req)]\<rparr>)
              | TsClosed \<Rightarrow>
                  (Some (Looking op req tries),
                   m\<lparr>mg_registry := enq_remove (batch_key_of op req) (snd s)\<rparr>)))"

text \<open>
  The steps. \<open>recv\<close> hands the task the head of its queue. A task whose queue was empty at its
  idle timeout leaves; its receiver is dropped later, with whatever was sent in between; later
  still it removes its key from the map.
\<close>

inductive manager_step :: "nat \<Rightarrow> manager \<Rightarrow> manager \<Rightarrow> bool" for depth where
  new_call: "manager_step depth m (m\<lparr>mg_calls := mg_calls m @ [Looking op req 2]\<rparr>)"
| call: "mg_calls m = a @ c # b \<Longrightarrow> call_step depth c (m\<lparr>mg_calls := a @ b\<rparr>) = (None, m') \<Longrightarrow>
    manager_step depth m m'"
| call_on: "mg_calls m = a @ c # b \<Longrightarrow> call_step depth c (m\<lparr>mg_calls := a @ b\<rparr>) = (Some c', m') \<Longrightarrow>
    manager_step depth m (m'\<lparr>mg_calls := a @ c' # b\<rparr>)"
| recv: "i < length (rg_batchers (mg_registry m)) \<Longrightarrow> b = rg_batchers (mg_registry m) ! i \<Longrightarrow>
    ba_status b = Serving \<Longrightarrow> ba_queue b = req # qs \<Longrightarrow>
    manager_step depth m (m\<lparr>mg_registry := set_batcher i (b\<lparr>ba_queue := qs\<rparr>) (mg_registry m),
      mg_taken := mg_taken m @ [(i, req)]\<rparr>)"
| idle: "i < length (rg_batchers (mg_registry m)) \<Longrightarrow> b = rg_batchers (mg_registry m) ! i \<Longrightarrow>
    ba_status b = Serving \<Longrightarrow> ba_queue b = [] \<Longrightarrow>
    manager_step depth m (m\<lparr>mg_registry := set_batcher i (b\<lparr>ba_status := Leaving\<rparr>) (mg_registry m)\<rparr>)"
| drop_rx: "i < length (rg_batchers (mg_registry m)) \<Longrightarrow> b = rg_batchers (mg_registry m) ! i \<Longrightarrow>
    ba_status b = Leaving \<Longrightarrow>
    manager_step depth m (m\<lparr>mg_registry := set_batcher i (b\<lparr>ba_queue := [], ba_status := Dropped\<rparr>) (mg_registry m),
      mg_lost := mg_lost m @ map (Pair i) (ba_queue b)\<rparr>)"
| deregister: "i < length (rg_batchers (mg_registry m)) \<Longrightarrow> b = rg_batchers (mg_registry m) ! i \<Longrightarrow>
    ba_status b = Dropped \<Longrightarrow>
    manager_step depth m (m\<lparr>mg_registry := enq_remove (ba_key b)
      (set_batcher i (b\<lparr>ba_status := Deregistered\<rparr>) (mg_registry m))\<rparr>)"

definition reachable :: "nat \<Rightarrow> manager \<Rightarrow> bool" where
  "reachable depth m \<longleftrightarrow> (manager_step depth)\<^sup>*\<^sup>* manager_init m"

inductive_cases manager_stepE: "manager_step depth m m'"

subsection \<open>Invariants\<close>

definition accepted_by :: "manager \<Rightarrow> nat \<Rightarrow> pending_request list" where
  "accepted_by m i = map (\<lambda>(op, req, j). req) (filter (\<lambda>(op, req, j). j = i) (mg_accepted m))"

definition taken_by :: "manager \<Rightarrow> nat \<Rightarrow> pending_request list" where
  "taken_by m i = map snd (filter (\<lambda>p. fst p = i) (mg_taken m))"

definition lost_by :: "manager \<Rightarrow> nat \<Rightarrow> pending_request list" where
  "lost_by m i = map snd (filter (\<lambda>p. fst p = i) (mg_lost m))"

definition queued_at :: "registry \<Rightarrow> nat \<Rightarrow> pending_request list" where
  "queued_at r i = (if i < length (rg_batchers r) then ba_queue (rg_batchers r ! i) else [])"

definition alive_at :: "registry \<Rightarrow> nat \<Rightarrow> bool" where
  "alive_at r i \<longleftrightarrow> i < length (rg_batchers r) \<and> receiver_alive (rg_batchers r ! i)"

text \<open>What a queue accepted is what its task took, then what was lost with it, then what it holds.\<close>

definition fifo_ok :: "manager \<Rightarrow> nat \<Rightarrow> bool" where
  "fifo_ok m i \<longleftrightarrow> accepted_by m i = taken_by m i @ lost_by m i @ queued_at (mg_registry m) i \<and>
     (alive_at (mg_registry m) i \<or> i \<ge> length (rg_batchers (mg_registry m)) \<longrightarrow> lost_by m i = []) \<and>
     (\<not> alive_at (mg_registry m) i \<longrightarrow> queued_at (mg_registry m) i = [])"

definition keyed :: "registry \<Rightarrow> operation_config \<Rightarrow> pending_request \<Rightarrow> nat \<Rightarrow> bool" where
  "keyed r op req i \<longleftrightarrow> i < length (rg_batchers r) \<and> ba_key (rg_batchers r ! i) = batch_key_of op req"

fun call_ok :: "registry \<Rightarrow> call \<Rightarrow> bool" where
  "call_ok r (Looking op req n) = True"
| "call_ok r (Sending op req n i) = keyed r op req i"

definition manager_ok :: "nat \<Rightarrow> manager \<Rightarrow> bool" where
  "manager_ok depth m \<longleftrightarrow> registry_ok depth (mg_registry m) \<and> (\<forall>i. fifo_ok m i) \<and>
     list_all (call_ok (mg_registry m)) (mg_calls m) \<and>
     list_all (\<lambda>(op, req, i). keyed (mg_registry m) op req i) (mg_accepted m)"

text \<open>Batchers are never renamed or removed from the list.\<close>

definition extends :: "registry \<Rightarrow> registry \<Rightarrow> bool" where
  "extends r r' \<longleftrightarrow> (\<forall>i < length (rg_batchers r). i < length (rg_batchers r') \<and>
     ba_key (rg_batchers r' ! i) = ba_key (rg_batchers r ! i))"

lemma extends_keyed: "extends r r' \<Longrightarrow> keyed r op req i \<Longrightarrow> keyed r' op req i"
  by (auto simp: extends_def keyed_def)

lemma extends_call_ok: "extends r r' \<Longrightarrow> call_ok r c \<Longrightarrow> call_ok r' c"
  by (cases c) (auto intro: extends_keyed)

lemma extends_refl [simp]: "extends r r" "extends r (enq_remove key r)"
  by (simp_all add: extends_def enq_remove_def)

lemma extends_lookup: "enq_lookup op key r = (i, r') \<Longrightarrow> extends r r'"
  using enq_lookup_batchers[of op key r i r'] by (auto simp: extends_def nth_append)

lemma extends_set: "ba_key b = ba_key (rg_batchers r ! i) \<Longrightarrow> extends r (set_batcher i b r)"
  by (auto simp: extends_def nth_update_key)

lemma remove_views [simp]:
  "queued_at (enq_remove key r) i = queued_at r i" "alive_at (enq_remove key r) i = alive_at r i"
  "rg_batchers (enq_remove key r) = rg_batchers r"
  by (simp_all add: queued_at_def alive_at_def enq_remove_def)

lemma lookup_views:
  assumes "enq_lookup op key r = (j, r')"
  shows "queued_at r' i = queued_at r i" "alive_at r i \<Longrightarrow> alive_at r' i"
    "alive_at r' i \<Longrightarrow> alive_at r i \<or> i \<ge> length (rg_batchers r)"
    "i \<ge> length (rg_batchers r') \<Longrightarrow> i \<ge> length (rg_batchers r)"
  using enq_lookup_batchers[OF assms]
  by (auto simp: queued_at_def alive_at_def nth_append receiver_alive_def split: if_splits)

lemma set_views:
  assumes "j < length (rg_batchers r)"
  shows "queued_at (set_batcher j b r) i = (if i = j then ba_queue b else queued_at r i)"
    "alive_at (set_batcher j b r) i = (if i = j then receiver_alive b else alive_at r i)"
    "length (rg_batchers (set_batcher j b r)) = length (rg_batchers r)"
  using assms by (auto simp: queued_at_def alive_at_def)

lemma here_views:
  "j < length (rg_batchers r) \<Longrightarrow> queued_at r j = ba_queue (rg_batchers r ! j)"
  "j < length (rg_batchers r) \<Longrightarrow> alive_at r j = receiver_alive (rg_batchers r ! j)"
  by (simp_all add: queued_at_def alive_at_def)

text \<open>Rest of the invariant when the registry grows and only the call list changes otherwise.\<close>

lemma keyed_all_mono:
  "extends r r' \<Longrightarrow> list_all (\<lambda>(op, req, i). keyed r op req i) xs \<Longrightarrow> list_all (\<lambda>(op, req, i). keyed r' op req i) xs"
  by (auto simp: list_all_iff intro: extends_keyed)

lemma calls_all_mono: "extends r r' \<Longrightarrow> list_all (call_ok r) cs \<Longrightarrow> list_all (call_ok r') cs"
  by (auto simp: list_all_iff intro: extends_call_ok)

text \<open>What a step of a call keeps.\<close>

definition call_kept :: "nat \<Rightarrow> manager \<Rightarrow> call option \<Rightarrow> manager \<Rightarrow> bool" where
  "call_kept depth m c' m' \<longleftrightarrow> manager_ok depth m' \<and> mg_calls m' = mg_calls m \<and> pred_option (call_ok (mg_registry m')) c' \<and>
     extends (mg_registry m) (mg_registry m')"

lemmas manager_views = fifo_ok_def accepted_by_def taken_by_def lost_by_def

lemma call_kept_same: "manager_ok depth m \<Longrightarrow> mg_registry m' = mg_registry m \<Longrightarrow> mg_calls m' = mg_calls m \<Longrightarrow>
    mg_accepted m' = mg_accepted m \<Longrightarrow> mg_taken m' = mg_taken m \<Longrightarrow> mg_lost m' = mg_lost m \<Longrightarrow> call_kept depth m None m'"
  by (auto simp: call_kept_def manager_ok_def manager_views)

lemma looking_step:
  assumes ok: "manager_ok depth m" and st: "call_step depth (Looking op req n) m = (c', m')"
  shows "call_kept depth m c' m'"
proof (cases "n = 0 \<or> channel_panics depth (batch_key_of op req) (mg_registry m)")
  case True
  with st ok show ?thesis by (cases n) (auto simp: call_step_def intro!: call_kept_same)
next
  case False
  then obtain k where k: "n = Suc k" by (cases n) auto
  note okd = ok[unfolded manager_ok_def]
  obtain i r' where l: "enq_lookup op (batch_key_of op req) (mg_registry m) = (i, r')" by (metis prod.exhaust)
  with st k False have res: "c' = Some (Sending op req k i)" "m' = m\<lparr>mg_registry := r'\<rparr>"
    by (auto simp: call_step_def)
  have lok: "registry_ok depth r'" "i < length (rg_batchers r')" "ba_key (rg_batchers r' ! i) = batch_key_of op req"
    using enq_lookup_ok[OF _ l] okd by blast+
  note ext = extends_lookup[OF l]
  have "fifo_ok m' j" for j
    using spec[of _ j, OF conjunct1[OF conjunct2[OF okd]]] lookup_views[OF l, of j] by (auto simp: res manager_views)
  with okd lok ext keyed_all_mono[OF ext] calls_all_mono[OF ext] show ?thesis
    by (simp add: call_kept_def res manager_ok_def) (simp add: keyed_def)
qed

lemma sending_closed:
  assumes "manager_ok depth m"
  shows "call_kept depth m (Some (Looking op req n)) (m\<lparr>mg_registry := enq_remove (batch_key_of op req) (mg_registry m)\<rparr>)"
proof -
  from assms have "registry_ok depth (enq_remove (batch_key_of op req) (mg_registry m))"
    by (simp add: manager_ok_def enq_remove_ok)
  with assms show ?thesis
    using keyed_all_mono[OF extends_refl(2)] calls_all_mono[OF extends_refl(2)]
    by (auto simp: call_kept_def manager_ok_def manager_views)
qed

lemma sending_sent:
  assumes ok: "manager_ok depth m" and k: "call_ok (mg_registry m) (Sending op req n i)"
    and t: "enq_try_send depth req i (mg_registry m) = (TsOk, r')"
  shows "call_kept depth m None (m\<lparr>mg_registry := r', mg_accepted := mg_accepted m @ [(op, req, i)]\<rparr>)"
    (is "call_kept _ _ _ ?m")
proof -
  note okd = ok[unfolded manager_ok_def]
  let ?b = "rg_batchers (mg_registry m) ! i"
  from k have i: "i < length (rg_batchers (mg_registry m))" "ba_key ?b = batch_key_of op req" by (simp_all add: keyed_def)
  from enq_try_send_cases[OF t] have sent: "receiver_alive ?b"
    "r' = set_batcher i (?b\<lparr>ba_queue := ba_queue ?b @ [req]\<rparr>) (mg_registry m)" by blast+
  have ext: "extends (mg_registry m) r'" unfolding sent(2) by (rule extends_set) simp
  have reg: "registry_ok depth r'" using enq_try_send_ok[OF _ t] okd by blast
  have "fifo_ok ?m j" for j
    using spec[of _ j, OF conjunct1[OF conjunct2[OF okd]]] sent(1) here_views[OF i(1)]
    by (cases "j = i") (auto simp: sent(2) manager_views set_views[OF i(1)] receiver_alive_def)
  moreover have "keyed r' op req i" using i extends_keyed[OF ext, of op req i] by (simp add: keyed_def)
  ultimately show ?thesis
    using okd reg ext keyed_all_mono[OF ext] calls_all_mono[OF ext] by (simp add: call_kept_def manager_ok_def)
qed

lemma call_step_kept:
  assumes ok: "manager_ok depth m" and c: "call_ok (mg_registry m) c" and st: "call_step depth c m = (c', m')"
  shows "call_kept depth m c' m'"
proof (cases c)
  case (Looking op req n)
  with looking_step ok st show ?thesis by blast
next
  case (Sending op req n i)
  obtain t r' where t: "enq_try_send depth req i (mg_registry m) = (t, r')" by (metis prod.exhaust)
  show ?thesis
  proof (cases t)
    case TsOk
    with st Sending t c sending_sent[OF ok] show ?thesis by (auto simp: call_step_def)
  next
    case TsFull
    with st Sending t ok enq_try_send_cases[OF t] show ?thesis by (auto simp: call_step_def intro!: call_kept_same)
  next
    case TsClosed
    with st Sending t enq_try_send_cases[OF t] sending_closed[OF ok] show ?thesis by (auto simp: call_step_def)
  qed
qed

lemma call_step_inv:
  assumes "manager_ok depth m" and "call_ok (mg_registry m) c" and "call_step depth c m = (c', m')"
  shows "manager_ok depth m'" "mg_calls m' = mg_calls m" "\<And>d. c' = Some d \<Longrightarrow> call_ok (mg_registry m') d"
    "extends (mg_registry m) (mg_registry m')"
  using call_step_kept[OF assms] by (auto simp: call_kept_def)

text \<open>A step of the task at \<open>i\<close> that keeps its key and does not lengthen its queue.\<close>

lemma task_step_inv:
  assumes ok: "manager_ok depth m" and i: "i < length (rg_batchers (mg_registry m))"
    and b: "ba_key b = ba_key (rg_batchers (mg_registry m) ! i)"
    and q: "length (ba_queue b) \<le> length (ba_queue (rg_batchers (mg_registry m) ! i))"
    and reg: "mg_registry m' = set_batcher i b (mg_registry m) \<or>
      mg_registry m' = enq_remove key (set_batcher i b (mg_registry m))"
    and same: "mg_calls m' = mg_calls m" "mg_accepted m' = mg_accepted m"
    and others: "\<And>j. j \<noteq> i \<Longrightarrow> taken_by m' j = taken_by m j \<and> lost_by m' j = lost_by m j"
    and here: "taken_by m' i @ lost_by m' i @ ba_queue b =
      taken_by m i @ lost_by m i @ ba_queue (rg_batchers (mg_registry m) ! i)"
    and alive: "receiver_alive b \<Longrightarrow> lost_by m' i = []" "\<not> receiver_alive b \<Longrightarrow> ba_queue b = []"
  shows "manager_ok depth m'"
proof -
  note okd = ok[unfolded manager_ok_def]
  have ext: "extends (mg_registry m) (mg_registry m')"
    using reg extends_set[OF b] by (auto simp: extends_def)
  have "length (ba_queue b) \<le> depth" using q okd i by (force simp: registry_ok_def dest: nth_mem)
  then have rok: "registry_ok depth (mg_registry m')"
    using reg set_batcher_ok[of depth "mg_registry m" b i] okd b by (auto intro: enq_remove_ok)
  have v: "queued_at (mg_registry m') j = (if j = i then ba_queue b else queued_at (mg_registry m) j)"
    "alive_at (mg_registry m') j = (if j = i then receiver_alive b else alive_at (mg_registry m) j)"
    "length (rg_batchers (mg_registry m')) = length (rg_batchers (mg_registry m))" for j
    using reg set_views[OF i] by auto
  have "fifo_ok m' j" for j
    using spec[of _ j, OF conjunct1[OF conjunct2[OF okd]]] here alive others[of j] here_views[OF i] i
    by (cases "j = i") (auto simp: fifo_ok_def v accepted_by_def same)
  with okd rok keyed_all_mono[OF ext] calls_all_mono[OF ext] show ?thesis
    by (simp add: manager_ok_def same)
qed

lemma manager_step_inv:
  assumes "manager_step depth m m'" and ok: "manager_ok depth m"
  shows "manager_ok depth m'"
  using assms(1)
proof cases
  case (new_call op req)
  with ok show ?thesis by (simp add: manager_ok_def fifo_ok_def accepted_by_def taken_by_def lost_by_def)
next
  case (call a c b)
  let ?m = "m\<lparr>mg_calls := a @ b\<rparr>"
  have "manager_ok depth ?m" "call_ok (mg_registry ?m) c"
    using ok call(1) by (auto simp: manager_ok_def fifo_ok_def accepted_by_def taken_by_def lost_by_def)
  from call_step_inv(1)[OF this call(2)] show ?thesis .
next
  case (call_on a c b c' m1)
  let ?m = "m\<lparr>mg_calls := a @ b\<rparr>"
  have "manager_ok depth ?m" "call_ok (mg_registry ?m) c"
    using ok call_on(2) by (auto simp: manager_ok_def fifo_ok_def accepted_by_def taken_by_def lost_by_def)
  note inv = call_step_inv[OF this call_on(3)]
  from inv(1,2) inv(3)[OF refl] show ?thesis unfolding call_on(1)
    by (auto simp: manager_ok_def fifo_ok_def accepted_by_def taken_by_def lost_by_def)
next
  case (recv i b req qs)
  have "lost_by m i = []" using ok here_views[OF recv(2)] recv(3,4)
    by (auto simp: manager_ok_def fifo_ok_def receiver_alive_def)
  with recv ok show ?thesis
    by (intro task_step_inv[OF ok recv(2), of "b\<lparr>ba_queue := qs\<rparr>" m'])
      (auto simp: taken_by_def lost_by_def receiver_alive_def)
next
  case (idle i b)
  have "lost_by m i = []" using ok here_views[OF idle(2)] idle(3,4)
    by (auto simp: manager_ok_def fifo_ok_def receiver_alive_def)
  with idle ok show ?thesis
    by (intro task_step_inv[OF ok idle(2), of "b\<lparr>ba_status := Leaving\<rparr>" m'])
      (auto simp: taken_by_def lost_by_def receiver_alive_def)
next
  case (drop_rx i b)
  have "lost_by m i = []" using ok here_views[OF drop_rx(2)] drop_rx(3,4)
    by (auto simp: manager_ok_def fifo_ok_def receiver_alive_def)
  with drop_rx ok show ?thesis
    by (intro task_step_inv[OF ok drop_rx(2), of "b\<lparr>ba_queue := [], ba_status := Dropped\<rparr>" m'])
      (auto simp: taken_by_def lost_by_def receiver_alive_def comp_def)
next
  case (deregister i b)
  have "ba_queue b = []" using ok here_views[OF deregister(2)] deregister(3,4)
    by (auto simp: manager_ok_def fifo_ok_def receiver_alive_def)
  with deregister ok show ?thesis
    by (intro task_step_inv[OF ok deregister(2), of "b\<lparr>ba_status := Deregistered\<rparr>" m' "ba_key b"])
      (auto simp: taken_by_def lost_by_def receiver_alive_def)
qed

lemma reachable_ok: "reachable depth m \<Longrightarrow> manager_ok depth m"
  unfolding reachable_def
proof (induction rule: rtranclp_induct)
  case base
  show ?case
    by (simp add: manager_init_def manager_ok_def registry_ok_def fifo_ok_def accepted_by_def taken_by_def
        lost_by_def queued_at_def)
next
  case (step m m')
  then show ?case by (blast intro: manager_step_inv)
qed

subsection \<open>Running a schedule\<close>

datatype move = NewCall operation_config pending_request | RunCall nat | Recv nat | Idle nat | DropRx nat | Dereg nat

definition do_task :: "nat \<Rightarrow> (batcher \<Rightarrow> bool) \<Rightarrow> (batcher \<Rightarrow> manager) \<Rightarrow> manager \<Rightarrow> manager option" where
  "do_task i P f m =
     (if i < length (rg_batchers (mg_registry m)) \<and> P (rg_batchers (mg_registry m) ! i)
      then Some (f (rg_batchers (mg_registry m) ! i)) else None)"

fun do_move :: "nat \<Rightarrow> move \<Rightarrow> manager \<Rightarrow> manager option" where
  "do_move depth (NewCall op req) m = Some (m\<lparr>mg_calls := mg_calls m @ [Looking op req 2]\<rparr>)"
| "do_move depth (RunCall k) m =
     (if k < length (mg_calls m) then
        (let a = take k (mg_calls m); b = drop (Suc k) (mg_calls m);
             r = call_step depth (mg_calls m ! k) (m\<lparr>mg_calls := a @ b\<rparr>)
         in case fst r of None \<Rightarrow> Some (snd r) | Some c \<Rightarrow> Some ((snd r)\<lparr>mg_calls := a @ c # b\<rparr>))
      else None)"
| "do_move depth (Recv i) m =
     do_task i (\<lambda>b. ba_status b = Serving \<and> ba_queue b \<noteq> [])
       (\<lambda>b. m\<lparr>mg_registry := set_batcher i (b\<lparr>ba_queue := tl (ba_queue b)\<rparr>) (mg_registry m),
             mg_taken := mg_taken m @ [(i, hd (ba_queue b))]\<rparr>) m"
| "do_move depth (Idle i) m =
     do_task i (\<lambda>b. ba_status b = Serving \<and> ba_queue b = [])
       (\<lambda>b. m\<lparr>mg_registry := set_batcher i (b\<lparr>ba_status := Leaving\<rparr>) (mg_registry m)\<rparr>) m"
| "do_move depth (DropRx i) m =
     do_task i (\<lambda>b. ba_status b = Leaving)
       (\<lambda>b. m\<lparr>mg_registry := set_batcher i (b\<lparr>ba_queue := [], ba_status := Dropped\<rparr>) (mg_registry m),
             mg_lost := mg_lost m @ map (Pair i) (ba_queue b)\<rparr>) m"
| "do_move depth (Dereg i) m =
     do_task i (\<lambda>b. ba_status b = Dropped)
       (\<lambda>b. m\<lparr>mg_registry := enq_remove (ba_key b)
             (set_batcher i (b\<lparr>ba_status := Deregistered\<rparr>) (mg_registry m))\<rparr>) m"

lemma do_move_step: "do_move depth mv m = Some m' \<Longrightarrow> manager_step depth m m'"
proof (cases mv)
  case (NewCall op req)
  assume "do_move depth mv m = Some m'"
  with NewCall show ?thesis by (auto intro: manager_step.new_call)
next
  case (RunCall k)
  assume d: "do_move depth mv m = Some m'"
  with RunCall have k: "k < length (mg_calls m)" by (auto split: if_splits)
  note calls = id_take_nth_drop[OF k]
  obtain c' m1 where c: "call_step depth (mg_calls m ! k)
      (m\<lparr>mg_calls := take k (mg_calls m) @ drop (Suc k) (mg_calls m)\<rparr>) = (c', m1)" by (metis prod.exhaust)
  show ?thesis
  proof (cases c')
    case None
    with d RunCall k c manager_step.call[OF calls, of depth m1] show ?thesis by (simp add: Let_def)
  next
    case (Some x)
    with d RunCall k c manager_step.call_on[OF calls, of depth x m1] show ?thesis by (simp add: Let_def)
  qed
next
  case (Recv i)
  assume "do_move depth mv m = Some m'"
  with Recv show ?thesis
    by (auto simp: do_task_def neq_Nil_conv split: if_splits intro!: manager_step.recv[OF _ refl])
next
  case (Idle i)
  assume "do_move depth mv m = Some m'"
  with Idle show ?thesis by (auto simp: do_task_def split: if_splits intro!: manager_step.idle[OF _ refl])
next
  case (DropRx i)
  assume "do_move depth mv m = Some m'"
  with DropRx show ?thesis by (auto simp: do_task_def split: if_splits intro!: manager_step.drop_rx[OF _ refl])
next
  case (Dereg i)
  assume "do_move depth mv m = Some m'"
  with Dereg show ?thesis by (auto simp: do_task_def split: if_splits intro!: manager_step.deregister[OF _ refl])
qed

fun run_moves :: "nat \<Rightarrow> move list \<Rightarrow> manager \<Rightarrow> manager option" where
  "run_moves depth [] m = Some m"
| "run_moves depth (mv # mvs) m = (case do_move depth mv m of None \<Rightarrow> None | Some m' \<Rightarrow> run_moves depth mvs m')"

lemma run_moves_append:
  "run_moves depth (a @ b) m = (case run_moves depth a m of None \<Rightarrow> None | Some m' \<Rightarrow> run_moves depth b m')"
  by (induction a arbitrary: m) (auto split: option.splits)

interpretation moving: machine "\<lambda>m mv m'. do_move depth mv m = Some m'" "\<lambda>m mvs m'. run_moves depth mvs m = Some m'" for depth
  by unfold_locales (auto simp: run_moves_append split: option.splits)

lemma run_moves_steps: "run_moves depth mvs m = Some m' \<Longrightarrow> (manager_step depth)\<^sup>*\<^sup>* m m'"
  by (erule moving.state_invariant[where I = "(manager_step depth)\<^sup>*\<^sup>* m"]) (auto dest: do_move_step)

lemma run_moves_reachable: "run_moves depth mvs manager_init = Some m \<Longrightarrow> reachable depth m"
  unfolding reachable_def by (rule run_moves_steps)

subsection \<open>Properties\<close>

text \<open>
  Property C9: whatever the interleaving of enqueue calls, batcher tasks, idle evictions and
  deregistrations, every request waits at a task that serves exactly its batch key, tasks take
  requests in the order they were accepted, a queue never exceeds its depth, and an accepted request
  is lost only with the receiver of a task that was leaving.
\<close>

theorem manager_invariant:
  assumes "reachable depth m"
  shows "(\<forall>(op, req, i) \<in> set (mg_accepted m). i < length (rg_batchers (mg_registry m)) \<and>
        ba_key (rg_batchers (mg_registry m) ! i) = batch_key_of op req)
    \<and> (\<forall>i < length (rg_batchers (mg_registry m)).
        accepted_by m i = taken_by m i @ lost_by m i @ ba_queue (rg_batchers (mg_registry m) ! i)
        \<and> length (ba_queue (rg_batchers (mg_registry m) ! i)) \<le> depth
        \<and> (receiver_alive (rg_batchers (mg_registry m) ! i) \<longrightarrow> lost_by m i = []))"
proof -
  from reachable_ok[OF assms] have ok: "manager_ok depth m" .
  have "accepted_by m i = taken_by m i @ lost_by m i @ ba_queue (rg_batchers (mg_registry m) ! i)"
    "length (ba_queue (rg_batchers (mg_registry m) ! i)) \<le> depth"
    "receiver_alive (rg_batchers (mg_registry m) ! i) \<Longrightarrow> lost_by m i = []"
    if "i < length (rg_batchers (mg_registry m))" for i
    using ok that here_views[OF that] by (auto simp: manager_ok_def fifo_ok_def registry_ok_def)
  with ok show ?thesis by (auto simp: manager_ok_def list_all_iff keyed_def)
qed

definition sample_op :: operation_config where
  "sample_op = \<lparr>oc_route_template = ''/'', oc_method = GET, oc_operation_id = None, oc_target_lambda = ''fn'',
     oc_max_wait_ms = 5, oc_max_batch_size = 2, oc_key = [], oc_timeout_ms = 1000, oc_invoke_mode = Buffered,
     oc_dynamic_wait = None\<rparr>"

text \<open>A task serves one request and goes idle; a second call has its sender when the receiver is dropped.\<close>

definition race_moves :: "move list" where
  "race_moves = [NewCall sample_op (req_n 1), RunCall 0, RunCall 0, Recv 0, Idle 0,
     NewCall sample_op (req_n 2), RunCall 0, RunCall 0, DropRx 0]"

theorem manager_invariant_witness:
  "\<exists>m. run_moves 3 race_moves manager_init = Some m \<and>
     accepted_by m 0 = taken_by m 0 @ lost_by m 0 @ ba_queue (rg_batchers (mg_registry m) ! 0)"
proof -
  have "run_moves 3 race_moves manager_init \<noteq> None" by code_simp
  then obtain m where m: "run_moves 3 race_moves manager_init = Some m" by blast
  have "map_option (\<lambda>m. length (rg_batchers (mg_registry m))) (run_moves 3 race_moves manager_init) = Some 1" by code_simp
  with m have "0 < length (rg_batchers (mg_registry m))" by simp
  with manager_invariant[OF run_moves_reachable[OF m]] m show ?thesis by blast
qed

text \<open>
  The race the retry does not cover. A request that \<^verbatim>\<open>enqueue\<close> has accepted can still
  be lost: a task that has found its queue empty at the idle timeout drops its receiver, and with it
  a request that was sent in between; nobody invokes Lambda for it.
\<close>

theorem accepted_request_can_be_lost:
  "\<exists>m. reachable 3 m \<and> mg_accepted m = [(sample_op, req_n 1, 0), (sample_op, req_n 2, 0)] \<and>
     taken_by m 0 = [req_n 1] \<and> lost_by m 0 = [req_n 2] \<and> mg_calls m = [] \<and> mg_rejected m = []"
proof -
  have "map_option (\<lambda>m. (mg_accepted m, taken_by m 0, lost_by m 0, mg_calls m, mg_rejected m))
      (run_moves 3 race_moves manager_init)
    = Some ([(sample_op, req_n 1, 0), (sample_op, req_n 2, 0)], [req_n 1], [req_n 2], [], [])" by code_simp
  then obtain m where "run_moves 3 race_moves manager_init = Some m"
    "mg_accepted m = [(sample_op, req_n 1, 0), (sample_op, req_n 2, 0)] \<and>
     taken_by m 0 = [req_n 1] \<and> lost_by m 0 = [req_n 2] \<and> mg_calls m = [] \<and> mg_rejected m = []"
    by (cases "run_moves 3 race_moves manager_init") auto
  with run_moves_reachable show ?thesis by blast
qed

definition evict_moves :: "move list" where
  "evict_moves = [NewCall sample_op (req_n 1), RunCall 0, RunCall 0, Recv 0, Idle 0, DropRx 0,
     NewCall sample_op (req_n 2), RunCall 0, RunCall 0, RunCall 0, RunCall 0, Dereg 0,
     NewCall sample_op (req_n 3), RunCall 0, RunCall 0]"

text \<open>
  Deregistration removes the key whoever is registered under it. A task that was
  evicted can take its successor out of the map while that one is serving, and the next request
  starts another task: two tasks for one key batch separately, each with a queue of its own.
\<close>

theorem two_tasks_for_one_key:
  "\<exists>m. reachable 3 m \<and> 2 < length (rg_batchers (mg_registry m)) \<and>
     ba_key (rg_batchers (mg_registry m) ! 1) = ba_key (rg_batchers (mg_registry m) ! 2) \<and>
     ba_status (rg_batchers (mg_registry m) ! 1) = Serving \<and> queued_at (mg_registry m) 1 = [req_n 2] \<and>
     ba_status (rg_batchers (mg_registry m) ! 2) = Serving \<and> queued_at (mg_registry m) 2 = [req_n 3]"
proof -
  have "map_option (\<lambda>m. (rg_batchers (mg_registry m))) (run_moves 3 evict_moves manager_init)
    = Some [\<lparr>ba_key = batch_key_of sample_op (req_n 1), ba_cfg = batcher_config_of sample_op, ba_queue = [], ba_status = Deregistered\<rparr>,
        \<lparr>ba_key = batch_key_of sample_op (req_n 2), ba_cfg = batcher_config_of sample_op, ba_queue = [req_n 2], ba_status = Serving\<rparr>,
        \<lparr>ba_key = batch_key_of sample_op (req_n 3), ba_cfg = batcher_config_of sample_op, ba_queue = [req_n 3], ba_status = Serving\<rparr>]"
    by code_simp
  then obtain m where m: "run_moves 3 evict_moves manager_init = Some m" and
    b: "rg_batchers (mg_registry m) = [\<lparr>ba_key = batch_key_of sample_op (req_n 1), ba_cfg = batcher_config_of sample_op, ba_queue = [], ba_status = Deregistered\<rparr>,
        \<lparr>ba_key = batch_key_of sample_op (req_n 2), ba_cfg = batcher_config_of sample_op, ba_queue = [req_n 2], ba_status = Serving\<rparr>,
        \<lparr>ba_key = batch_key_of sample_op (req_n 3), ba_cfg = batcher_config_of sample_op, ba_queue = [req_n 3], ba_status = Serving\<rparr>]"
    by (cases "run_moves 3 evict_moves manager_init") auto
  have "batch_key_of sample_op (req_n 2) = batch_key_of sample_op (req_n 3)"
    by (simp add: batch_key_of_def sample_op_def)
  with b run_moves_reachable[OF m] show ?thesis
    by (intro exI[of _ m]) (simp add: queued_at_def)
qed

lemma enq_lookup_fresh:
  "hm_get (rg_map r) key = None \<Longrightarrow> enq_lookup op key r = (i, r') \<Longrightarrow>
   i = length (rg_batchers r) \<and> rg_batchers r' = rg_batchers r @
     [\<lparr>ba_key = key, ba_cfg = batcher_config_of op, ba_queue = [], ba_status = Serving\<rparr>]"
  by (auto simp: enq_lookup_def)

definition queued_last :: "registry \<Rightarrow> batch_key \<Rightarrow> pending_request \<Rightarrow> bool" where
  "queued_last r key req \<longleftrightarrow> (\<exists>i. hm_get (rg_map r) key = Some i \<and> alive_at r i \<and>
     queued_at r i \<noteq> [] \<and> last (queued_at r i) = req)"

definition full_at :: "nat \<Rightarrow> registry \<Rightarrow> batch_key \<Rightarrow> bool" where
  "full_at depth r key \<longleftrightarrow> (\<exists>i. hm_get (rg_map r) key = Some i \<and> alive_at r i \<and> depth \<le> length (queued_at r i))"

lemma enqueue_fresh:
  assumes ok: "registry_ok depth r" and none: "hm_get (rg_map r) key = None" and depth: "0 < depth"
    and e: "enqueue_loop (Suc n) depth op key req r = (res, r')"
  shows "res = Some (Inr ()) \<and> registry_ok depth r' \<and> queued_last r' key req"
proof -
  obtain i r1 where l: "enq_lookup op key r = (i, r1)" by (metis prod.exhaust)
  note lo = enq_lookup_ok[OF ok l] and f = enq_lookup_fresh[OF none l]
  obtain t r2 where t: "enq_try_send depth req i r1 = (t, r2)" by (metis prod.exhaust)
  have alive: "receiver_alive (rg_batchers r1 ! i)" "ba_queue (rg_batchers r1 ! i) = []"
    using f by (simp_all add: receiver_alive_def)
  with enq_try_send_cases[OF t] depth have s: "t = TsOk"
    "r2 = set_batcher i ((rg_batchers r1 ! i)\<lparr>ba_queue := [req]\<rparr>) r1" by auto
  with e l t depth have "res = Some (Inr ())" "r' = r2" by simp_all
  moreover have "queued_last r2 key req"
    using lo(2,4) alive by (auto simp: queued_last_def s(2) set_views receiver_alive_def)
  ultimately show ?thesis using enq_try_send_ok[OF lo(1) t] by simp
qed

lemma enqueue_cases:
  assumes ok: "registry_ok depth r" and depth: "0 < depth" and e: "enqueue depth op req r = (res, r')"
  shows "registry_ok depth r' \<and>
    (res = Some (Inr ()) \<and> queued_last r' (batch_key_of op req) req \<and> \<not> full_at depth r (batch_key_of op req)
     \<or> res = Some (Inl QueueFull) \<and> r' = r \<and> full_at depth r (batch_key_of op req))"
proof -
  let ?key = "batch_key_of op req"
  have e2: "enqueue_loop (Suc (Suc 0)) depth op ?key req r = (res, r')"
    using e by (simp add: enqueue_def numeral_2_eq_2)
  show ?thesis
  proof (cases "hm_get (rg_map r) ?key")
    case None
    with enqueue_fresh[OF ok None depth e2] show ?thesis by (simp add: full_at_def)
  next
    case (Some i)
    then have l: "enq_lookup op ?key r = (i, r)" by (simp add: enq_lookup_def)
    have i: "i < length (rg_batchers r)" using registry_okD[OF ok Some] by simp
    obtain t r1 where t: "enq_try_send depth req i r = (t, r1)" by (metis prod.exhaust)
    from enq_try_send_cases[OF t] show ?thesis
    proof (elim disjE conjE, goal_cases)
      case 1
      with e2 l t depth have "enqueue_loop (Suc 0) depth op ?key req (enq_remove ?key r) = (res, r')" by simp
      from enqueue_fresh[OF enq_remove_ok[OF ok] _ depth this] have "res = Some (Inr ()) \<and> registry_ok depth r' \<and> queued_last r' ?key req"
        by (simp add: enq_remove_def)
      with 1 Some here_views[OF i] show ?thesis by (simp add: full_at_def)
    next
      case 2
      with e2 l t depth ok Some i here_views[OF i] show ?thesis by (simp add: full_at_def)
    next
      case 3
      with e2 l t depth have "res = Some (Inr ())" "r' = r1" by simp_all
      with 3 enq_try_send_ok[OF ok t] Some i here_views[OF i] show ?thesis
        by (simp add: full_at_def queued_last_def set_views[OF i] receiver_alive_def)
    qed
  qed
qed

text \<open>
  Enqueue, run without interference, either puts the request at the end of the queue of
  a living task registered under its batch key, starting one when there is none or only a dead one,
  or reports a full queue, exactly when that queue is full; it never reports a closed batcher, and
  it keeps the registry invariant.
\<close>

theorem enqueue_outcome:
  assumes "registry_ok depth r" and "0 < depth" and "enqueue depth op req r = (res, r')"
  shows "registry_ok depth r' \<and>
    (res = Some (Inr ()) \<and> queued_last r' (batch_key_of op req) req \<and> \<not> full_at depth r (batch_key_of op req)
     \<or> res = Some (Inl QueueFull) \<and> r' = r \<and> full_at depth r (batch_key_of op req))"
  by (rule enqueue_cases[OF assms])

definition stale_registry :: registry where
  "stale_registry = \<lparr>rg_map = [(batch_key_of sample_op (req_n 1), 0)],
     rg_batchers = [\<lparr>ba_key = batch_key_of sample_op (req_n 1), ba_cfg = batcher_config_of sample_op,
       ba_queue = [], ba_status = Dropped\<rparr>]\<rparr>"

theorem enqueue_outcome_witness:
  "fst (enqueue 1 sample_op (req_n 1) stale_registry) = Some (Inr ()) \<and>
   queued_last (snd (enqueue 1 sample_op (req_n 1) stale_registry)) (batch_key_of sample_op (req_n 1)) (req_n 1)"
proof -
  have "registry_ok 1 stale_registry" by (simp add: registry_ok_def stale_registry_def hm_ok_def)
  from enqueue_outcome[OF this _ surjective_pairing, of sample_op "req_n 1"]
  show ?thesis by (auto simp: full_at_def stale_registry_def alive_at_def receiver_alive_def split: if_splits)
qed

text \<open>With a depth of 0 nothing is ever registered, so no call finds a sender.\<close>

definition unserved :: "manager \<Rightarrow> bool" where
  "unserved m \<longleftrightarrow> rg_map (mg_registry m) = [] \<and> rg_batchers (mg_registry m) = [] \<and>
     mg_accepted m = [] \<and> list_all (\<lambda>c. case c of Looking _ _ n \<Rightarrow> n = 2 | Sending _ _ _ _ \<Rightarrow> False) (mg_calls m)"

lemma unserved_call:
  assumes "unserved m" and "mg_calls m = a @ c # b" and "call_step 0 c (m\<lparr>mg_calls := a @ b\<rparr>) = (c', m')"
  shows "c' = None \<and> unserved m'"
proof -
  from assms(1,2) obtain op req where c: "c = Looking op req (Suc (Suc 0))"
    by (cases c) (auto simp: unserved_def numeral_2_eq_2)
  with assms show ?thesis by (auto simp: unserved_def call_step_def channel_panics_def)
qed

lemma unserved_step:
  assumes "manager_step 0 m m'" and u: "unserved m"
  shows "unserved m'"
  using assms(1)
proof cases
  case (new_call op req)
  with u show ?thesis by (simp add: unserved_def)
next
  case (call a c b)
  from unserved_call[OF u call] show ?thesis by blast
next
  case (call_on a c b c' m1)
  from unserved_call[OF u call_on(2,3)] show ?thesis by blast
qed (use u in \<open>simp_all add: unserved_def\<close>)

lemma reachable_unserved: "reachable 0 m \<Longrightarrow> unserved m"
  unfolding reachable_def
proof (induction rule: rtranclp_induct)
  case base
  show ?case by (simp add: unserved_def manager_init_def)
next
  case (step m m')
  then show ?case by (blast intro: unserved_step)
qed

text \<open>
  A queue depth of 0, which the configuration accepts, makes the gateway useless rather
  than strict: no request is ever queued or answered with a full queue; every \<^verbatim>\<open>enqueue\<close>, in every
  reachable state, panics in the constructor of the channel.
\<close>

theorem zero_depth_panics:
  assumes "reachable 0 m"
  shows "enqueue 0 op req (mg_registry m) = (None, mg_registry m) \<and> mg_accepted m = []"
  using reachable_unserved[OF assms]
  by (simp add: unserved_def enqueue_def numeral_2_eq_2 channel_panics_def)

theorem zero_depth_panics_witness:
  "\<exists>m. run_moves 0 [NewCall sample_op (req_n 1), RunCall 0] manager_init = Some m \<and> mg_panicked m = [req_n 1] \<and>
     fst (enqueue 0 sample_op (req_n 2) (mg_registry m)) = None"
proof -
  have "map_option mg_panicked (run_moves 0 [NewCall sample_op (req_n 1), RunCall 0] manager_init) = Some [req_n 1]"
    by code_simp
  then obtain m where m: "run_moves 0 [NewCall sample_op (req_n 1), RunCall 0] manager_init = Some m" "mg_panicked m = [req_n 1]"
    by blast
  from zero_depth_panics[OF run_moves_reachable[OF m(1)]] m show ?thesis by auto
qed

end
