(* ===== verification/Gw_Server.thy ===== *)
theory Gw_Server
  imports Gw_Manager
begin

text \<open>
  The HTTP front of the gateway (\<^verbatim>\<open>gateway/src/server.rs\<close>): the header policy, the translation of a
  request into a pending request, the answers of the catch-all handler \<^verbatim>\<open>handle_any\<close>, and the readiness
  flag. Where \<^verbatim>\<open>handle_any\<close> waits (for the body, for the reply) it is cut into functions; their
  composition for one connection, and for many, is in \<^verbatim>\<open>Gw_Connections\<close>.
\<close>

subsection \<open>Header policy\<close>

record forward_headers_config =
  fh_allow :: "string list"
  fh_deny :: "string list"

text \<open>The sets hold normalised header names.\<close>

record header_forward_policy =
  hp_allow :: "string set option"
  hp_deny :: "string set"

fun header_names :: "ext \<Rightarrow> string list \<Rightarrow> ext_error + string set" where
  "header_names x [] = Inr {}"
| "header_names x (n # ns) =
     (case x_header_name x n of
        None \<Rightarrow> Inl (BadHeaderName n)
      | Some m \<Rightarrow> res_bind (header_names x ns) (\<lambda>s. Inr (insert m s)))"

definition policy_try_from_cfg :: "ext \<Rightarrow> forward_headers_config \<Rightarrow> ext_error + header_forward_policy" where
  "policy_try_from_cfg x cfg =
     res_bind (if fh_allow cfg = [] then Inr None
               else res_bind (header_names x (fh_allow cfg)) (\<lambda>s. Inr (Some s))) (\<lambda>allow.
     res_bind (header_names x (fh_deny cfg)) (\<lambda>deny.
       Inr \<lparr>hp_allow = allow, hp_deny = deny\<rparr>))"

definition is_hop_by_hop_header :: "string \<Rightarrow> bool" where
  "is_hop_by_hop_header name \<longleftrightarrow>
     name \<in> {''connection'', ''keep-alive'', ''proxy-authenticate'', ''proxy-authorization'', ''te'', ''trailer'',
             ''transfer-encoding'', ''upgrade''}"

definition should_forward :: "header_forward_policy \<Rightarrow> string \<Rightarrow> bool" where
  "should_forward p name =
     (if is_hop_by_hop_header name then False
      else if name \<in> hp_deny p then False
      else (case hp_allow p of Some allow \<Rightarrow> name \<in> allow | None \<Rightarrow> True))"

subsection \<open>Requests\<close>

text \<open>
  The parts of a request the handler reads. \<open>rp_trace\<close> stands for the request's trace context as the
  propagator writes it out: None when tracing is off, otherwise whether the span context is valid
  and the fields the propagator would set.
\<close>

record request_parts =
  rp_method :: http_method
  rp_path :: string
  rp_query :: "string option"
  rp_headers :: header_map
  rp_trace :: "(bool \<times> (string \<times> string) list) option"

definition inject_trace_context :: "bool \<times> (string \<times> string) list \<Rightarrow> (string, string) hashmap \<Rightarrow>
    (string, string) hashmap" where
  "inject_trace_context cx headers =
     (if \<not> fst cx then headers
      else fold (\<lambda>(k, v) h. hm_insert (to_ascii_lowercase k) v h) (snd cx) headers)"

fun collect_headers :: "ext \<Rightarrow> header_forward_policy \<Rightarrow> header_map \<Rightarrow> (string, string) hashmap \<Rightarrow>
    (string, string) hashmap" where
  "collect_headers x p [] headers = headers"
| "collect_headers x p ((name, value) # hs) headers =
     (if \<not> should_forward p name then collect_headers x p hs headers
      else if x_to_str x value then collect_headers x p hs (hm_insert name value headers)
      else collect_headers x p hs headers)"

definition request_headers :: "ext \<Rightarrow> header_forward_policy \<Rightarrow> request_parts \<Rightarrow> (string, string) hashmap" where
  "request_headers x p parts =
     (let headers = collect_headers x p (rp_headers parts) []
      in case rp_trace parts of None \<Rightarrow> headers | Some cx \<Rightarrow> inject_trace_context cx headers)"

text \<open>\<^verbatim>\<open>url::form_urlencoded::parse\<close> is the parameter \<open>parse_form\<close>.\<close>

definition raw_query :: "request_parts \<Rightarrow> string" where
  "raw_query parts = (case rp_query parts of None \<Rightarrow> [] | Some q \<Rightarrow> q)"

definition query_params :: "(string \<Rightarrow> (string \<times> string) list) \<Rightarrow> string \<Rightarrow> (string, string) hashmap" where
  "query_params parse_form raw =
     (if raw = [] then [] else fold (\<lambda>(k, v) q. hm_insert k v q) (parse_form raw) [])"

definition read_body :: "nat \<Rightarrow> bytes option \<Rightarrow> bytes option" where
  "read_body max_body_bytes body =
     (case body of Some b \<Rightarrow> if length b \<le> max_body_bytes then Some b else None | None \<Rightarrow> None)"

subsection \<open>Application state and the pending request\<close>

record 'r app_state =
  as_router_ops :: "'r router_ops"
  as_spec :: 'r
  as_depth :: nat
  as_max_body_bytes :: nat
  as_forward_headers :: header_forward_policy
  as_batch_size_header :: "string option"
  as_parse_form :: "string \<Rightarrow> (string \<times> string) list"

definition pending_of :: "ext \<Rightarrow> 'r app_state \<Rightarrow> request_parts \<Rightarrow> operation_config \<Rightarrow> (string, string) hashmap \<Rightarrow>
    bytes \<Rightarrow> string \<Rightarrow> response_sink \<Rightarrow> pending_request" where
  "pending_of x app parts op path_params body uuid sink =
     \<lparr>pr_id = ''r-'' @ uuid, pr_method = rp_method parts, pr_path = rp_path parts, pr_route = oc_route_template op,
      pr_path_params = path_params, pr_headers = request_headers x (as_forward_headers app) parts,
      pr_query = query_params (as_parse_form app) (raw_query parts), pr_raw_query_string = raw_query parts,
      pr_body = body, pr_respond_to = sink\<rparr>"

subsection \<open>Responses\<close>

text \<open>The response handed to the HTTP library: a whole body, or the receiving end of a body channel.\<close>

datatype response_body = FullBody bytes | StreamBody chan

record response =
  rs_status :: nat
  rs_headers :: header_map
  rs_body :: response_body
  rs_meta :: "gateway_response_meta option"

definition into_response :: "gateway_response \<Rightarrow> response" where
  "into_response r = \<lparr>rs_status = gr_status r, rs_headers = gr_headers r, rs_body = FullBody (gr_body r), rs_meta = gr_meta r\<rparr>"

definition text_answer :: "nat \<Rightarrow> string \<Rightarrow> response" where
  "text_answer status msg = into_response (text_response status msg)"

definition method_not_allowed :: "ext \<Rightarrow> http_method list \<Rightarrow> response" where
  "method_not_allowed x allowed =
     (let resp = text_response 405 ''method not allowed'';
          allow = str_join '', '' (map method_str allowed)
      in into_response (if x_header_value x allow
           then resp\<lparr>gr_headers := header_insert ''allow'' allow (gr_headers resp)\<rparr> else resp))"

text \<open>What the handler finds when it waits for a reply within the timeout of the operation.\<close>

datatype 'a waited = Arrived 'a | SenderDropped | TimedOut

definition await_buffered :: "gateway_response waited \<Rightarrow> response" where
  "await_buffered w =
     (case w of
        Arrived resp \<Rightarrow> into_response resp
      | SenderDropped \<Rightarrow> text_answer 502 ''dropped response''
      | TimedOut \<Rightarrow> text_answer 504 ''timeout'')"

definition await_stream :: "chan \<Rightarrow> stream_init waited \<Rightarrow> response" where
  "await_stream body_rx w =
     (case w of
        Arrived (InitResponse resp) \<Rightarrow> into_response resp
      | Arrived (InitStream head) \<Rightarrow>
          \<lparr>rs_status = sh_status head, rs_headers = sh_headers head, rs_body = StreamBody body_rx, rs_meta = Some (sh_meta head)\<rparr>
      | SenderDropped \<Rightarrow> text_answer 502 ''dropped response''
      | TimedOut \<Rightarrow> text_answer 504 ''timeout'')"

definition enqueue_answer :: "enqueue_error \<Rightarrow> response" where
  "enqueue_answer e =
     (case e of QueueFull \<Rightarrow> text_answer 429 ''queue full'' | BatcherClosed \<Rightarrow> text_answer 429 ''batcher closed'')"

text \<open>The end of the handler: the meta data leaves the response, as a header when that is enabled.\<close>

definition finalize_response :: "ext \<Rightarrow> string option \<Rightarrow> response \<Rightarrow> response" where
  "finalize_response x batch_size_header res =
     (let meta = rs_meta res; res = res\<lparr>rs_meta := None\<rparr>
      in case (meta, batch_size_header) of
           (Some m, Some name) \<Rightarrow>
             (let value = show_nat (rm_batch_size m)
              in if x_header_value x value then res\<lparr>rs_headers := header_insert name value (rs_headers res)\<rparr> else res)
         | _ \<Rightarrow> res)"

definition batch_size_header_from_env :: "(string \<Rightarrow> string option) \<Rightarrow> string option" where
  "batch_size_header_from_env env =
     (let enabled = (case env ''SMUG_INCLUDE_BATCH_SIZE_HEADER'' of
            Some v \<Rightarrow> (let v = trim v in v \<noteq> [] \<and> to_ascii_lowercase v \<notin> {''0'', ''false'', ''no'', ''off''})
          | None \<Rightarrow> False)
      in if enabled then Some ''x-smug-batch-size'' else None)"

text \<open>A plain string as a response of the HTTP library.\<close>

definition str_response :: "nat \<Rightarrow> string \<Rightarrow> response" where
  "str_response status msg = \<lparr>rs_status = status, rs_headers = [(''content-type'', ''text/plain; charset=utf-8'')],
     rs_body = FullBody msg, rs_meta = None\<rparr>"

definition readyz :: "bool \<Rightarrow> response" where
  "readyz ready = (if ready then str_response 200 ''ok'' else str_response 503 ''not ready'')"

subsection \<open>The phases of \<^verbatim>\<open>handle_any\<close>\<close>

text \<open>Matching and admission: an answer, or the operation with one permit taken.\<close>

definition admit :: "ext \<Rightarrow> 'r app_state \<Rightarrow> request_parts \<Rightarrow> nat \<Rightarrow>
    (response + operation_config \<times> (string, string) hashmap) \<times> nat" where
  "admit x app parts permits =
     (case match_request (as_router_ops app) (as_spec app) (rp_method parts) (rp_path parts) of
        NotFound \<Rightarrow> (Inl (text_answer 404 ''not found''), permits)
      | MethodNotAllowed allowed \<Rightarrow> (Inl (method_not_allowed x allowed), permits)
      | Matched op path_params \<Rightarrow>
          if permits = 0 then (Inl (text_answer 429 ''too many requests''), permits)
          else (Inr (op, path_params), permits - 1))"

text \<open>
  After the body has been read: the request is queued, or answered. \<open>c\<close> and \<open>d\<close> are the new reply
  channel and, for a streaming operation, the new body channel. \<open>None\<close> is a panic of \<^verbatim>\<open>enqueue\<close>.
\<close>

definition sink_of :: "operation_config \<Rightarrow> chan \<Rightarrow> chan \<Rightarrow> response_sink" where
  "sink_of op c d = (if oc_invoke_mode op = ResponseStream then SinkStream c d else SinkBuffered c)"

definition submit :: "ext \<Rightarrow> 'r app_state \<Rightarrow> request_parts \<Rightarrow> operation_config \<Rightarrow> (string, string) hashmap \<Rightarrow>
    bytes option \<Rightarrow> string \<Rightarrow> chan \<Rightarrow> chan \<Rightarrow> registry \<Rightarrow> (response + response_sink) option \<times> registry" where
  "submit x app parts op path_params body uuid c d r =
     (case read_body (as_max_body_bytes app) body of
        None \<Rightarrow> (Some (Inl (text_answer 413 ''body too large'')), r)
      | Some b \<Rightarrow>
          (let sink = sink_of op c d
           in case enqueue (as_depth app) op (pending_of x app parts op path_params b uuid sink) r of
                (Some (Inr _), r') \<Rightarrow> (Some (Inr sink), r')
              | (Some (Inl e), r') \<Rightarrow> (Some (Inl (enqueue_answer e)), r')
              | (None, r') \<Rightarrow> (None, r')))"

subsection \<open>Which headers are forwarded\<close>

definition configured :: "ext \<Rightarrow> string list \<Rightarrow> string set" where
  "configured x ns = {m. \<exists>n \<in> set ns. x_header_name x n = Some m}"

lemma header_names_Inr: "header_names x ns = Inr s \<Longrightarrow> s = configured x ns"
  by (induction ns arbitrary: s) (auto simp: configured_def res_bind_Inr_iff split: option.splits)

lemma policy_Inr:
  assumes "policy_try_from_cfg x cfg = Inr p"
  shows "should_forward p n \<longleftrightarrow> \<not> is_hop_by_hop_header n \<and> n \<notin> configured x (fh_deny cfg) \<and>
    (fh_allow cfg = [] \<or> n \<in> configured x (fh_allow cfg))"
  using assms
  by (auto simp: policy_try_from_cfg_def should_forward_def res_bind_Inr_iff split: if_splits dest!: header_names_Inr)

text \<open>The values of a header the handler can read.\<close>

definition readable :: "ext \<Rightarrow> string \<Rightarrow> header_map \<Rightarrow> string list" where
  "readable x n h = filter (x_to_str x) (header_get_all n h)"

lemma collect_headers_get:
  "hm_get (collect_headers x p h acc) n =
     (if should_forward p n \<and> readable x n h \<noteq> [] then Some (last (readable x n h)) else hm_get acc n)"
  by (induction x p h acc rule: collect_headers.induct) (auto simp: readable_def header_get_all_def)

lemma collect_headers_ok: "hm_ok acc \<Longrightarrow> hm_ok (collect_headers x p h acc)"
  by (induction x p h acc rule: collect_headers.induct) auto

lemma fold_insert_other:
  "n \<notin> to_ascii_lowercase ` fst ` set fs \<Longrightarrow>
   hm_get (fold (\<lambda>(k, v) h. hm_insert (to_ascii_lowercase k) v h) fs h) n = hm_get h n"
  using hash.lookup_many_other[of n "map (\<lambda>(k, v). (to_ascii_lowercase k, v)) fs" h]
  by (auto simp: fold_map comp_def case_prod_unfold image_iff)

definition trace_keys :: "request_parts \<Rightarrow> string set" where
  "trace_keys parts = (case rp_trace parts of Some (True, fs) \<Rightarrow> to_ascii_lowercase ` fst ` set fs | _ \<Rightarrow> {})"

text \<open>
  Property C29: the headers that reach the function are those the configuration lets through. A
  header that is not one of the tracing fields is in the pending request exactly when it is no
  hop-by-hop header, not on the deny list, on the allow list if there is one (both lists compared by
  normalised name), and has a readable value; the value that is kept is the last readable one.
\<close>

theorem forwarded_header_iff:
  assumes "policy_try_from_cfg x cfg = Inr (as_forward_headers app)"
    and "n \<notin> trace_keys parts"
  shows "hm_get (pr_headers (pending_of x app parts op params body uuid sink)) n = Some v \<longleftrightarrow>
    \<not> is_hop_by_hop_header n \<and> n \<notin> configured x (fh_deny cfg) \<and>
    (fh_allow cfg = [] \<or> n \<in> configured x (fh_allow cfg)) \<and>
    readable x n (rp_headers parts) \<noteq> [] \<and> v = last (readable x n (rp_headers parts))"
proof -
  have "hm_get (request_headers x (as_forward_headers app) parts) n =
      hm_get (collect_headers x (as_forward_headers app) (rp_headers parts) []) n"
    using assms(2) fold_insert_other
    by (auto simp: request_headers_def inject_trace_context_def trace_keys_def Let_def split: option.splits)
  then show ?thesis by (auto simp: pending_of_def collect_headers_get policy_Inr[OF assms(1)])
qed

definition sample_parts :: "header_map \<Rightarrow> request_parts" where
  "sample_parts h = \<lparr>rp_method = GET, rp_path = ''/'', rp_query = None, rp_headers = h, rp_trace = None\<rparr>"

definition sample_app :: "header_forward_policy \<Rightarrow> unit app_state" where
  "sample_app p = \<lparr>as_router_ops = \<lparr>ro_new = (), ro_insert = (\<lambda>_ _ _. Inr ()), ro_at = (\<lambda>_ _. None)\<rparr>, as_spec = (),
     as_depth = 1, as_max_body_bytes = 4, as_forward_headers = p, as_batch_size_header = None, as_parse_form = (\<lambda>_. [])\<rparr>"

text \<open>Two \<^verbatim>\<open>cookie\<close> fields, as HTTP/2 clients send them: only the second arrives.\<close>

theorem forwarded_header_iff_witness:
  "\<exists>p. policy_try_from_cfg plain_ext \<lparr>fh_allow = [], fh_deny = [''x'']\<rparr> = Inr p \<and>
     hm_get (pr_headers (pending_of plain_ext (sample_app p) (sample_parts [(''cookie'', ''a''), (''cookie'', ''b'')])
       sample_op [] [] ''u'' (SinkBuffered 0))) ''cookie'' = Some ''b''"
proof -
  obtain p where p: "policy_try_from_cfg plain_ext \<lparr>fh_allow = [], fh_deny = [''x'']\<rparr> = Inr p"
    by (simp add: policy_try_from_cfg_def plain_ext_def)
  then have "policy_try_from_cfg plain_ext \<lparr>fh_allow = [], fh_deny = [''x'']\<rparr> = Inr (as_forward_headers (sample_app p))"
    by (simp add: sample_app_def)
  from forwarded_header_iff[OF this, of "''cookie''" "sample_parts [(''cookie'', ''a''), (''cookie'', ''b'')]"] p show ?thesis
    by (intro exI[of _ p]) (simp add: trace_keys_def sample_parts_def is_hop_by_hop_header_def configured_def readable_def
        header_get_all_def plain_ext_def to_ascii_lowercase_def ascii_lower_def)
qed

subsection \<open>Queueing a request\<close>



end
