(* ===== verification/Gw_Config.thy ===== *)
theory Gw_Config
  imports Gw_Numbers Gw_Server "HOL-Library.Monad_Syntax"
begin

text \<open>
  The configuration document of the gateway: the decoders that \<^verbatim>\<open>derive(Deserialize)\<close> gives for the
  structs of \<^verbatim>\<open>gateway/src/config.rs\<close> and \<^verbatim>\<open>gateway/src/spec.rs\<close> with their names and defaults, where the
  document is found (\<^verbatim>\<open>location.rs\<close>, \<^verbatim>\<open>main.rs\<close>), and the environment variables of \<^verbatim>\<open>main.rs\<close>.
  The YAML reader and the URL parser are parameters.
\<close>

subsection \<open>Structs in YAML\<close>

text \<open>
  A struct is a mapping, its keys read by their text; unknown keys are ignored, a known key given
  twice is an error. A missing field has its default, or is an error when it has none. A string is
  the text of any scalar.
\<close>

fun yaml_entries :: "(yaml \<times> yaml) list \<Rightarrow> (string \<times> yaml) list option" where
  "yaml_entries [] = Some []"
| "yaml_entries ((YScalar k _, v) # kvs) = map_option (\<lambda>es. (k, v) # es) (yaml_entries kvs)"
| "yaml_entries (_ # kvs) = None"

definition yaml_struct :: "string list \<Rightarrow> yaml \<Rightarrow> (string \<times> yaml) list option" where
  "yaml_struct names y =
     (case y of
        YMap kvs \<Rightarrow> (case yaml_entries kvs of
            None \<Rightarrow> None
          | Some es \<Rightarrow> (let known = filter (\<lambda>(k, v). k \<in> set names) es
              in if distinct (map fst known) then Some known else None))
      | _ \<Rightarrow> None)"

definition yreq :: "string \<Rightarrow> (yaml \<Rightarrow> 'a option) \<Rightarrow> (string \<times> yaml) list \<Rightarrow> 'a option" where
  "yreq name dec fs = Option.bind (map_of fs name) dec"

definition ydef :: "string \<Rightarrow> (yaml \<Rightarrow> 'a option) \<Rightarrow> 'a \<Rightarrow> (string \<times> yaml) list \<Rightarrow> 'a option" where
  "ydef name dec d fs = (case map_of fs name of None \<Rightarrow> Some d | Some y \<Rightarrow> dec y)"

fun y_string :: "yaml \<Rightarrow> string option" where
  "y_string (YScalar s _) = Some s"
| "y_string _ = None"

fun y_list :: "(yaml \<Rightarrow> 'a option) \<Rightarrow> yaml \<Rightarrow> 'a list option" where
  "y_list f (YSeq ys) = all_some (map f ys)"
| "y_list f _ = None"

fun y_option :: "(yaml \<Rightarrow> 'a option) \<Rightarrow> yaml \<Rightarrow> 'a option option" where
  "y_option f (YScalar _ SNull) = Some None"
| "y_option f y = map_option Some (f y)"

subsection \<open>The spec document\<close>

definition dec_invoke_mode :: "yaml \<Rightarrow> invoke_mode option" where
  "dec_invoke_mode y =
     (case y of YScalar s _ \<Rightarrow> if s = ''buffered'' then Some Buffered else if s = ''response_stream'' then Some ResponseStream else None
      | _ \<Rightarrow> None)"

definition default_dynamic_target_rps :: f64 where
  "default_dynamic_target_rps = F_Fin 50"

text \<open>The literal \<^verbatim>\<open>0.01\<close>, rounded.\<close>

definition default_dynamic_steepness :: f64 where
  "default_dynamic_steepness = fl (1 / 100)"

definition default_dynamic_sampling_interval_ms :: nat where
  "default_dynamic_sampling_interval_ms = 100"

definition default_dynamic_smoothing_samples :: nat where
  "default_dynamic_smoothing_samples = 10"

definition dec_dynamic_wait :: "yaml \<Rightarrow> dynamic_wait_config option" where
  "dec_dynamic_wait y = do {
     fs \<leftarrow> yaml_struct [''minWaitMs'', ''targetRps'', ''steepness'', ''samplingIntervalMs'', ''smoothingSamples''] y;
     min_wait_ms \<leftarrow> yreq ''minWaitMs'' de_u64_or_string fs;
     target_rps \<leftarrow> ydef ''targetRps'' de_f64_or_string default_dynamic_target_rps fs;
     steepness \<leftarrow> ydef ''steepness'' de_f64_or_string default_dynamic_steepness fs;
     sampling_interval_ms \<leftarrow> ydef ''samplingIntervalMs'' de_u64_or_string default_dynamic_sampling_interval_ms fs;
     smoothing_samples \<leftarrow> ydef ''smoothingSamples'' de_usize_or_string default_dynamic_smoothing_samples fs;
     Some \<lparr>dw_min_wait_ms = min_wait_ms, dw_target_rps = target_rps, dw_steepness = steepness,
           dw_sampling_interval_ms = sampling_interval_ms, dw_smoothing_samples = smoothing_samples\<rparr>
   }"

definition dec_smug_operation_config :: "yaml \<Rightarrow> smug_operation_config option" where
  "dec_smug_operation_config y = do {
     fs \<leftarrow> yaml_struct [''maxWaitMs'', ''maxBatchSize'', ''key'', ''timeoutMs'', ''invokeMode'', ''dynamicWait''] y;
     max_wait_ms \<leftarrow> yreq ''maxWaitMs'' de_u64_or_string fs;
     max_batch_size \<leftarrow> yreq ''maxBatchSize'' de_usize_or_string fs;
     key \<leftarrow> ydef ''key'' (y_list y_string) [] fs;
     timeout_ms \<leftarrow> ydef ''timeoutMs'' de_option_u64_or_string None fs;
     invoke_mode \<leftarrow> ydef ''invokeMode'' dec_invoke_mode Buffered fs;
     dynamic_wait \<leftarrow> ydef ''dynamicWait'' (y_option dec_dynamic_wait) None fs;
     Some \<lparr>so_max_wait_ms = max_wait_ms, so_max_batch_size = max_batch_size, so_key = key,
           so_timeout_ms = timeout_ms, so_invoke_mode = invoke_mode, so_dynamic_wait = dynamic_wait\<rparr>
   }"

definition dec_operation :: "yaml \<Rightarrow> operation option" where
  "dec_operation y = do {
     fs \<leftarrow> yaml_struct [''operationId'', ''x-target-lambda'', ''x-smug''] y;
     operation_id \<leftarrow> ydef ''operationId'' (y_option y_string) None fs;
     target_lambda \<leftarrow> yreq ''x-target-lambda'' y_string fs;
     smug \<leftarrow> yreq ''x-smug'' dec_smug_operation_config fs;
     Some \<lparr>op_operation_id = operation_id, op_target_lambda = target_lambda, op_smug = smug\<rparr>
   }"

definition dec_path_item :: "yaml \<Rightarrow> path_item option" where
  "dec_path_item y = do {
     fs \<leftarrow> yaml_struct [''get'', ''post'', ''put'', ''delete'', ''patch'', ''head'', ''options''] y;
     g \<leftarrow> ydef ''get'' (y_option dec_operation) None fs;
     po \<leftarrow> ydef ''post'' (y_option dec_operation) None fs;
     pu \<leftarrow> ydef ''put'' (y_option dec_operation) None fs;
     de \<leftarrow> ydef ''delete'' (y_option dec_operation) None fs;
     pa \<leftarrow> ydef ''patch'' (y_option dec_operation) None fs;
     he \<leftarrow> ydef ''head'' (y_option dec_operation) None fs;
     opt \<leftarrow> ydef ''options'' (y_option dec_operation) None fs;
     Some \<lparr>pi_get = g, pi_post = po, pi_put = pu, pi_delete = de, pi_patch = pa, pi_head = he, pi_options = opt\<rparr>
   }"

text \<open>\<^verbatim>\<open>BTreeMap<String, PathItem>\<close>: sorted by path, a path given twice has its last item.\<close>

fun dec_paths :: "(yaml \<times> yaml) list \<Rightarrow> (string \<times> path_item) list \<Rightarrow> (string \<times> path_item) list option" where
  "dec_paths [] m = Some m"
| "dec_paths ((k, v) # kvs) m =
     (case (y_string k, dec_path_item v) of (Some p, Some i) \<Rightarrow> dec_paths kvs (bt_insert p i m) | _ \<Rightarrow> None)"

definition dec_openapi_like_spec :: "yaml \<Rightarrow> openapi_like_spec option" where
  "dec_openapi_like_spec y = do {
     fs \<leftarrow> yaml_struct [''paths''] y;
     ps \<leftarrow> yreq ''paths'' (\<lambda>v. case v of YMap kvs \<Rightarrow> dec_paths kvs [] | _ \<Rightarrow> None) fs;
     Some \<lparr>sp_paths = ps\<rparr>
   }"

subsection \<open>The gateway configuration\<close>

definition dec_forward_headers_config :: "yaml \<Rightarrow> forward_headers_config option" where
  "dec_forward_headers_config y = do {
     fs \<leftarrow> yaml_struct [''Allow'', ''Deny''] y;
     allow \<leftarrow> ydef ''Allow'' (y_list y_string) [] fs;
     deny \<leftarrow> ydef ''Deny'' (y_list y_string) [] fs;
     Some \<lparr>fh_allow = allow, fh_deny = deny\<rparr>
   }"

record 'addr gateway_config =
  gc_listen_addr :: 'addr
  gc_spec :: "openapi_like_spec option"
  gc_aws_region :: "string option"
  gc_max_inflight_invocations :: nat
  gc_max_inflight_requests :: nat
  gc_max_pending_invocations :: nat
  gc_max_queue_depth_per_key :: nat
  gc_idle_ttl_ms :: nat
  gc_default_timeout_ms :: nat
  gc_max_body_bytes :: nat
  gc_max_invoke_payload_bytes :: nat
  gc_forward_headers :: forward_headers_config

definition default_max_inflight_invocations :: nat where
  "default_max_inflight_invocations = 64"
definition default_max_queue_depth_per_key :: nat where
  "default_max_queue_depth_per_key = 1000"
definition default_idle_ttl_ms :: nat where
  "default_idle_ttl_ms = 30000"
definition default_default_timeout_ms :: nat where
  "default_default_timeout_ms = 2000"
definition default_max_body_bytes :: nat where
  "default_max_body_bytes = 1024 * 1024"
definition default_max_invoke_payload_bytes :: nat where
  "default_max_invoke_payload_bytes = 6 * 1024 * 1024"
definition default_max_inflight_requests :: nat where
  "default_max_inflight_requests = 4096"
definition default_max_pending_invocations :: nat where
  "default_max_pending_invocations = 256"

definition gateway_fields :: "string list" where
  "gateway_fields = [''ListenAddr'', ''Spec'', ''AwsRegion'', ''MaxInflightInvocations'', ''MaxInflightRequests'',
     ''MaxPendingInvocations'', ''MaxQueueDepthPerKey'', ''IdleTtlMs'', ''DefaultTimeoutMs'', ''MaxBodyBytes'',
     ''MaxInvokePayloadBytes'', ''ForwardHeaders'']"

definition dec_gateway_config :: "(string \<Rightarrow> 'addr option) \<Rightarrow> yaml \<Rightarrow> 'addr gateway_config option" where
  "dec_gateway_config parse_addr y = do {
     fs \<leftarrow> yaml_struct gateway_fields y;
     listen_addr \<leftarrow> yreq ''ListenAddr'' (\<lambda>v. Option.bind (y_string v) parse_addr) fs;
     spec \<leftarrow> ydef ''Spec'' (y_option dec_openapi_like_spec) None fs;
     aws_region \<leftarrow> ydef ''AwsRegion'' (y_option y_string) None fs;
     max_inflight_invocations \<leftarrow> ydef ''MaxInflightInvocations'' de_usize_or_string default_max_inflight_invocations fs;
     max_inflight_requests \<leftarrow> ydef ''MaxInflightRequests'' de_usize_or_string default_max_inflight_requests fs;
     max_pending_invocations \<leftarrow> ydef ''MaxPendingInvocations'' de_usize_or_string default_max_pending_invocations fs;
     max_queue_depth_per_key \<leftarrow> ydef ''MaxQueueDepthPerKey'' de_usize_or_string default_max_queue_depth_per_key fs;
     idle_ttl_ms \<leftarrow> ydef ''IdleTtlMs'' de_u64_or_string default_idle_ttl_ms fs;
     default_timeout_ms \<leftarrow> ydef ''DefaultTimeoutMs'' de_u64_or_string default_default_timeout_ms fs;
     max_body_bytes \<leftarrow> ydef ''MaxBodyBytes'' de_usize_or_string default_max_body_bytes fs;
     max_invoke_payload_bytes \<leftarrow> ydef ''MaxInvokePayloadBytes'' de_usize_or_string default_max_invoke_payload_bytes fs;
     forward_headers \<leftarrow> ydef ''ForwardHeaders'' dec_forward_headers_config \<lparr>fh_allow = [], fh_deny = []\<rparr> fs;
     Some \<lparr>gc_listen_addr = listen_addr, gc_spec = spec, gc_aws_region = aws_region,
           gc_max_inflight_invocations = max_inflight_invocations, gc_max_inflight_requests = max_inflight_requests,
           gc_max_pending_invocations = max_pending_invocations, gc_max_queue_depth_per_key = max_queue_depth_per_key,
           gc_idle_ttl_ms = idle_ttl_ms, gc_default_timeout_ms = default_timeout_ms,
           gc_max_body_bytes = max_body_bytes, gc_max_invoke_payload_bytes = max_invoke_payload_bytes,
           gc_forward_headers = forward_headers\<rparr>
   }"

definition from_yaml_bytes :: "(bytes \<Rightarrow> yaml option) \<Rightarrow> (string \<Rightarrow> 'addr option) \<Rightarrow> bytes \<Rightarrow> 'addr gateway_config option" where
  "from_yaml_bytes parse_yaml parse_addr bs = Option.bind (parse_yaml bs) (dec_gateway_config parse_addr)"

subsection \<open>Defaults\<close>

text \<open>
  A configuration that gives nothing but the listen address has the documented defaults:
  64 invocations, 4096 requests, 256 queued invocations, 1000 requests per batch key, 30 s idle time,
  2 s timeout, 1 MiB bodies, 6 MiB payloads, no allow list and no deny list.
\<close>

theorem config_defaults:
  assumes "parse_addr a = Some addr"
  shows "dec_gateway_config parse_addr (YMap [(YScalar ''ListenAddr'' t, YScalar a t')]) =
    Some \<lparr>gc_listen_addr = addr, gc_spec = None, gc_aws_region = None, gc_max_inflight_invocations = 64,
      gc_max_inflight_requests = 4096, gc_max_pending_invocations = 256, gc_max_queue_depth_per_key = 1000,
      gc_idle_ttl_ms = 30000, gc_default_timeout_ms = 2000, gc_max_body_bytes = 1048576,
      gc_max_invoke_payload_bytes = 6291456, gc_forward_headers = \<lparr>fh_allow = [], fh_deny = []\<rparr>\<rparr>"
  using assms
  by (simp add: dec_gateway_config_def yaml_struct_def gateway_fields_def yreq_def ydef_def
      default_max_inflight_invocations_def default_max_queue_depth_per_key_def default_idle_ttl_ms_def
      default_default_timeout_ms_def default_max_body_bytes_def default_max_invoke_payload_bytes_def
      default_max_inflight_requests_def default_max_pending_invocations_def)

theorem config_defaults_witness:
  "map_option gc_idle_ttl_ms (dec_gateway_config Some (YMap [(YScalar ''ListenAddr'' SStr, YScalar ''h'' SStr)])) = Some 30000"
  using config_defaults[of Some "''h''" "''h''" SStr SStr] by simp

subsection \<open>Numbers turned into strings\<close>

text \<open>What CloudFormation does to a document: the unsigned numbers of the given fields become strings.\<close>

fun stringify_scalar :: "yaml \<Rightarrow> yaml" where
  "stringify_scalar (YScalar t (SInt i)) =
     (if 0 \<le> i \<and> i \<le> int u64_max then YScalar (show_nat (nat i)) SStr else YScalar t (SInt i))"
| "stringify_scalar y = y"

fun stringify_field :: "string list \<Rightarrow> yaml \<times> yaml \<Rightarrow> yaml \<times> yaml" where
  "stringify_field names (YScalar k t, v) = (YScalar k t, if k \<in> set names then stringify_scalar v else v)"
| "stringify_field names (k, v) = (k, v)"

lemma stringify_numbers:
  "de_u64_or_string (stringify_scalar y) = de_u64_or_string y"
  "de_usize_or_string (stringify_scalar y) = de_usize_or_string y"
  "de_option_u64_or_string (stringify_scalar y) = de_option_u64_or_string y"
proof -
  have t: "trim (show_nat n) = show_nat n" for n using show_nat_digits[of n] by (simp add: trim_digits)
  have "visit_str (show_nat n) = Some n" if "n \<le> u64_max" for n
    using that by (simp add: visit_str_def t parse_show_nat)
  then show "de_u64_or_string (stringify_scalar y) = de_u64_or_string y"
    "de_usize_or_string (stringify_scalar y) = de_usize_or_string y"
    "de_option_u64_or_string (stringify_scalar y) = de_option_u64_or_string y"
    by (cases y rule: stringify_scalar.cases; auto simp: de_u64_or_string_def de_usize_or_string_def
        de_option_u64_or_string_def usize_visit_u64_def nat_le_iff)+
qed

definition stringify_entries :: "string list \<Rightarrow> (string \<times> yaml) list \<Rightarrow> (string \<times> yaml) list" where
  "stringify_entries nums es = map (\<lambda>(k, v). (k, if k \<in> set nums then stringify_scalar v else v)) es"

lemma stringify_struct:
  "yaml_struct names (YMap (map (stringify_field nums) kvs)) =
     map_option (stringify_entries nums) (yaml_struct names (YMap kvs))"
proof -
  let ?f = "\<lambda>(k, v). (k, if k \<in> set nums then stringify_scalar v else v)"
  have e: "yaml_entries (map (stringify_field nums) kvs) = map_option (map ?f) (yaml_entries kvs)"
    by (induction kvs rule: yaml_entries.induct) (auto simp: option.map_comp comp_def)
  have f: "filter (\<lambda>(k, v). k \<in> set names) (map ?f es) = map ?f (filter (\<lambda>(k, v). k \<in> set names) es)" for es
    by (induction es) auto
  have g: "map fst (map ?f es) = map fst es" for es by (induction es) auto
  show ?thesis by (cases "yaml_entries kvs") (simp_all only: yaml_struct_def e option.map option.case yaml.case Let_def f g,
    simp_all add: stringify_entries_def split: if_splits)
qed

lemma stringified_field:
  "map_of (stringify_entries nums fs) name =
     map_option (\<lambda>v. if name \<in> set nums then stringify_scalar v else v) (map_of fs name)"
  by (induction fs) (auto simp: stringify_entries_def)

lemma untouched_field:
  "name \<notin> set nums \<Longrightarrow> ydef name dec d (stringify_entries nums fs) = ydef name dec d fs"
  "name \<notin> set nums \<Longrightarrow> yreq name dec (stringify_entries nums fs) = yreq name dec fs"
  by (cases "map_of fs name"; simp add: ydef_def yreq_def stringified_field)+

lemma number_field:
  "ydef name de_u64_or_string d (stringify_entries nums fs) = ydef name de_u64_or_string d fs"
  "ydef name de_usize_or_string d (stringify_entries nums fs) = ydef name de_usize_or_string d fs"
  "ydef name de_option_u64_or_string d' (stringify_entries nums fs) = ydef name de_option_u64_or_string d' fs"
  "yreq name de_u64_or_string (stringify_entries nums fs) = yreq name de_u64_or_string fs"
  "yreq name de_usize_or_string (stringify_entries nums fs) = yreq name de_usize_or_string fs"
  by (cases "map_of fs name"; simp add: ydef_def yreq_def stringified_field stringify_numbers)+

definition gateway_numbers :: "string list" where
  "gateway_numbers = [''MaxInflightInvocations'', ''MaxInflightRequests'', ''MaxPendingInvocations'',
     ''MaxQueueDepthPerKey'', ''IdleTtlMs'', ''DefaultTimeoutMs'', ''MaxBodyBytes'', ''MaxInvokePayloadBytes'']"

definition smug_numbers :: "string list" where
  "smug_numbers = [''maxWaitMs'', ''maxBatchSize'', ''timeoutMs'']"


end
