(* ===== verification/Gw_Connections.thy ===== *)
theory Gw_Connections
  imports Gw_Server Gw_Machine
begin

text \<open>
  Many requests in the catch-all handler of \<^verbatim>\<open>gateway/src/server.rs\<close> at once: a connection moves from
  admission over its body and its reply to an answer, and holds one permit of the in-flight
  semaphore on the way. The steps of different connections interleave in any order.
\<close>

subsection \<open>Connections\<close>

text \<open>
  \<open>Answered res True\<close> is an answer whose body is still streaming (the permit lives in the body
  stream); \<open>Gone\<close> is a request whose client went away before it was answered, or whose handler
  panicked (the unwinding drops its permit).
\<close>

datatype conn_phase =
    ReadingBody operation_config "(string, string) hashmap"
  | AwaitingReply operation_config response_sink
  | Answered response bool
  | Gone

record conn =
  cn_parts :: request_parts
  cn_phase :: conn_phase

record server =
  sv_permits :: nat
  sv_ready :: bool
  sv_registry :: registry
  sv_conns :: "conn list"

definition server_init :: "nat \<Rightarrow> server" where
  "server_init max_inflight_requests =
     \<lparr>sv_permits = max_inflight_requests, sv_ready = True, sv_registry = \<lparr>rg_map = [], rg_batchers = []\<rparr>, sv_conns = []\<rparr>"

definition set_phase :: "nat \<Rightarrow> conn_phase \<Rightarrow> server \<Rightarrow> server" where
  "set_phase k ph s = s\<lparr>sv_conns := (sv_conns s)[k := (sv_conns s ! k)\<lparr>cn_phase := ph\<rparr>]\<rparr>"

text \<open>The end of a handler that still has its permit.\<close>

definition release :: "nat \<Rightarrow> conn_phase \<Rightarrow> server \<Rightarrow> server" where
  "release k ph s = set_phase k ph (s\<lparr>sv_permits := sv_permits s + 1\<rparr>)"

datatype server_label =
    Arrive request_parts
  | BodyRead nat "bytes option" string chan chan
  | GotBuffered nat "gateway_response waited"
  | GotStream nat "stream_init waited"
  | StreamEnds nat
  | HangUp nat
  | Tasks registry
  | ShutDown

definition phase_of :: "server \<Rightarrow> nat \<Rightarrow> conn_phase option" where
  "phase_of s k = (if k < length (sv_conns s) then Some (cn_phase (sv_conns s ! k)) else None)"

definition is_streaming :: "response \<Rightarrow> bool" where
  "is_streaming res = (case rs_body res of StreamBody _ \<Rightarrow> True | FullBody _ \<Rightarrow> False)"

fun server_exec :: "ext \<Rightarrow> 'r app_state \<Rightarrow> server \<Rightarrow> server_label \<Rightarrow> server option" where
  "server_exec x app s (Arrive parts) =
     (case admit x app parts (sv_permits s) of
        (Inl res, n) \<Rightarrow> Some (s\<lparr>sv_permits := n, sv_conns := sv_conns s @
          [\<lparr>cn_parts = parts, cn_phase = Answered (finalize_response x (as_batch_size_header app) res) False\<rparr>]\<rparr>)
      | (Inr (op, params), n) \<Rightarrow> Some (s\<lparr>sv_permits := n, sv_conns := sv_conns s @
          [\<lparr>cn_parts = parts, cn_phase = ReadingBody op params\<rparr>]\<rparr>))"
| "server_exec x app s (BodyRead k body uuid c d) =
     (case phase_of s k of
        Some (ReadingBody op params) \<Rightarrow>
          (case submit x app (cn_parts (sv_conns s ! k)) op params body uuid c d (sv_registry s) of
             (None, r) \<Rightarrow> Some (release k Gone (s\<lparr>sv_registry := r\<rparr>))
           | (Some (Inl res), r) \<Rightarrow> Some (release k (Answered (finalize_response x (as_batch_size_header app) res) False)
                                    (s\<lparr>sv_registry := r\<rparr>))
           | (Some (Inr sink), r) \<Rightarrow> Some (set_phase k (AwaitingReply op sink) (s\<lparr>sv_registry := r\<rparr>)))
      | _ \<Rightarrow> None)"
| "server_exec x app s (GotBuffered k w) =
     (case phase_of s k of
        Some (AwaitingReply op (SinkBuffered c)) \<Rightarrow>
          Some (release k (Answered (finalize_response x (as_batch_size_header app) (await_buffered w)) False) s)
      | _ \<Rightarrow> None)"
| "server_exec x app s (GotStream k w) =
     (case phase_of s k of
        Some (AwaitingReply op (SinkStream c d)) \<Rightarrow>
          (let res = finalize_response x (as_batch_size_header app) (await_stream d w)
           in Some (if is_streaming res then set_phase k (Answered res True) s else release k (Answered res False) s))
      | _ \<Rightarrow> None)"
| "server_exec x app s (StreamEnds k) =
     (case phase_of s k of Some (Answered res True) \<Rightarrow> Some (release k (Answered res False) s) | _ \<Rightarrow> None)"
| "server_exec x app s (HangUp k) =
     (case phase_of s k of
        Some (ReadingBody _ _) \<Rightarrow> Some (release k Gone s)
      | Some (AwaitingReply _ _) \<Rightarrow> Some (release k Gone s)
      | _ \<Rightarrow> None)"
| "server_exec x app s (Tasks r) = Some (s\<lparr>sv_registry := r\<rparr>)"
| "server_exec x app s ShutDown = Some (s\<lparr>sv_ready := False\<rparr>)"

lemma submit_out_cases:
  obtains (panic) "out = None" | (answered) res where "out = Some (Inl res)" | (queued) sink where "out = Some (Inr sink)"
  by (cases out; metis sum.exhaust)

fun server_run :: "ext \<Rightarrow> 'r app_state \<Rightarrow> server \<Rightarrow> server_label list \<Rightarrow> server option" where
  "server_run x app s [] = Some s"
| "server_run x app s (l # ls) = Option.bind (server_exec x app s l) (\<lambda>s. server_run x app s ls)"

lemma server_run_append:
  "server_run x app s (ls @ ls') = Option.bind (server_run x app s ls) (\<lambda>s. server_run x app s ls')"
  by (induction ls arbitrary: s) (auto split: bind_splits)

lemma server_run_snoc:
  "server_run x app s (ls @ [l]) = Some s' \<longleftrightarrow> (\<exists>s1. server_run x app s ls = Some s1 \<and> server_exec x app s1 l = Some s')"
  by (simp add: server_run_append split: bind_splits)

interpretation serving: machine "\<lambda>s l s'. server_exec x app s l = Some s'" "\<lambda>s ls s'. server_run x app s ls = Some s'" for x app
  by unfold_locales (auto simp: server_run_snoc)

lemma phase_of_Some: "phase_of s k = Some ph \<longleftrightarrow> k < length (sv_conns s) \<and> cn_phase (sv_conns s ! k) = ph"
  by (auto simp: phase_of_def)

subsection \<open>Permits\<close>

fun holding :: "conn_phase \<Rightarrow> bool" where
  "holding (ReadingBody _ _) = True"
| "holding (AwaitingReply _ _) = True"
| "holding (Answered _ streaming) = streaming"
| "holding Gone = False"

definition holders :: "server \<Rightarrow> nat" where
  "holders s = length (filter (\<lambda>c. holding (cn_phase c)) (sv_conns s))"

lemma length_filter_update:
  "k < length xs \<Longrightarrow> length (filter P (xs[k := y])) + (if P (xs ! k) then 1 else 0) =
     length (filter P xs) + (if P y then 1 else 0)"
proof (induction xs arbitrary: k)
  case (Cons a xs)
  then show ?case using Cons.IH[of "k - 1"] by (cases k) auto
qed simp

lemma holders_set_phase:
  assumes "phase_of s k = Some ph"
  shows "holders (set_phase k ph' s) + (if holding ph then 1 else 0) = holders s + (if holding ph' then 1 else 0)"
  using length_filter_update[of k "sv_conns s" "\<lambda>c. holding (cn_phase c)" "(sv_conns s ! k)\<lparr>cn_phase := ph'\<rparr>"] assms
  by (simp add: holders_def set_phase_def phase_of_Some)

lemma holders_simps [simp]:
  "holders (s\<lparr>sv_permits := n\<rparr>) = holders s" "holders (s\<lparr>sv_registry := r\<rparr>) = holders s"
  "holders (s\<lparr>sv_ready := b\<rparr>) = holders s" "sv_permits (set_phase k ph s) = sv_permits s"
  "phase_of (s\<lparr>sv_permits := n\<rparr>) k = phase_of s k" "phase_of (s\<lparr>sv_registry := r\<rparr>) k = phase_of s k"
  by (simp_all add: holders_def set_phase_def phase_of_def)

lemma release_permits:
  assumes "phase_of s k = Some ph" and "holding ph" and "\<not> holding ph'"
  shows "sv_permits (release k ph' s) + holders (release k ph' s) = sv_permits s + holders s"
  using holders_set_phase[of "s\<lparr>sv_permits := sv_permits s + 1\<rparr>" k ph ph'] assms by (simp add: release_def)

lemma server_exec_permits:
  assumes "server_exec x app s l = Some s'"
  shows "sv_permits s' + holders s' = sv_permits s + holders s"
proof (cases l)
  case (Arrive parts)
  with assms show ?thesis
    by (auto simp: admit_def holders_def split: route_match.splits if_splits prod.splits sum.splits)
next
  case (BodyRead k body uuid c d)
  with assms obtain op params where ph: "phase_of s k = Some (ReadingBody op params)"
    by (auto split: option.splits conn_phase.splits)
  obtain out r where sub: "submit x app (cn_parts (sv_conns s ! k)) op params body uuid c d (sv_registry s) = (out, r)"
    by (metis prod.exhaust)
  show ?thesis
  proof (cases out rule: submit_out_cases)
    case panic
    with assms BodyRead ph sub release_permits[of "s\<lparr>sv_registry := r\<rparr>" k] show ?thesis by auto
  next
    case (answered res)
    with assms BodyRead ph sub release_permits[of "s\<lparr>sv_registry := r\<rparr>" k] show ?thesis by auto
  next
    case (queued sink)
    with assms BodyRead ph sub holders_set_phase[of "s\<lparr>sv_registry := r\<rparr>" k "ReadingBody op params" "AwaitingReply op sink"]
    show ?thesis by auto
  qed
next
  case (GotStream k w)
  with assms obtain op c d where ph: "phase_of s k = Some (AwaitingReply op (SinkStream c d))"
    by (auto split: option.splits conn_phase.splits response_sink.splits)
  have "holders (set_phase k (Answered res True) s) = holders s" for res
    using holders_set_phase[OF ph, of "Answered res True"] by simp
  with assms GotStream ph release_permits[OF ph] show ?thesis by (auto simp: Let_def split: if_splits)
qed (use assms in \<open>auto simp: release_permits split: option.splits conn_phase.splits response_sink.splits bool.splits\<close>)

lemma server_run_permits:
  "server_run x app s ls = Some s' \<Longrightarrow> sv_permits s' + holders s' = sv_permits s + holders s"
  by (erule serving.state_invariant[where I = "\<lambda>t. sv_permits t + holders t = sv_permits s + holders s"])
    (auto dest: server_exec_permits)

lemma server_init_simps [simp]: "sv_permits (server_init n) = n" "holders (server_init n) = 0" "sv_conns (server_init n) = []"
  by (simp_all add: server_init_def holders_def)

text \<open>
  Property C11: admission control is exact in every interleaving. The permits left and the requests
  being served (reading a body, waiting for a reply, or streaming an answer) always add up to the
  configured limit, however requests end: answered, rejected, timed out, or hung up. So at most the
  limit is served at once, and a matched request is rejected as too many exactly when that many are.
\<close>

theorem admission_exact:
  assumes "server_run x app (server_init mx) ls = Some s"
    and "match_request (as_router_ops app) (as_spec app) (rp_method parts) (rp_path parts) = Matched op params"
  shows "sv_permits s + holders s = mx \<and>
    (fst (admit x app parts (sv_permits s)) = Inl (text_answer 429 ''too many requests'') \<longleftrightarrow> holders s = mx)"
proof -
  from server_run_permits[OF assms(1)] have "sv_permits s + holders s = mx" by simp
  then show ?thesis using assms(2) by (auto simp: admit_def)
qed

subsection \<open>Where an answer comes from\<close>

definition read_by :: "'r app_state \<Rightarrow> server_label list \<Rightarrow> nat \<Rightarrow> operation_config \<Rightarrow> response_sink \<Rightarrow> bool" where
  "read_by app ls k op sink \<longleftrightarrow> (\<exists>body uuid c d. BodyRead k (Some body) uuid c d \<in> set ls \<and>
     length body \<le> as_max_body_bytes app \<and> sink = sink_of op c d)"

text \<open>
  The answers of connection \<open>k\<close> that a run may give once it is matched to an operation: a rejection,
  or what was received on the channel that was made for it.
\<close>

inductive op_answer :: "'r app_state \<Rightarrow> server_label list \<Rightarrow> nat \<Rightarrow> operation_config \<Rightarrow> response \<Rightarrow> bool"
  for app ls k op where
  busy: "op_answer app ls k op (text_answer 429 ''too many requests'')"
| too_large: "op_answer app ls k op (text_answer 413 ''body too large'')"
| queue_full: "op_answer app ls k op (text_answer 429 ''queue full'')"
| batcher_closed: "op_answer app ls k op (text_answer 429 ''batcher closed'')"
| buffered: "read_by app ls k op (SinkBuffered c) \<Longrightarrow> GotBuffered k w \<in> set ls \<Longrightarrow> op_answer app ls k op (await_buffered w)"
| streamed: "read_by app ls k op (SinkStream c d) \<Longrightarrow> GotStream k w \<in> set ls \<Longrightarrow> op_answer app ls k op (await_stream d w)"

definition answer_source :: "ext \<Rightarrow> 'r app_state \<Rightarrow> server_label list \<Rightarrow> nat \<Rightarrow> request_parts \<Rightarrow> response \<Rightarrow> bool" where
  "answer_source x app ls k parts r \<longleftrightarrow>
     (case match_request (as_router_ops app) (as_spec app) (rp_method parts) (rp_path parts) of
        NotFound \<Rightarrow> r = text_answer 404 ''not found''
      | MethodNotAllowed allowed \<Rightarrow> r = method_not_allowed x allowed
      | Matched op params \<Rightarrow> op_answer app ls k op r)"

definition matched_to :: "'r app_state \<Rightarrow> request_parts \<Rightarrow> operation_config \<Rightarrow> bool" where
  "matched_to app parts op \<longleftrightarrow>
     (\<exists>params. match_request (as_router_ops app) (as_spec app) (rp_method parts) (rp_path parts) = Matched op params)"

definition conn_ok :: "ext \<Rightarrow> 'r app_state \<Rightarrow> server_label list \<Rightarrow> nat \<Rightarrow> conn \<Rightarrow> bool" where
  "conn_ok x app ls k c \<longleftrightarrow>
     (case cn_phase c of
        ReadingBody op _ \<Rightarrow> matched_to app (cn_parts c) op
      | AwaitingReply op sink \<Rightarrow> matched_to app (cn_parts c) op \<and> read_by app ls k op sink
      | Answered res _ \<Rightarrow> \<exists>r. answer_source x app ls k (cn_parts c) r \<and>
          res = finalize_response x (as_batch_size_header app) r
      | Gone \<Rightarrow> True)"

lemma read_by_mono: "read_by app ls k op sink \<Longrightarrow> set ls \<subseteq> set ls' \<Longrightarrow> read_by app ls' k op sink"
  unfolding read_by_def by blast

lemma op_answer_mono:
  assumes "op_answer app ls k op r" and "set ls \<subseteq> set ls'"
  shows "op_answer app ls' k op r"
  using assms(1)
proof cases
  case (buffered c w)
  with assms(2) read_by_mono[of app ls k op _ ls'] show ?thesis by (auto intro: op_answer.buffered)
next
  case (streamed c d w)
  with assms(2) read_by_mono[of app ls k op _ ls'] show ?thesis by (auto intro: op_answer.streamed)
qed (auto intro: op_answer.intros)

lemma answer_source_mono:
  "answer_source x app ls k parts r \<Longrightarrow> set ls \<subseteq> set ls' \<Longrightarrow> answer_source x app ls' k parts r"
  by (auto simp: answer_source_def split: route_match.splits intro: op_answer_mono)

lemma conn_ok_mono: "conn_ok x app ls k c \<Longrightarrow> set ls \<subseteq> set ls' \<Longrightarrow> conn_ok x app ls' k c"
  by (auto simp: conn_ok_def split: conn_phase.splits intro: read_by_mono answer_source_mono)

definition conns_ok :: "ext \<Rightarrow> 'r app_state \<Rightarrow> server_label list \<Rightarrow> server \<Rightarrow> bool" where
  "conns_ok x app ls s \<longleftrightarrow> (\<forall>k < length (sv_conns s). conn_ok x app ls k (sv_conns s ! k))"

lemma conns_ok_set_phase:
  assumes "conns_ok x app ls s" and "conn_ok x app ls k ((sv_conns s ! k)\<lparr>cn_phase := ph\<rparr>)"
  shows "conns_ok x app ls (set_phase k ph s)" "conns_ok x app ls (release k ph s)"
  using assms by (cases "k < length (sv_conns s)";
    auto simp: conns_ok_def set_phase_def release_def nth_list_update list_update_beyond)+

lemma conns_ok_registry [simp]:
  "conns_ok x app ls (s\<lparr>sv_registry := r\<rparr>) = conns_ok x app ls s" "conns_ok x app ls (s\<lparr>sv_ready := b\<rparr>) = conns_ok x app ls s"
  by (simp_all add: conns_ok_def)

lemma conns_ok_add:
  "conns_ok x app ls s \<Longrightarrow> conn_ok x app ls (length (sv_conns s)) c \<Longrightarrow>
   conns_ok x app ls (s\<lparr>sv_permits := n, sv_conns := sv_conns s @ [c]\<rparr>)"
  by (auto simp: conns_ok_def nth_append less_Suc_eq)

abbreviation answered :: "ext \<Rightarrow> 'r app_state \<Rightarrow> response \<Rightarrow> bool \<Rightarrow> conn_phase" where
  "answered x app res \<equiv> Answered (finalize_response x (as_batch_size_header app) res)"

lemma conn_ok_admitted:
  "admit x app parts n = (Inl res, m) \<Longrightarrow> conn_ok x app ls k \<lparr>cn_parts = parts, cn_phase = answered x app res False\<rparr>"
  "admit x app parts n = (Inr (op, params), m) \<Longrightarrow> conn_ok x app ls k \<lparr>cn_parts = parts, cn_phase = ReadingBody op params\<rparr>"
  by (auto simp: conn_ok_def matched_to_def answer_source_def admit_def split: route_match.splits if_splits intro: op_answer.busy)

lemma conn_ok_gone: "conn_ok x app ls k (c\<lparr>cn_phase := Gone\<rparr>)"
  by (simp add: conn_ok_def)

lemma conn_ok_op_answer: "matched_to app (cn_parts c) op \<Longrightarrow> op_answer app ls k op r \<Longrightarrow> conn_ok x app ls k (c\<lparr>cn_phase := answered x app r b\<rparr>)"
  by (auto simp: conn_ok_def matched_to_def answer_source_def)

lemma conn_ok_submitted:
  assumes "submit x app parts op params body uuid c d reg = (out, reg')" and "matched_to app (cn_parts cn) op"
    and "BodyRead k body uuid c d \<in> set ls"
  shows "out = Some (Inl res) \<Longrightarrow> conn_ok x app ls k (cn\<lparr>cn_phase := answered x app res False\<rparr>)"
    and "out = Some (Inr sink) \<Longrightarrow> conn_ok x app ls k (cn\<lparr>cn_phase := AwaitingReply op sink\<rparr>)"
proof -
  assume "out = Some (Inl res)"
  with assms(1) have "res \<in> {text_answer 413 ''body too large'', text_answer 429 ''queue full'', text_answer 429 ''batcher closed''}"
    by (auto simp: submit_def enqueue_answer_def Let_def split: option.splits sum.splits prod.splits enqueue_error.splits)
  then have "op_answer app ls k op res" by (auto intro: op_answer.intros)
  with assms(2) show "conn_ok x app ls k (cn\<lparr>cn_phase := answered x app res False\<rparr>)" by (rule conn_ok_op_answer)
next
  assume "out = Some (Inr sink)"
  with assms(1) obtain b where "body = Some b" "length b \<le> as_max_body_bytes app" "sink = sink_of op c d"
    by (auto simp: submit_def read_body_def Let_def split: option.splits if_splits sum.splits prod.splits)
  with assms(2,3) show "conn_ok x app ls k (cn\<lparr>cn_phase := AwaitingReply op sink\<rparr>)"
    by (auto simp: conn_ok_def read_by_def)
qed

lemma server_exec_read:
  assumes exec: "server_exec x app s (BodyRead k body uuid c d) = Some s'" and ok: "conns_ok x app ls s"
    and l: "BodyRead k body uuid c d \<in> set ls"
  shows "conns_ok x app ls s'"
proof -
  from exec obtain op params where ph: "phase_of s k = Some (ReadingBody op params)"
    by (auto split: option.splits conn_phase.splits)
  with ok have m: "matched_to app (cn_parts (sv_conns s ! k)) op" by (auto simp: conns_ok_def phase_of_Some conn_ok_def)
  obtain out r where sub: "submit x app (cn_parts (sv_conns s ! k)) op params body uuid c d (sv_registry s) = (out, r)"
    by (metis prod.exhaust)
  note set_phase = conns_ok_set_phase[of x app ls "s\<lparr>sv_registry := r\<rparr>" k]
  show ?thesis
  proof (cases out rule: submit_out_cases)
    case panic
    with exec ph sub ok show ?thesis by (auto intro: set_phase conn_ok_gone)
  next
    case (answered res)
    with exec ph sub ok set_phase(2) conn_ok_submitted(1)[OF sub m l] show ?thesis by auto
  next
    case (queued sink)
    with exec ph sub ok set_phase(1) conn_ok_submitted(2)[OF sub m l] show ?thesis by auto
  qed
qed

lemma server_exec_conns:
  assumes exec: "server_exec x app s l = Some s'" and before: "conns_ok x app ls s"
  shows "conns_ok x app (ls @ [l]) s'"
proof -
  have ok: "conns_ok x app (ls @ [l]) s"
    using before by (auto simp: conns_ok_def intro: conn_ok_mono)
  have here: "conn_ok x app (ls @ [l]) k (sv_conns s ! k)" if "phase_of s k = Some ph" for k ph
    using ok that by (auto simp: conns_ok_def phase_of_Some)
  show ?thesis
  proof (cases l)
    case (Arrive parts)
    with exec ok show ?thesis by (auto intro!: conns_ok_add conn_ok_admitted split: prod.splits sum.splits)
  next
    case (BodyRead k body uuid c d)
    with server_exec_read[OF _ ok] exec show ?thesis by simp
  next
    case (GotBuffered k w)
    with exec obtain op c where ph: "phase_of s k = Some (AwaitingReply op (SinkBuffered c))"
      by (auto split: option.splits conn_phase.splits response_sink.splits)
    with here[OF ph] GotBuffered have "conn_ok x app (ls @ [l]) k ((sv_conns s ! k)\<lparr>cn_phase := answered x app (await_buffered w) False\<rparr>)"
      by (intro conn_ok_op_answer[where op = op]) (auto simp: conn_ok_def phase_of_Some intro: op_answer.buffered)
    with exec GotBuffered ph ok show ?thesis by (auto intro: conns_ok_set_phase)
  next
    case (GotStream k w)
    with exec obtain op c d where ph: "phase_of s k = Some (AwaitingReply op (SinkStream c d))"
      by (auto split: option.splits conn_phase.splits response_sink.splits)
    with here[OF ph] GotStream have "conn_ok x app (ls @ [l]) k ((sv_conns s ! k)\<lparr>cn_phase := answered x app (await_stream d w) b\<rparr>)" for b
      by (intro conn_ok_op_answer[where op = op]) (auto simp: conn_ok_def phase_of_Some intro: op_answer.streamed)
    with exec GotStream ph ok show ?thesis by (auto simp: Let_def intro: conns_ok_set_phase split: if_splits)
  next
    case (StreamEnds k)
    with exec obtain res where ph: "phase_of s k = Some (Answered res True)"
      by (auto split: option.splits conn_phase.splits bool.splits)
    from here[OF ph] ph have "conn_ok x app (ls @ [l]) k ((sv_conns s ! k)\<lparr>cn_phase := Answered res False\<rparr>)"
      by (auto simp: conn_ok_def phase_of_Some)
    with exec StreamEnds ph ok show ?thesis by (auto intro: conns_ok_set_phase)
  next
    case (HangUp k)
    with exec ok show ?thesis by (auto intro: conns_ok_set_phase conn_ok_gone split: option.splits conn_phase.splits)
  qed (use exec ok in auto)
qed

lemma server_run_conns: "server_run x app (server_init mx) ls = Some s \<Longrightarrow> conns_ok x app ls s"
  by (erule serving.history_invariant, simp add: conns_ok_def) (blast intro: server_exec_conns)

text \<open>An answer is final: later steps change nothing but whether its body still streams.\<close>

lemma phase_set_other: "j \<noteq> k \<Longrightarrow> phase_of (set_phase j ph s) k = phase_of s k"
  "j \<noteq> k \<Longrightarrow> phase_of (release j ph s) k = phase_of s k"
  by (auto simp: phase_of_def set_phase_def release_def)

lemma phase_set_same: "k < length (sv_conns s) \<Longrightarrow> phase_of (set_phase k ph s) k = Some ph"
  "k < length (sv_conns s) \<Longrightarrow> phase_of (release k ph s) k = Some ph"
  by (auto simp: phase_of_def set_phase_def release_def)

lemma server_exec_final:
  assumes "server_exec x app s l = Some s'" and ph: "phase_of s k = Some (Answered res b)"
  shows "\<exists>b'. phase_of s' k = Some (Answered res b')"
proof -
  have k: "k < length (sv_conns s)" using ph by (simp add: phase_of_Some)
  show ?thesis
  proof (cases l)
    case (Arrive parts)
    with assms k show ?thesis
      by (auto simp: phase_of_def nth_append split: prod.splits sum.splits)
  next
    case (BodyRead j body uuid c d)
    with assms have "j \<noteq> k" by auto
    then show ?thesis using assms BodyRead
      by (auto simp: phase_set_other split: option.splits conn_phase.splits prod.splits sum.splits)
  next
    case (StreamEnds j)
    with assms k show ?thesis
      by (cases "j = k") (auto simp: phase_set_same phase_set_other split: option.splits conn_phase.splits bool.splits)
  next
    case (GotBuffered j w)
    with assms have "j \<noteq> k" by auto
    then show ?thesis using assms GotBuffered
      by (auto simp: phase_set_other split: option.splits conn_phase.splits response_sink.splits)
  next
    case (GotStream j w)
    with assms have "j \<noteq> k" by auto
    then show ?thesis using assms GotStream
      by (auto simp: Let_def phase_set_other split: option.splits conn_phase.splits response_sink.splits if_splits)
  next
    case (HangUp j)
    with assms have "j \<noteq> k" by auto
    then show ?thesis using assms HangUp
      by (auto simp: phase_set_other split: option.splits conn_phase.splits)
  qed (use assms k in \<open>auto simp: phase_of_def\<close>)
qed

lemma server_run_final:
  "server_run x app s ls = Some s' \<Longrightarrow> phase_of s k = Some (Answered res b) \<Longrightarrow> \<exists>b'. phase_of s' k = Some (Answered res b')"
  by (erule serving.state_invariant[where I = "\<lambda>t. \<exists>b'. phase_of t k = Some (Answered res b')"])
    (auto dest: server_exec_final)

lemma finalize_meta [simp]: "rs_meta (finalize_response x h res) = None"
  by (auto simp: finalize_response_def Let_def split: option.splits)


subsection \<open>An example\<close>

text \<open>
  One route, one permit: the first request is queued and answered with a batch of three, the second
  is rejected meanwhile, the third finds no route.
\<close>

definition demo_app :: "unit app_state" where
  "demo_app = \<lparr>as_router_ops = \<lparr>ro_new = (), ro_insert = (\<lambda>_ _ _. Inr ()),
       ro_at = (\<lambda>_ path. if path = ''/'' then Some ([(GET, sample_op)], []) else None)\<rparr>,
     as_spec = (), as_depth = 1, as_max_body_bytes = 4,
     as_forward_headers = \<lparr>hp_allow = None, hp_deny = {}\<rparr>, as_batch_size_header = Some ''x-smug-batch-size'',
     as_parse_form = (\<lambda>_. [])\<rparr>"

definition demo_parts :: "string \<Rightarrow> request_parts" where
  "demo_parts path = \<lparr>rp_method = GET, rp_path = path, rp_query = None, rp_headers = [], rp_trace = None\<rparr>"

definition demo_labels :: "server_label list" where
  "demo_labels = [Arrive (demo_parts ''/''), BodyRead 0 (Some ''b'') ''u'' 5 6, Arrive (demo_parts ''/''),
     GotBuffered 0 (Arrived (with_meta 3 7 (text_response 200 ''ok''))), Arrive (demo_parts ''/x'')]"

lemma demo_server_run:
  obtains s where "server_run plain_ext demo_app (server_init 1) demo_labels = Some s" "sv_permits s = 1"
    "phase_of s 0 = Some (Answered \<lparr>rs_status = 200, rs_headers = [(''x-smug-batch-size'', show_nat 3)],
        rs_body = FullBody ''ok'', rs_meta = None\<rparr> False)"
    "cn_parts (sv_conns s ! 0) = demo_parts ''/''"
proof -
  have "\<exists>s. server_run plain_ext demo_app (server_init 1) demo_labels = Some s \<and> sv_permits s = 1 \<and>
    phase_of s 0 = Some (Answered \<lparr>rs_status = 200, rs_headers = [(''x-smug-batch-size'', show_nat 3)],
        rs_body = FullBody ''ok'', rs_meta = None\<rparr> False) \<and> cn_parts (sv_conns s ! 0) = demo_parts ''/''"
    by (simp add: demo_labels_def demo_app_def demo_parts_def server_init_def admit_def match_request_def path_params_of_def
        phase_of_def submit_def read_body_def sink_of_def sample_op_def enqueue_def enqueue_loop.simps numeral_2_eq_2
        enq_lookup_def enq_try_send_def receiver_alive_def await_buffered_def into_response_def with_meta_def
        text_response_def finalize_response_def header_insert_def plain_ext_def release_def set_phase_def
        text_answer_def Let_def)
  then show thesis using that by blast
qed

theorem admission_exact_witness:
  "\<exists>s. server_run plain_ext demo_app (server_init 1) demo_labels = Some s \<and> sv_permits s + holders s = 1 \<and> holders s = 0"
proof -
  obtain s where s: "server_run plain_ext demo_app (server_init 1) demo_labels = Some s" "sv_permits s = 1"
    by (rule demo_server_run)
  have "match_request (as_router_ops demo_app) (as_spec demo_app) (rp_method (demo_parts ''/'')) (rp_path (demo_parts ''/'')) =
      Matched sample_op []" by (simp add: match_request_def demo_app_def demo_parts_def path_params_of_def)
  from admission_exact[OF s(1) this] s show ?thesis by auto
qed


end
