(* ===== verification/Gw_Startup.thy ===== *)
theory Gw_Startup
  imports Gw_Config Gw_Connections
begin

text \<open>
  How the gateway starts: where its configuration document is found (\<^verbatim>\<open>gateway/src/location.rs\<close>), and
  the environment variables and the start-up sequence of \<^verbatim>\<open>gateway/src/main.rs\<close>. The environment is a
  partial map; the URL parser, the file system, S3 and the YAML reader are parameters.
\<close>

subsection \<open>Document locations\<close>

datatype document_location = FileLoc string | S3Loc string string

text \<open>What the code reads of a parsed \<^verbatim>\<open>url::Url\<close>.\<close>

record url =
  url_scheme :: string
  url_host_str :: "string option"
  url_path :: string
  url_to_file_path :: "string option"

definition document_location_parse :: "(string \<Rightarrow> url option) \<Rightarrow> string \<Rightarrow> ext_error + document_location" where
  "document_location_parse url_parse s =
     (case url_parse s of
        None \<Rightarrow> Inr (FileLoc s)
      | Some url \<Rightarrow>
          if url_scheme url = ''s3'' then
            (case url_host_str url of
               None \<Rightarrow> Inl (Bail ''s3 uri must include a bucket name'')
             | Some bucket \<Rightarrow>
                 (let key = dropWhile (\<lambda>c. c = CHR ''/'') (url_path url)
                  in if key = [] then Inl (Bail ''s3 uri must include a key (path)'') else Inr (S3Loc bucket key)))
          else if url_scheme url = ''file'' then
            (case url_to_file_path url of
               None \<Rightarrow> Inl (Bail ''invalid file:// uri'')
             | Some path \<Rightarrow> Inr (FileLoc path))
          else Inr (FileLoc s))"

definition read_bytes :: "(string \<Rightarrow> ext_error + bytes) \<Rightarrow> (string \<Rightarrow> string \<Rightarrow> ext_error + bytes) option \<Rightarrow>
    document_location \<Rightarrow> ext_error + bytes" where
  "read_bytes files s3 loc =
     (case loc of
        FileLoc path \<Rightarrow> files path
      | S3Loc bucket key \<Rightarrow>
          (case s3 of None \<Rightarrow> Inl (Bail ''S3 client not configured'') | Some get_object \<Rightarrow> get_object bucket key))"

subsection \<open>Environment variables\<close>

type_synonym process_env = "string \<Rightarrow> string option"

definition resolve_config_location :: "string option \<Rightarrow> process_env \<Rightarrow> ext_error + string" where
  "resolve_config_location config env =
     (let from_env = (case env ''SMUG_CONFIG_URI'' of
            Some v \<Rightarrow> if trim v \<noteq> [] then Inr v
              else Inl (Bail ''missing config location: provide --config or set SMUG_CONFIG_URI'')
          | None \<Rightarrow> Inl (Bail ''missing config location: provide --config or set SMUG_CONFIG_URI''))
      in case config of
           Some cfg \<Rightarrow> if trim cfg \<noteq> [] then Inr cfg else from_env
         | None \<Rightarrow> from_env)"

definition env_missing_or_empty :: "process_env \<Rightarrow> string \<Rightarrow> bool" where
  "env_missing_or_empty env name = (case env name of Some v \<Rightarrow> trim v = [] | None \<Rightarrow> True)"

fun find_map :: "('a \<Rightarrow> 'b option) \<Rightarrow> 'a list \<Rightarrow> 'b option" where
  "find_map f [] = None"
| "find_map f (x # xs) = (case f x of Some y \<Rightarrow> Some y | None \<Rightarrow> find_map f xs)"

definition non_empty :: "string option \<Rightarrow> string option" where
  "non_empty o' = (case o' of Some v \<Rightarrow> if v \<noteq> [] then Some v else None | None \<Rightarrow> None)"

definition otlp_traces_endpoint_env :: "process_env \<Rightarrow> string option" where
  "otlp_traces_endpoint_env env =
     non_empty (map_option trim (find_map env [''OTEL_EXPORTER_OTLP_TRACES_ENDPOINT'', ''OTEL_EXPORTER_OTLP_ENDPOINT'']))"

definition otlp_traces_protocol_env :: "process_env \<Rightarrow> string option" where
  "otlp_traces_protocol_env env =
     non_empty (map_option (\<lambda>v. to_ascii_lowercase (trim v))
       (find_map env [''OTEL_EXPORTER_OTLP_TRACES_PROTOCOL'', ''OTEL_EXPORTER_OTLP_PROTOCOL'']))"

fun str_contains :: "string \<Rightarrow> string \<Rightarrow> bool" where
  "str_contains p [] = (p = [])"
| "str_contains p (c # s) = (starts_with p (c # s) \<or> str_contains p s)"

definition default_otlp_traces_protocol :: "process_env \<Rightarrow> string" where
  "default_otlp_traces_protocol env =
     (case non_empty (map_option trim (env ''OTEL_EXPORTER_OTLP_ENDPOINT'')) of
        Some endpoint \<Rightarrow> if str_contains ''localhost:4317'' endpoint then ''grpc'' else ''http/protobuf''
      | None \<Rightarrow> ''http/protobuf'')"

subsection \<open>Exporter headers from a JSON secret\<close>

definition is_unreserved :: "char \<Rightarrow> bool" where
  "is_unreserved b \<longleftrightarrow> byte_in 65 90 b \<or> byte_in 97 122 b \<or> byte_in 48 57 b
     \<or> b = CHR ''-'' \<or> b = CHR ''.'' \<or> b = CHR ''_'' \<or> b = CHR ''~''"

definition hex_digit :: "nat \<Rightarrow> char" where
  "hex_digit n = (if n < 10 then char_of (48 + n) else char_of (55 + n))"

definition url_encode_header_value :: "string \<Rightarrow> string" where
  "url_encode_header_value value =
     concat (map (\<lambda>b. if is_unreserved b then [b]
       else [CHR ''%'', hex_digit (of_char b div 16), hex_digit (of_char b mod 16)]) value)"

fun header_parts :: "(string \<times> json) list \<Rightarrow> ext_error + string list" where
  "header_parts [] = Inr []"
| "header_parts ((k, v) # obj) =
     (let key = trim k
      in if key = [] then Inl (Bail ''SMUG_OTEL_HEADERS_JSON contains an empty header name'')
         else case value_str v of
           None \<Rightarrow> Inl (Bail ''SMUG_OTEL_HEADERS_JSON header values must be strings'')
         | Some s \<Rightarrow>
             (let value = trim s
              in if value = [] then Inl (Bail (''SMUG_OTEL_HEADERS_JSON contains an empty value for header '' @ key))
                 else res_bind (header_parts obj)
                   (\<lambda>parts. Inr ((key @ ''='' @ url_encode_header_value value) # parts))))"

definition try_set_otlp_headers_from_json_secret :: "ext \<Rightarrow> process_env \<Rightarrow> ext_error + process_env" where
  "try_set_otlp_headers_from_json_secret x env =
     (if \<not> env_missing_or_empty env ''OTEL_EXPORTER_OTLP_HEADERS''
         \<or> \<not> env_missing_or_empty env ''OTEL_EXPORTER_OTLP_TRACES_HEADERS'' then Inr env
      else case env ''SMUG_OTEL_HEADERS_JSON'' of
        None \<Rightarrow> Inr env
      | Some raw \<Rightarrow>
          if trim raw = [] then Inr env
          else res_bind (from_slice x (\<lambda>j. Some (to_value j)) raw)
            (\<lambda>parsed. case parsed of
               JObj obj \<Rightarrow> res_bind (header_parts obj)
                 (\<lambda>parts. if parts = [] then Inl (Bail ''SMUG_OTEL_HEADERS_JSON must contain at least one header'')
                    else Inr (env(''OTEL_EXPORTER_OTLP_HEADERS'' \<mapsto> str_join '','' parts)))
             | _ \<Rightarrow> Inl (Bail ''SMUG_OTEL_HEADERS_JSON must be a JSON object'')))"

subsection \<open>Telemetry and start-up\<close>

text \<open>
  What \<^verbatim>\<open>init_logging_and_tracing\<close> decides: whether tracing is on, with which service name, protocol and
  id generator. \<open>try_init\<close> and \<open>build_exporter\<close> are the library calls that may fail. The messages that
  \<^verbatim>\<open>context\<close> puts in front of an error are left out.
\<close>

record telemetry =
  te_service_name :: string
  te_protocol :: string
  te_xray_ids :: bool

definition init_logging_and_tracing :: "ext \<Rightarrow> ext_error + unit \<Rightarrow> (string \<Rightarrow> ext_error + unit) \<Rightarrow> process_env \<Rightarrow>
    ext_error + telemetry option \<times> process_env" where
  "init_logging_and_tracing x try_init build_exporter env =
     (if otlp_traces_endpoint_env env = None then res_bind try_init (\<lambda>_. Inr (None, env))
      else
        (let env1 = if env_missing_or_empty env ''OTEL_PROPAGATORS''
               then env(''OTEL_PROPAGATORS'' \<mapsto> ''xray,tracecontext,baggage'') else env;
             env2 = if env_missing_or_empty env1 ''OTEL_METRICS_EXPORTER''
               then env1(''OTEL_METRICS_EXPORTER'' \<mapsto> ''none'') else env1
         in res_bind (try_set_otlp_headers_from_json_secret x env2) (\<lambda>env3.
              let service_name = (case non_empty (map_option trim (env3 ''OTEL_SERVICE_NAME'')) of
                     Some v \<Rightarrow> v | None \<Rightarrow> ''smug-gateway'');
                  protocol = (case otlp_traces_protocol_env env3 of
                     Some p \<Rightarrow> p | None \<Rightarrow> default_otlp_traces_protocol env3)
              in if protocol = ''grpc'' \<or> protocol = ''http/protobuf'' then
                   res_bind (build_exporter protocol) (\<lambda>_. res_bind try_init (\<lambda>_.
                     Inr (Some \<lparr>te_service_name = service_name, te_protocol = protocol,
                            te_xray_ids = (map_option trim (env3 ''SMUG_OBSERVABILITY_VENDOR'') = Some ''AWSXRAY'')\<rparr>, env3)))
                 else Inl (Bail (''unsupported OTLP traces protocol: '' @ protocol)))))"

text \<open>The application state that \<^verbatim>\<open>server::run\<close> builds.\<close>

definition run_state :: "ext \<Rightarrow> 'r router_ops \<Rightarrow> (string \<Rightarrow> (string \<times> string) list) \<Rightarrow> process_env \<Rightarrow> 'addr gateway_config \<Rightarrow>
    'r \<Rightarrow> ext_error + 'r app_state" where
  "run_state x ro parse_form env cfg spec =
     res_bind (policy_try_from_cfg x (gc_forward_headers cfg)) (\<lambda>forward_headers.
       Inr \<lparr>as_router_ops = ro, as_spec = spec, as_depth = gc_max_queue_depth_per_key cfg,
            as_max_body_bytes = gc_max_body_bytes cfg, as_forward_headers = forward_headers,
            as_batch_size_header = batch_size_header_from_env env, as_parse_form = parse_form\<rparr>)"

text \<open>The libraries and services that \<^verbatim>\<open>main\<close> calls.\<close>

record 'addr platform =
  pf_try_init :: "ext_error + unit"
  pf_build_exporter :: "string \<Rightarrow> ext_error + unit"
  pf_url_parse :: "string \<Rightarrow> url option"
  pf_files :: "string \<Rightarrow> ext_error + bytes"
  pf_get_object :: "string \<Rightarrow> string \<Rightarrow> ext_error + bytes"
  pf_parse_yaml :: "bytes \<Rightarrow> yaml option"
  pf_parse_addr :: "string \<Rightarrow> 'addr option"
  pf_parse_form :: "string \<Rightarrow> (string \<times> string) list"

definition load_config :: "'addr platform \<Rightarrow> string option \<Rightarrow> process_env \<Rightarrow> ext_error + 'addr gateway_config" where
  "load_config pf config env =
     res_bind (resolve_config_location config env) (\<lambda>config_location.
     res_bind (document_location_parse (pf_url_parse pf) config_location) (\<lambda>cfg_loc.
       let s3 = (case cfg_loc of S3Loc _ _ \<Rightarrow> Some (pf_get_object pf) | FileLoc _ \<Rightarrow> None)
       in res_bind (read_bytes (pf_files pf) s3 cfg_loc) (\<lambda>cfg_bytes.
            ok_or (BadYaml cfg_bytes) (from_yaml_bytes (pf_parse_yaml pf) (pf_parse_addr pf) cfg_bytes))))"

definition start :: "ext \<Rightarrow> 'r router_ops \<Rightarrow> 'addr platform \<Rightarrow> string option \<Rightarrow> process_env \<Rightarrow>
    ext_error + 'r app_state \<times> 'addr gateway_config \<times> telemetry option" where
  "start x ro pf config env =
     res_bind (init_logging_and_tracing x (pf_try_init pf) (pf_build_exporter pf) env) (\<lambda>(tel, env1).
     res_bind (load_config pf config env1) (\<lambda>cfg.
     res_bind (ok_or (Bail ''gateway config is missing `Spec`'') (gc_spec cfg)) (\<lambda>spec_doc.
     res_bind (compile x ro spec_doc (gc_default_timeout_ms cfg)) (\<lambda>spec.
     res_bind (run_state x ro (pf_parse_form pf) env1 (cfg\<lparr>gc_spec := None\<rparr>) spec) (\<lambda>app.
       Inr (app, cfg\<lparr>gc_spec := None\<rparr>, tel))))))"

subsection \<open>Reading the exporter headers back\<close>

text \<open>
  How a value of \<^verbatim>\<open>OTEL_EXPORTER_OTLP_HEADERS\<close> is read by the OpenTelemetry convention: a comma
  separated list of \<^verbatim>\<open>name=value\<close>, the value percent-encoded.
\<close>

definition hex_val :: "char \<Rightarrow> nat option" where
  "hex_val c = (let n = of_char c :: nat in
     if 48 \<le> n \<and> n \<le> 57 then Some (n - 48) else if 65 \<le> n \<and> n \<le> 70 then Some (n - 55) else None)"

fun pct_decode :: "string \<Rightarrow> string option" where
  "pct_decode [] = Some []"
| "pct_decode (c # s) =
     (if c \<noteq> CHR ''%'' then map_option ((#) c) (pct_decode s)
      else case s of
        h # l # s' \<Rightarrow> (case (hex_val h, hex_val l) of
            (Some a, Some b) \<Rightarrow> map_option ((#) (char_of (16 * a + b))) (pct_decode s') | _ \<Rightarrow> None)
      | _ \<Rightarrow> None)"

definition read_header :: "string \<Rightarrow> (string \<times> string) option" where
  "read_header p = (case split_once CHR ''='' p of
     Some (k, v) \<Rightarrow> map_option (Pair k) (pct_decode v) | None \<Rightarrow> None)"

lemma hex_val_digit: "n < 16 \<Longrightarrow> hex_val (hex_digit n) = Some n"
  by (auto simp: hex_val_def hex_digit_def Let_def)

lemma hex_digit_plain: "n < 16 \<Longrightarrow> hex_digit n \<noteq> CHR '','' \<and> hex_digit n \<noteq> CHR ''=''"
  using hex_val_digit[of n] by (auto simp: hex_val_def Let_def)

lemma url_encode_Cons:
  "url_encode_header_value (b # s) = (if is_unreserved b then [b]
     else [CHR ''%'', hex_digit (of_char b div 16), hex_digit (of_char b mod 16)]) @ url_encode_header_value s"
  by (simp add: url_encode_header_value_def)

lemma byte_digits: "(of_char (c :: char) :: nat) div 16 < 16" "(of_char (c :: char) :: nat) mod 16 < 16"
  using less_mult_imp_div_less[of "of_char c" 16 16] nat_of_char_less_256[of c] by simp_all

lemma pct_decode_url_encode: "pct_decode (url_encode_header_value s) = Some s"
proof (induction s)
  case (Cons b s)
  have "(of_char b :: nat) div 16 * 16 + of_char b mod 16 = of_char b" by simp
  then have "char_of (16 * ((of_char b :: nat) div 16) + of_char b mod 16) = b"
    by (metis char_of_char mult.commute)
  moreover have "\<not> is_unreserved CHR ''%''" by (simp add: is_unreserved_def byte_in_def)
  ultimately show ?case using Cons by (auto simp: url_encode_Cons hex_val_digit byte_digits)
qed (simp add: url_encode_header_value_def)

lemma url_encode_plain: "CHR '','' \<notin> set (url_encode_header_value s)"
proof (induction s)
  case (Cons b s)
  have "\<not> is_unreserved CHR '',''" by (simp add: is_unreserved_def byte_in_def)
  then show ?case using Cons hex_digit_plain[OF byte_digits(1)[of b]] hex_digit_plain[OF byte_digits(2)[of b]]
    by (auto simp: url_encode_Cons)
qed (simp add: url_encode_header_value_def)

lemma split_once_first: "c \<notin> set a \<Longrightarrow> split_once c (a @ c # b) = Some (a, b)"
  by (induction a) auto

lemma split_on_join:
  "ps \<noteq> [] \<Longrightarrow> (\<And>p. p \<in> set ps \<Longrightarrow> c \<notin> set p) \<Longrightarrow> split_on c (str_join [c] ps) = ps"
  by (induction "[c]" ps rule: str_join.induct) (auto simp: split_on_no_sep split_on_prefix)

lemma read_header_part: "CHR ''='' \<notin> set k \<Longrightarrow> read_header (k @ CHR ''='' # url_encode_header_value v) = Some (k, v)"
  by (simp add: read_header_def split_once_first pct_decode_url_encode)

definition plain_names :: "(string \<times> json) list \<Rightarrow> bool" where
  "plain_names obj \<longleftrightarrow> list_all (\<lambda>(k, v). CHR '','' \<notin> set k \<and> CHR ''='' \<notin> set k) obj"

lemma header_parts_read:
  "header_parts obj = Inr parts \<Longrightarrow> plain_names obj \<Longrightarrow>
   map read_header parts = map (\<lambda>(k, v). map_option (\<lambda>s. (trim k, trim s)) (value_str v)) obj \<and>
   (\<forall>p \<in> set parts. CHR '','' \<notin> set p)"
proof (induction obj arbitrary: parts)
  case (Cons kv obj)
  obtain k v where kv: "kv = (k, v)" by (metis prod.exhaust)
  from Cons.prems(1) kv obtain s ps where p: "value_str v = Some s" "header_parts obj = Inr ps"
    "parts = (trim k @ CHR ''='' # url_encode_header_value (trim s)) # ps"
    by (auto simp: Let_def res_bind_Inr_iff split: if_splits option.splits)
  have "CHR '','' \<notin> set (trim k)" "CHR ''='' \<notin> set (trim k)"
    using Cons.prems(2) kv set_trim_subset[of k] by (auto simp: plain_names_def)
  with Cons.IH[OF p(2)] Cons.prems(2) kv p url_encode_plain show ?case
    by (auto simp: read_header_part plain_names_def)
qed simp

text \<open>
  Property C32: the secret with the exporter headers survives its encoding. Unless headers are already
  configured, the variable that is set reads back, by the convention of OpenTelemetry, as exactly
  the names and values of the JSON object, trimmed, in the order of its keys, whatever bytes the
  values contain; no other variable is touched.
\<close>

theorem otlp_headers_roundtrip:
  assumes "try_set_otlp_headers_from_json_secret x env = Inr env'"
    and "env_missing_or_empty env ''OTEL_EXPORTER_OTLP_HEADERS''"
    and "env_missing_or_empty env ''OTEL_EXPORTER_OTLP_TRACES_HEADERS''"
    and "env ''SMUG_OTEL_HEADERS_JSON'' = Some raw" and "trim raw \<noteq> []"
    and "x_json_parse x raw = Some j" and "to_value j = JObj obj" and "plain_names obj"
  shows "\<exists>hs. env' = env(''OTEL_EXPORTER_OTLP_HEADERS'' \<mapsto> hs) \<and>
    map read_header (split_on CHR '','' hs) = map (\<lambda>(k, v). map_option (\<lambda>s. (trim k, trim s)) (value_str v)) obj"
proof -
  from assms obtain parts where p: "header_parts obj = Inr parts" "parts \<noteq> []"
    "env' = env(''OTEL_EXPORTER_OTLP_HEADERS'' \<mapsto> str_join [CHR '',''] parts)"
    by (auto simp: try_set_otlp_headers_from_json_secret_def from_slice_def ok_or_def res_bind_Inr_iff split: if_splits)
  note r = header_parts_read[OF p(1) assms(8)]
  have "split_on CHR '','' (str_join [CHR '',''] parts) = parts"
    by (rule split_on_join[OF p(2)]) (use r in blast)
  with r p(3) show ?thesis by auto
qed

definition secret_ext :: ext where
  "secret_ext = plain_ext\<lparr>x_json_parse := (\<lambda>b. Some (JObj [(''k'', JStr ''a,b'')]))\<rparr>"

theorem otlp_headers_roundtrip_witness:
  "\<exists>hs env'. try_set_otlp_headers_from_json_secret secret_ext [''SMUG_OTEL_HEADERS_JSON'' \<mapsto> ''s''] = Inr env' \<and>
     env' ''OTEL_EXPORTER_OTLP_HEADERS'' = Some hs \<and> map read_header (split_on CHR '','' hs) = [Some (''k'', ''a,b'')]"
proof -
  have t: "trim ''s'' = ''s''" "trim ''k'' = ''k''" "trim ''a,b'' = ''a,b''" by code_simp+
  let ?env = "[''SMUG_OTEL_HEADERS_JSON'' \<mapsto> ''s''] :: process_env"
  have v: "to_value (JObj [(''k'', JStr ''a,b'')]) = JObj [(''k'', JStr ''a,b'')]" by simp
  obtain env' where e: "try_set_otlp_headers_from_json_secret secret_ext ?env = Inr env'"
    by (simp add: try_set_otlp_headers_from_json_secret_def env_missing_or_empty_def from_slice_def ok_or_def
        secret_ext_def plain_ext_def t res_bind_def)
  have h: "env_missing_or_empty ?env ''OTEL_EXPORTER_OTLP_HEADERS''"
    "env_missing_or_empty ?env ''OTEL_EXPORTER_OTLP_TRACES_HEADERS''"
    "?env ''SMUG_OTEL_HEADERS_JSON'' = Some ''s''" "trim ''s'' \<noteq> []"
    "x_json_parse secret_ext ''s'' = Some (JObj [(''k'', JStr ''a,b'')])"
    "plain_names [(''k'', JStr ''a,b'')]"
    by (simp_all add: env_missing_or_empty_def t secret_ext_def plain_names_def)
  from otlp_headers_roundtrip[OF e h(1-5) v h(6)] e show ?thesis by (auto simp: t)
qed

subsection \<open>What a started gateway guarantees\<close>


text \<open>A document with one route, given by the flag.\<close>

definition demo_platform :: "string platform" where
  "demo_platform = \<lparr>pf_try_init = Inr (), pf_build_exporter = (\<lambda>p. Inr ()), pf_url_parse = (\<lambda>s. None),
     pf_files = (\<lambda>p. Inr ''doc''), pf_get_object = (\<lambda>b k. Inl BadEncode),
     pf_parse_yaml = (\<lambda>b. Some (YMap [(YScalar ''ListenAddr'' SStr, YScalar ''a'' SStr),
       (YScalar ''Spec'' SStr, YMap [(YScalar ''paths'' SStr, YMap [])])])),
     pf_parse_addr = Some, pf_parse_form = (\<lambda>q. [])\<rparr>"


end
