(* ===== verification/Gw_Telemetry.thy ===== *)
theory Gw_Telemetry
  imports Gw_Server
begin

text \<open>
  The server span of a request (\<^verbatim>\<open>gateway/src/server.rs\<close>): its name, the attributes it is started with,
  those it gets on the way, and its status when it ends. The names of the attributes are the constants
  of the semantic conventions, kept as symbols.
\<close>

datatype attr_key =
    HTTP_REQUEST_METHOD | URL_PATH | NETWORK_PROTOCOL_NAME | NETWORK_PROTOCOL_VERSION | HTTP_ROUTE | URL_QUERY
  | USER_AGENT_ORIGINAL | SERVER_ADDRESS | URL_SCHEME | HTTP_RESPONSE_STATUS_CODE | Key string

datatype attr_value = AStr string | AInt int

record span =
  sn_name :: string
  sn_attributes :: "(attr_key \<times> attr_value) list"
  sn_error :: "string option"
  sn_ended :: bool

datatype http_version = HTTP_09 | HTTP_10 | HTTP_11 | HTTP_2 | HTTP_3 | HTTP_other

definition set_attribute :: "attr_key \<Rightarrow> attr_value \<Rightarrow> span \<Rightarrow> span" where
  "set_attribute k v sn = sn\<lparr>sn_attributes := sn_attributes sn @ [(k, v)]\<rparr>"

definition http_version_to_str :: "http_version \<Rightarrow> string option" where
  "http_version_to_str version =
     (case version of
        HTTP_09 \<Rightarrow> Some ''0.9'' | HTTP_10 \<Rightarrow> Some ''1.0'' | HTTP_11 \<Rightarrow> Some ''1.1''
      | HTTP_2 \<Rightarrow> Some ''2'' | HTTP_3 \<Rightarrow> Some ''3'' | HTTP_other \<Rightarrow> None)"

text \<open>\<^verbatim>\<open>headers.get(name)\<close> is the first value of a header; it is used when it is readable text.\<close>

definition header_attribute :: "ext \<Rightarrow> string \<Rightarrow> attr_key \<Rightarrow> header_map \<Rightarrow> span \<Rightarrow> span" where
  "header_attribute x name key headers sn =
     (case header_get_all name headers of
        value # _ \<Rightarrow> if x_to_str x value then set_attribute key (AStr value) sn else sn
      | [] \<Rightarrow> sn)"

definition start_request_span :: "ext \<Rightarrow> string option \<Rightarrow> http_version \<Rightarrow> request_parts \<Rightarrow> span" where
  "start_request_span x route_template version parts =
     (let route_for_name = (case route_template of Some r \<Rightarrow> r | None \<Rightarrow> rp_path parts);
          sn = \<lparr>sn_name = method_str (rp_method parts) @ '' '' @ route_for_name, sn_attributes = [],
                sn_error = None, sn_ended = False\<rparr>;
          sn = set_attribute HTTP_REQUEST_METHOD (AStr (method_str (rp_method parts))) sn;
          sn = set_attribute URL_PATH (AStr (rp_path parts)) sn;
          sn = set_attribute NETWORK_PROTOCOL_NAME (AStr ''http'') sn;
          sn = (case http_version_to_str version of
                  Some v \<Rightarrow> set_attribute NETWORK_PROTOCOL_VERSION (AStr v) sn | None \<Rightarrow> sn);
          sn = (case route_template of Some r \<Rightarrow> set_attribute HTTP_ROUTE (AStr r) sn | None \<Rightarrow> sn);
          sn = (case rp_query parts of
                  Some query \<Rightarrow> if query \<noteq> [] then set_attribute URL_QUERY (AStr query) sn else sn | None \<Rightarrow> sn);
          sn = header_attribute x ''user-agent'' USER_AGENT_ORIGINAL (rp_headers parts) sn;
          sn = header_attribute x ''host'' SERVER_ADDRESS (rp_headers parts) sn
      in header_attribute x ''x-forwarded-proto'' URL_SCHEME (rp_headers parts) sn)"

definition invoke_mode_attribute :: "operation_config \<Rightarrow> span \<Rightarrow> span" where
  "invoke_mode_attribute op sn = set_attribute (Key ''smug.invoke.mode'')
     (AStr (case oc_invoke_mode op of Buffered \<Rightarrow> ''buffered'' | ResponseStream \<Rightarrow> ''response_stream'')) sn"

text \<open>The end of the handler; \<open>show_status\<close> is the \<^verbatim>\<open>Display\<close> of a status code.\<close>

definition i64_max :: nat where
  "i64_max = 2 ^ 63 - 1"

definition end_request_span :: "(nat \<Rightarrow> string) \<Rightarrow> gateway_response_meta option \<Rightarrow> nat \<Rightarrow> span \<Rightarrow> span" where
  "end_request_span show_status meta status sn =
     (let sn = (case meta of
            Some m \<Rightarrow>
              (let batch_size = min (rm_batch_size m) i64_max; batch_wait_ms = min (rm_batch_wait_ms m) i64_max
               in set_attribute (Key ''smug.batch.wait_ms'') (AInt (int batch_wait_ms))
                    (set_attribute (Key ''smug.batch.size'') (AInt (int batch_size)) sn))
          | None \<Rightarrow> sn);
          sn = set_attribute HTTP_RESPONSE_STATUS_CODE (AInt (int status)) sn;
          sn = (if 500 \<le> status \<and> status < 600 then sn\<lparr>sn_error := Some (show_status status)\<rparr> else sn)
      in sn\<lparr>sn_ended := True\<rparr>)"

text \<open>The span of a request that is answered with \<open>res\<close>, from its start to its end.\<close>

definition request_span :: "ext \<Rightarrow> (nat \<Rightarrow> string) \<Rightarrow> 'r app_state \<Rightarrow> http_version \<Rightarrow> request_parts \<Rightarrow> response \<Rightarrow> span" where
  "request_span x show_status app version parts res =
     (case match_request (as_router_ops app) (as_spec app) (rp_method parts) (rp_path parts) of
        Matched op _ \<Rightarrow> end_request_span show_status (rs_meta res) (rs_status res)
          (invoke_mode_attribute op (start_request_span x (Some (oc_route_template op)) version parts))
      | _ \<Rightarrow> end_request_span show_status (rs_meta res) (rs_status res) (start_request_span x None version parts))"

subsection \<open>Facts\<close>

definition attribute_names :: "span \<Rightarrow> attr_key list" where
  "attribute_names sn = map fst (sn_attributes sn)"

lemma set_attribute_simps [simp]:
  "attribute_names (set_attribute k v sn) = attribute_names sn @ [k]"
  "sn_error (set_attribute k v sn) = sn_error sn" "sn_name (set_attribute k v sn) = sn_name sn"
  "attribute_names (sn\<lparr>sn_error := e\<rparr>) = attribute_names sn" "attribute_names (sn\<lparr>sn_ended := b\<rparr>) = attribute_names sn"
  by (simp_all add: attribute_names_def set_attribute_def)

lemma header_attribute_simps [simp]:
  "attribute_names (header_attribute x name key h sn) =
     attribute_names sn @ (case header_get_all name h of v # _ \<Rightarrow> if x_to_str x v then [key] else [] | [] \<Rightarrow> [])"
  "sn_error (header_attribute x name key h sn) = sn_error sn" "sn_name (header_attribute x name key h sn) = sn_name sn"
  by (simp_all add: header_attribute_def split: list.splits)

text \<open>
  No attribute of a span is set twice; the route and the invocation mode are there for a matched
  request only; the span has an error status for a server error only, and it always ends.
\<close>

lemma request_span_wellformed:
  "distinct (attribute_names (request_span x sh app version parts res)) \<and>
   (HTTP_ROUTE \<in> set (attribute_names (request_span x sh app version parts res)) \<longleftrightarrow>
      (\<exists>op ps. match_request (as_router_ops app) (as_spec app) (rp_method parts) (rp_path parts) = Matched op ps)) \<and>
   (sn_error (request_span x sh app version parts res) =
      (if 500 \<le> rs_status res \<and> rs_status res < 600 then Some (sh (rs_status res)) else None)) \<and>
   sn_ended (request_span x sh app version parts res)"
proof -
  have start: "attribute_names (start_request_span x r version parts) =
      [HTTP_REQUEST_METHOD, URL_PATH, NETWORK_PROTOCOL_NAME] @
      (case http_version_to_str version of Some v \<Rightarrow> [NETWORK_PROTOCOL_VERSION] | None \<Rightarrow> []) @
      (case r of Some _ \<Rightarrow> [HTTP_ROUTE] | None \<Rightarrow> []) @
      (case rp_query parts of Some q \<Rightarrow> if q \<noteq> [] then [URL_QUERY] else [] | None \<Rightarrow> []) @
      (case header_get_all ''user-agent'' (rp_headers parts) of v # _ \<Rightarrow> if x_to_str x v then [USER_AGENT_ORIGINAL] else [] | [] \<Rightarrow> []) @
      (case header_get_all ''host'' (rp_headers parts) of v # _ \<Rightarrow> if x_to_str x v then [SERVER_ADDRESS] else [] | [] \<Rightarrow> []) @
      (case header_get_all ''x-forwarded-proto'' (rp_headers parts) of v # _ \<Rightarrow> if x_to_str x v then [URL_SCHEME] else [] | [] \<Rightarrow> [])"
    "sn_error (start_request_span x r version parts) = None" for r
    by (auto simp: start_request_span_def attribute_names_def Let_def set_attribute_def header_attribute_def
        split: option.splits list.splits)
  have "set (attribute_names (start_request_span x r version parts)) \<inter>
      {HTTP_RESPONSE_STATUS_CODE, Key ''smug.invoke.mode'', Key ''smug.batch.size'', Key ''smug.batch.wait_ms''} = {} \<and>
    distinct (attribute_names (start_request_span x r version parts)) \<and>
    (HTTP_ROUTE \<in> set (attribute_names (start_request_span x r version parts)) \<longleftrightarrow> r \<noteq> None)" for r
    unfolding start by (auto split: option.splits list.splits)
  with start(2) show ?thesis
    by (auto simp: request_span_def end_request_span_def invoke_mode_attribute_def Let_def split: route_match.splits option.splits)
qed

end
