(* ===== verification/Gw_Lambda.thy ===== *)
theory Gw_Lambda
  imports Gw_Response_Stream Gw_Flush
begin

text \<open>
  The Lambda client of the gateway (\<^verbatim>\<open>gateway/src/lambda.rs\<close>): the two ways to invoke a function, and
  the task that pumps the event stream of a streamed response into the channel the dispatcher reads.
  The two calls of the AWS SDK are parameters.
\<close>

subsection \<open>Invoking a function\<close>

text \<open>
  Events of a response stream: a payload chunk (which may carry no payload), the end of the
  invocation with an optional error code and details, and events the code does not know. What
  \<^verbatim>\<open>recv\<close> returns is a list of such events or errors; the end of the list is the end of the stream.
\<close>

datatype stream_event = PayloadChunk "bytes option" | InvokeComplete "string option" "string option" | UnknownEvent

record invoke_output =
  io_function_error :: "string option"
  io_payload :: "bytes option"

record stream_output =
  so_status_code :: int
  so_event_stream :: "(string + stream_event) list"

record lambda_sdk =
  sdk_invoke :: "string \<Rightarrow> bytes \<Rightarrow> string + invoke_output"
  sdk_invoke_with_response_stream :: "string \<Rightarrow> bytes \<Rightarrow> string + stream_output"
  sdk_show_status :: "int \<Rightarrow> string"

text \<open>
  The pump. \<open>ok n\<close> says whether the receiver is still there for the send number \<open>n\<close>; after a failed send
  the stream is only drained. The result is what the channel accepted. The drain after
  \<^verbatim>\<open>InvokeComplete\<close> has no effect on it.
\<close>

fun pump :: "(nat \<Rightarrow> bool) \<Rightarrow> bool \<Rightarrow> nat \<Rightarrow> (string + stream_event) list \<Rightarrow> (string + bytes) list" where
  "pump ok can_send n [] = []"
| "pump ok can_send n (Inl err # es) = (if can_send \<and> ok n then [Inl (''event stream recv: '' @ err)] else [])"
| "pump ok can_send n (Inr (PayloadChunk p) # es) =
     (if \<not> can_send then pump ok can_send n es
      else case p of
        None \<Rightarrow> pump ok can_send n es
      | Some bs \<Rightarrow> if ok n then Inr bs # pump ok can_send (n + 1) es else pump ok False (n + 1) es)"
| "pump ok can_send n (Inr (InvokeComplete code details) # es) =
     (case code of
        Some c \<Rightarrow>
          (let d = (case details of Some d \<Rightarrow> d | None \<Rightarrow> [])
           in if can_send \<and> ok n then [Inl (''lambda stream error ('' @ c @ ''): '' @ d)] else [])
      | None \<Rightarrow> [])"
| "pump ok can_send n (Inr UnknownEvent # es) = pump ok can_send n es"

text \<open>The dispatcher reads the channel to its end or to the first error, so every send is accepted until then.\<close>

definition aws_lambda_invoke :: "lambda_sdk \<Rightarrow> invoker" where
  "aws_lambda_invoke sdk function_name payload mode =
     (case mode of
        Buffered \<Rightarrow>
          (case sdk_invoke sdk function_name payload of
             Inl err \<Rightarrow> Inl err
           | Inr out \<Rightarrow>
               (case io_function_error out of
                  Some e \<Rightarrow> Inl (''lambda function error ('' @ e @ '') for '' @ function_name)
                | None \<Rightarrow> Inr (LrBuffered (case io_payload out of Some b \<Rightarrow> b | None \<Rightarrow> []))))
      | ResponseStream \<Rightarrow>
          (case sdk_invoke_with_response_stream sdk function_name payload of
             Inl err \<Rightarrow> Inl err
           | Inr out \<Rightarrow>
               if so_status_code out \<noteq> 200
               then Inl (''InvokeWithResponseStream failed for '' @ function_name @ '' (status '' @
                      sdk_show_status sdk (so_status_code out) @ '')'')
               else Inr (LrStream (pump (\<lambda>_. True) True 0 (so_event_stream out)))))"

subsection \<open>What the channel gets\<close>

text \<open>The payloads before the stream ends, and how it ends.\<close>

fun stream_payloads :: "(string + stream_event) list \<Rightarrow> bytes list" where
  "stream_payloads [] = []"
| "stream_payloads (Inl err # es) = []"
| "stream_payloads (Inr (PayloadChunk p) # es) = (case p of None \<Rightarrow> [] | Some b \<Rightarrow> [b]) @ stream_payloads es"
| "stream_payloads (Inr (InvokeComplete c d) # es) = []"
| "stream_payloads (Inr UnknownEvent # es) = stream_payloads es"

fun stream_error :: "(string + stream_event) list \<Rightarrow> string option" where
  "stream_error [] = None"
| "stream_error (Inl err # es) = Some (''event stream recv: '' @ err)"
| "stream_error (Inr (PayloadChunk p) # es) = stream_error es"
| "stream_error (Inr (InvokeComplete c d) # es) =
     map_option (\<lambda>c. ''lambda stream error ('' @ c @ ''): '' @ (case d of Some d \<Rightarrow> d | None \<Rightarrow> [])) c"
| "stream_error (Inr UnknownEvent # es) = stream_error es"

lemma pump_closed: "pump ok False n es = []"
  by (induction es arbitrary: n rule: stream_payloads.induct) (auto split: option.splits)

lemma pump_open:
  "(\<And>k. ok k) \<Longrightarrow> pump ok True n es = map Inr (stream_payloads es) @ (case stream_error es of None \<Rightarrow> [] | Some e \<Rightarrow> [Inl e])"
  by (induction es arbitrary: n rule: stream_payloads.induct) (auto simp: Let_def split: option.splits)

text \<open>A receiver that goes away has received a prefix of what the function sent.\<close>

lemma pump_prefix: "prefix (pump ok True n es) (pump (\<lambda>_. True) True m es)"
  by (induction es arbitrary: n m rule: stream_payloads.induct)
    (auto simp: Let_def pump_closed split: option.splits)

text \<open>A stream that ends with an error: the complete lines are handled, then the rest is failed.\<close>

lemma dispatch_text_then_error:
  assumes "length (concat cs) \<le> max_buffer_bytes"
  shows "dispatch_response_stream x env w (map Inr cs @ [Inl e]) pending lg =
    (case run_lines x env (length pending) w (lines_of (concat cs)) (pending, lg) of
       Inl lg' \<Rightarrow> lg'
     | Inr s \<Rightarrow> fail_all_stream env (length pending) w 502 (''response stream error: '' @ e) (fst s) (snd s))"
  using recv_loop_text[of "[]" cs x env "length pending" w "(pending, lg)"] assms
  by (simp add: dispatch_response_stream_def recv_loop_append text_outcome_def split: sum.split)

text \<open>
  Property C25: a streamed invocation through the AWS client has the effect of its response text. However
  Lambda cuts the text into payload events (empty and unknown events included), a stream that ends
  without an error is dispatched as that text in one piece; one that ends with an error dispatches
  the lines that are complete and then fails what is still pending with that error.
\<close>

theorem stream_invocation_effect:
  assumes "sdk_invoke_with_response_stream sdk (bk_target_lambda key) payload = Inr \<lparr>so_status_code = 200, so_event_stream = es\<rparr>"
    and "bk_invoke_mode key = ResponseStream" and "length (concat (stream_payloads es)) \<le> max_buffer_bytes"
  shows "run_invocation_job x env (aws_lambda_invoke sdk) (JobStream key w rps payload pending) lg =
    (case stream_error es of
       None \<Rightarrow> dispatch_response_stream x env w [Inr (concat (stream_payloads es))] pending lg
     | Some e \<Rightarrow>
         (case run_lines x env (length pending) w (lines_of (concat (stream_payloads es))) (pending, lg) of
            Inl lg' \<Rightarrow> lg'
          | Inr s \<Rightarrow> fail_all_stream env (length pending) w 502 (''response stream error: '' @ e) (fst s) (snd s)))"
proof -
  have "aws_lambda_invoke sdk (bk_target_lambda key) payload (bk_invoke_mode key) = Inr (LrStream
      (map Inr (stream_payloads es) @ (case stream_error es of None \<Rightarrow> [] | Some e \<Rightarrow> [Inl e])))"
    using assms(1,2) by (simp add: aws_lambda_invoke_def pump_open)
  then have run: "run_invocation_job x env (aws_lambda_invoke sdk) (JobStream key w rps payload pending) lg =
      dispatch_response_stream x env w (map Inr (stream_payloads es) @
        (case stream_error es of None \<Rightarrow> [] | Some e \<Rightarrow> [Inl e])) pending lg" by simp
  have one: "dispatch_response_stream x env w [Inr (concat (stream_payloads es))] pending lg =
      stream_text x env w (concat (stream_payloads es)) pending lg"
    using dispatch_response_stream_text[of "[concat (stream_payloads es)]" x env w] assms(3) by simp
  show ?thesis
  proof (cases "stream_error es")
    case None
    with run one dispatch_response_stream_text[OF assms(3)] show ?thesis by simp
  next
    case (Some e)
    with run dispatch_text_then_error[OF assms(3)] show ?thesis by simp
  qed
qed

definition demo_sdk :: lambda_sdk where
  "demo_sdk = \<lparr>sdk_invoke = (\<lambda>f p. Inl ''down''),
     sdk_invoke_with_response_stream = (\<lambda>f p. Inr \<lparr>so_status_code = 200,
       so_event_stream = [Inr (PayloadChunk (Some ''H'')), Inr UnknownEvent, Inr (PayloadChunk None),
         Inr (PayloadChunk (Some [newline])), Inr (InvokeComplete None None), Inl ''late'']\<rparr>),
     sdk_show_status = (\<lambda>n. [])\<rparr>"

theorem stream_invocation_effect_witness:
  "\<exists>key. run_invocation_job stream_ext (\<lambda>n c. True) (aws_lambda_invoke demo_sdk)
      (JobStream key 5 None [] (start_table two_clients)) [] =
    dispatch_response_stream stream_ext (\<lambda>n c. True) 5 [Inr [CHR ''H'', newline]] (start_table two_clients) []"
proof -
  obtain key :: batch_key where key: "bk_invoke_mode key = ResponseStream"
    by (metis batch_key.select_convs)
  let ?es = "[Inr (PayloadChunk (Some ''H'')), Inr UnknownEvent, Inr (PayloadChunk None),
         Inr (PayloadChunk (Some [newline])), Inr (InvokeComplete None None), Inl ''late'']"
  have sdk: "sdk_invoke_with_response_stream demo_sdk f p = Inr \<lparr>so_status_code = 200, so_event_stream = ?es\<rparr>" for f p
    by (simp add: demo_sdk_def)
  have vals: "concat (stream_payloads ?es) = [CHR ''H'', newline]" "stream_error ?es = None" by simp_all
  have "length (concat (stream_payloads ?es)) \<le> max_buffer_bytes" by (simp add: max_buffer_bytes_def)
  from stream_invocation_effect[OF sdk key this, of stream_ext "\<lambda>n c. True" 5 None "[]" "start_table two_clients" "[]"] vals
  show ?thesis by (intro exI[of _ key]) simp
qed

end
