(* ===== verification/Lp_Startup.thy ===== *)
theory Lp_Startup
  imports Lp_Client
begin

text \<open>
  The start-up of the layer proxy (\<^verbatim>\<open>layer-proxy/src/extension.rs\<close>, \<^verbatim>\<open>main.rs\<close>): configuration, registration
  as an extension, the server task, the wait for the one event that ends it, and the shutdown. What the
  process does to the outside is a list of effects. The socket and the HTTP server are parameters: what
  binding and serving come to, and what joining a task that panicked says.
\<close>

subsection \<open>The server\<close>

text \<open>\<^verbatim>\<open>serve\<close>: bind, then serve until the shutdown signal; \<open>serving\<close> is what \<^verbatim>\<open>axum::serve\<close> returns.\<close>

definition serve_listener :: "('addr \<Rightarrow> string + unit) \<Rightarrow> 'addr \<Rightarrow> string + unit" where
  "serve_listener serving addr = (case serving addr of Inl err \<Rightarrow> Inl err | Inr _ \<Rightarrow> Inr ())"

definition serve :: "('addr \<Rightarrow> string + unit) \<Rightarrow> ('addr \<Rightarrow> string + unit) \<Rightarrow> 'addr \<Rightarrow> string + unit" where
  "serve listen serving addr = (case listen addr of Inl err \<Rightarrow> Inl err | Inr _ \<Rightarrow> serve_listener serving addr)"

subsection \<open>The process\<close>

datatype 'addr extension_effect =
    TracingInit bool
  | Registered string
  | ServerSpawned 'addr
  | EventReceived
  | ShutdownSent
  | ServerJoined

text \<open>\<^verbatim>\<open>init_tracing\<close>: whether lines are JSON.\<close>

definition init_tracing :: "(string \<Rightarrow> string option) \<Rightarrow> bool" where
  "init_tracing env = (let log_format = (case env ''AWS_LAMBDA_LOG_FORMAT'' of Some v \<Rightarrow> v | None \<Rightarrow> [])
     in to_ascii_lowercase log_format = ''json'')"

record 'addr extension_host =
  eh_parse_addr :: "string \<Rightarrow> 'addr option"
  eh_new_client :: "string \<Rightarrow> string + unit"
  eh_register_body :: bytes
  eh_bind :: "'addr \<Rightarrow> string + unit"
  eh_serving :: "'addr \<Rightarrow> string + unit"
  eh_panics :: "'addr \<Rightarrow> string option"

definition extension_name :: string where
  "extension_name = ''smug-runtime-api-proxy''"

definition run_extension :: "ext \<Rightarrow> network \<Rightarrow> 'addr extension_host \<Rightarrow> (string \<Rightarrow> string option) \<Rightarrow>
    (string + unit) \<times> 'addr extension_effect list" where
  "run_extension x send host env =
     (case lp_config_from_env (eh_parse_addr host) env of
        Inl err \<Rightarrow> (Inl err, [])
      | Inr cfg \<Rightarrow>
          (case eh_new_client host (upstream_base_url cfg) of
             Inl err \<Rightarrow> (Inl err, [])
           | Inr _ \<Rightarrow>
               let tracing = TracingInit (init_tracing env)
               in case register_extension x send (upstream_base_url cfg) extension_name (eh_register_body host) of
                    Inl err \<Rightarrow> (Inl err, [tracing])
                  | Inr extension_id \<Rightarrow>
                      let started = [tracing, Registered extension_id, ServerSpawned (lc_proxy_addr cfg)]
                      in case next_extension_event send (upstream_base_url cfg) extension_id of
                           Inl err \<Rightarrow> (Inl err, started)
                         | Inr _ \<Rightarrow>
                             ((case eh_panics host (lc_proxy_addr cfg) of
                                 Some err \<Rightarrow> Inl (''proxy server task failed: '' @ err)
                               | None \<Rightarrow> serve (eh_bind host) (eh_serving host) (lc_proxy_addr cfg)),
                              started @ [EventReceived, ShutdownSent, ServerJoined])))"

subsection \<open>Facts\<close>

text \<open>
  What the server task comes to is looked at only after the event that ends the extension: when the
  proxy's port cannot be bound, the extension has registered and waits for its event all the same,
  and the error comes out with it.
\<close>

theorem bind_failure_waits:
  assumes "lp_config_from_env (eh_parse_addr host) env = Inr cfg" and "eh_new_client host (upstream_base_url cfg) = Inr ()"
    and "register_extension x send (upstream_base_url cfg) extension_name (eh_register_body host) = Inr i"
    and "eh_panics host (lc_proxy_addr cfg) = None" and "eh_bind host (lc_proxy_addr cfg) = Inl err"
  shows "run_extension x send host env =
    (case next_extension_event send (upstream_base_url cfg) i of
       Inl err' \<Rightarrow> (Inl err', [TracingInit (init_tracing env), Registered i, ServerSpawned (lc_proxy_addr cfg)])
     | Inr _ \<Rightarrow> (Inl err, [TracingInit (init_tracing env), Registered i, ServerSpawned (lc_proxy_addr cfg),
         EventReceived, ShutdownSent, ServerJoined]))"
  using assms by (simp add: run_extension_def serve_def Let_def split: sum.splits)

text \<open>The extension ends well only when every step did, in this order.\<close>

theorem run_extension_ok:
  "fst (run_extension x send host env) = Inr () \<longleftrightarrow>
   (\<exists>cfg i b. lp_config_from_env (eh_parse_addr host) env = Inr cfg \<and> eh_new_client host (upstream_base_url cfg) = Inr () \<and>
      register_extension x send (upstream_base_url cfg) extension_name (eh_register_body host) = Inr i \<and>
      next_extension_event send (upstream_base_url cfg) i = Inr b \<and> eh_panics host (lc_proxy_addr cfg) = None \<and>
      eh_bind host (lc_proxy_addr cfg) = Inr () \<and> eh_serving host (lc_proxy_addr cfg) = Inr () \<and>
      snd (run_extension x send host env) = [TracingInit (init_tracing env), Registered i, ServerSpawned (lc_proxy_addr cfg),
        EventReceived, ShutdownSent, ServerJoined])"
  by (auto simp: run_extension_def serve_def serve_listener_def Let_def split: sum.splits option.splits)

end
