(* ===== verification/Gw_Types.thy ===== *)
theory Gw_Types
  imports Gw_Config Gw_Lp_Wire Gw_Buffered
begin

text \<open>
  What the decoders give is of its Rust type: the numbers of a configuration fit 64 bits, a map has
  each key once (and \<^verbatim>\<open>paths\<close> is sorted), the numbers of a record fit \<^verbatim>\<open>u8\<close> and \<^verbatim>\<open>u16\<close>. So the naturals
  of the model never hold what a machine integer of the code could not.
\<close>

subsection \<open>Numbers\<close>

lemma f_to_u64_bound: "f_to_u64 v \<le> u64_max"
  by (cases v) (auto simp: u64_max_def)

lemma visit_bounds:
  "visit_f64 v = Some n \<Longrightarrow> n \<le> u64_max"
  "visit_str s = Some n \<Longrightarrow> n \<le> u64_max"
  by (auto simp: visit_f64_def visit_str_def parse_u64_def f_to_u64_bound Let_def split: if_splits list.splits dest: digits_u64_bound)

lemma de_u64_bound: "de_u64_or_string y = Some n \<Longrightarrow> n \<le> u64_max"
  by (auto simp: de_u64_or_string_def visit_i64_def split: yaml.splits scalar.splits if_splits dest: visit_bounds)

lemma de_usize_bound: "de_usize_or_string y = Some n \<Longrightarrow> n \<le> u64_max"
  by (auto simp: de_usize_or_string_def usize_visit_u64_def split: yaml.splits scalar.splits if_splits bind_splits)

lemma de_option_u64_bound: "de_option_u64_or_string y = Some v \<Longrightarrow> pred_option (\<lambda>n. n \<le> u64_max) v"
  by (auto simp: de_option_u64_or_string_def split: yaml.splits scalar.splits dest: de_u64_bound)

subsection \<open>Fields\<close>

lemma ydef_all: "ydef name dec d fs = Some v \<Longrightarrow> P d \<Longrightarrow> (\<And>y u. dec y = Some u \<Longrightarrow> P u) \<Longrightarrow> P v"
  by (auto simp: ydef_def split: option.splits)

lemma yreq_all: "yreq name dec fs = Some v \<Longrightarrow> (\<And>y u. dec y = Some u \<Longrightarrow> P u) \<Longrightarrow> P v"
  by (auto simp: yreq_def split: bind_splits)

lemma y_option_all: "y_option dec y = Some v \<Longrightarrow> (\<And>y u. dec y = Some u \<Longrightarrow> P u) \<Longrightarrow> pred_option P v"
  by (cases "(dec, y)" rule: y_option.cases) auto

lemma field_bounds:
  "yreq name de_u64_or_string fs = Some n \<Longrightarrow> n \<le> u64_max"
  "yreq name de_usize_or_string fs = Some n \<Longrightarrow> n \<le> u64_max"
  "ydef name de_u64_or_string d fs = Some n \<Longrightarrow> d \<le> u64_max \<Longrightarrow> n \<le> u64_max"
  "ydef name de_usize_or_string d fs = Some n \<Longrightarrow> d \<le> u64_max \<Longrightarrow> n \<le> u64_max"
  "ydef name de_option_u64_or_string None fs = Some v \<Longrightarrow> pred_option (\<lambda>n. n \<le> u64_max) v"
  by (auto elim!: yreq_all ydef_all intro: de_u64_bound de_usize_bound de_option_u64_bound)

lemma option_field: "ydef name (y_option dec) None fs = Some v \<Longrightarrow> (\<And>y u. dec y = Some u \<Longrightarrow> P u) \<Longrightarrow> pred_option P v"
  by (erule ydef_all) (auto intro: y_option_all)

subsection \<open>The configuration\<close>

definition dynamic_typed :: "dynamic_wait_config \<Rightarrow> bool" where
  "dynamic_typed d \<longleftrightarrow> dw_min_wait_ms d \<le> u64_max \<and> dw_sampling_interval_ms d \<le> u64_max \<and> dw_smoothing_samples d \<le> u64_max"

definition smug_typed :: "smug_operation_config \<Rightarrow> bool" where
  "smug_typed smug \<longleftrightarrow> so_max_wait_ms smug \<le> u64_max \<and> so_max_batch_size smug \<le> u64_max \<and>
     pred_option (\<lambda>n. n \<le> u64_max) (so_timeout_ms smug) \<and> pred_option dynamic_typed (so_dynamic_wait smug)"

definition path_item_typed :: "path_item \<Rightarrow> bool" where
  "path_item_typed p \<longleftrightarrow> list_all (pred_option (\<lambda>op. smug_typed (op_smug op)))
     [pi_get p, pi_post p, pi_put p, pi_delete p, pi_patch p, pi_head p, pi_options p]"

definition spec_typed :: "openapi_like_spec \<Rightarrow> bool" where
  "spec_typed sp \<longleftrightarrow> bt_ok (sp_paths sp) \<and> list_all (\<lambda>p. path_item_typed (snd p)) (sp_paths sp)"

definition config_typed :: "'addr gateway_config \<Rightarrow> bool" where
  "config_typed cfg \<longleftrightarrow> list_all (\<lambda>n. n \<le> u64_max)
     [gc_max_inflight_invocations cfg, gc_max_inflight_requests cfg, gc_max_pending_invocations cfg,
      gc_max_queue_depth_per_key cfg, gc_idle_ttl_ms cfg, gc_default_timeout_ms cfg, gc_max_body_bytes cfg,
      gc_max_invoke_payload_bytes cfg] \<and> pred_option spec_typed (gc_spec cfg)"

lemma dec_dynamic_typed: "dec_dynamic_wait y = Some d \<Longrightarrow> dynamic_typed d"
  by (auto simp: dec_dynamic_wait_def dynamic_typed_def split: bind_splits dest!: field_bounds)
    (auto simp: u64_max_def default_dynamic_sampling_interval_ms_def default_dynamic_smoothing_samples_def)

lemma dec_smug_typed: "dec_smug_operation_config y = Some smug \<Longrightarrow> smug_typed smug"
  by (auto simp: smug_typed_def dec_smug_operation_config_def split: bind_splits
      dest: field_bounds option_field[OF _ dec_dynamic_typed])

lemma dec_operation_typed: "dec_operation y = Some op \<Longrightarrow> smug_typed (op_smug op)"
  by (auto simp: dec_operation_def yreq_def split: bind_splits dest: dec_smug_typed)

lemma dec_path_item_typed: "dec_path_item y = Some p \<Longrightarrow> path_item_typed p"
  by (auto simp: dec_path_item_def path_item_typed_def split: bind_splits dest: option_field[OF _ dec_operation_typed])

lemma bt_insert_all: "list_all P m \<Longrightarrow> P (k, v) \<Longrightarrow> list_all P (bt_insert k v m)"
  by (induction k v m rule: bt_insert.induct) auto

lemma dec_paths_typed:
  "dec_paths kvs m = Some ps \<Longrightarrow> bt_ok m \<Longrightarrow> list_all (\<lambda>p. path_item_typed (snd p)) m \<Longrightarrow>
   bt_ok ps \<and> list_all (\<lambda>p. path_item_typed (snd p)) ps"
  by (induction kvs m rule: dec_paths.induct)
    (auto split: option.splits simp: bt_insert_ok bt_insert_all dec_path_item_typed)

lemma dec_spec_typed: "dec_openapi_like_spec y = Some sp \<Longrightarrow> spec_typed sp"
  by (auto simp: dec_openapi_like_spec_def spec_typed_def yreq_def split: bind_splits yaml.splits dest: dec_paths_typed)

lemma default_bounds:
  "default_max_inflight_invocations \<le> u64_max" "default_max_queue_depth_per_key \<le> u64_max" "default_idle_ttl_ms \<le> u64_max"
  "default_default_timeout_ms \<le> u64_max" "default_max_body_bytes \<le> u64_max" "default_max_invoke_payload_bytes \<le> u64_max"
  "default_max_inflight_requests \<le> u64_max" "default_max_pending_invocations \<le> u64_max"
  by (simp_all add: u64_max_def default_max_inflight_invocations_def default_max_queue_depth_per_key_def default_idle_ttl_ms_def
      default_default_timeout_ms_def default_max_body_bytes_def default_max_invoke_payload_bytes_def
      default_max_inflight_requests_def default_max_pending_invocations_def)

lemma dec_config_typed: "dec_gateway_config parse_addr y = Some cfg \<Longrightarrow> config_typed cfg"
  by (auto simp: dec_gateway_config_def config_typed_def default_bounds split: bind_splits
      dest: field_bounds option_field[OF _ dec_spec_typed])

subsection \<open>The wire\<close>

fun stream_record_typed :: "stream_record \<Rightarrow> bool" where
  "stream_record_typed (Legacy r) \<longleftrightarrow> lr_v r < 256 \<and> lr_status_code r < 65536 \<and> hm_ok (lr_headers r)"
| "stream_record_typed (Interleaved r) \<longleftrightarrow> ir_v r < 256 \<and> pred_option (\<lambda>c. c < 65536) (ir_status_code r) \<and> hm_ok (ir_headers r)"

definition response_document_typed :: "batch_response \<Rightarrow> bool" where
  "response_document_typed d \<longleftrightarrow> br_v d < 256 \<and>
     list_all (\<lambda>r. ri_status_code r < 65536 \<and> hm_ok (ri_headers r)) (br_responses d)"

lemma req_field_all: "req_field name dec fs = Some v \<Longrightarrow> (\<And>y u. dec y = Some u \<Longrightarrow> P u) \<Longrightarrow> P v"
  by (auto simp: req_field_def split: bind_splits)

lemma def_field_all: "def_field name dec d fs = Some v \<Longrightarrow> P d \<Longrightarrow> (\<And>y u. dec y = Some u \<Longrightarrow> P u) \<Longrightarrow> P v"
  by (auto simp: def_field_def split: option.splits)

lemma dec_option_all: "dec_option dec y = Some v \<Longrightarrow> (\<And>y u. dec y = Some u \<Longrightarrow> P u) \<Longrightarrow> pred_option P v"
  by (cases "(dec, y)" rule: dec_option.cases) auto

lemma wire_fields:
  "req_field name dec_u8 fs = Some v \<Longrightarrow> v < 256"
  "req_field name dec_u16 fs = Some v \<Longrightarrow> v < 65536"
  "def_field name dec_str_map [] fs = Some m \<Longrightarrow> hm_ok m"
  "def_field name (dec_option dec_u16) None fs = Some c \<Longrightarrow> pred_option (\<lambda>c. c < 65536) c"
  using dec_uint_bound[of 8] dec_uint_bound[of 16]
  by (auto elim!: req_field_all def_field_all intro: dec_str_map_ok dec_option_all)

lemma dec_legacy_typed: "dec_legacy_record j = Some r \<Longrightarrow> stream_record_typed (Legacy r)"
  by (clarsimp simp: dec_legacy_record_def split: bind_splits) (simp add: wire_fields)

lemma dec_interleaved_typed: "dec_interleaved_record j = Some r \<Longrightarrow> stream_record_typed (Interleaved r)"
  by (clarsimp simp: dec_interleaved_record_def split: bind_splits) (simp add: wire_fields)

lemma parse_stream_record_typed: "parse_stream_record x line = Inr r \<Longrightarrow> stream_record_typed r"
  by (auto simp: parse_stream_record_def ok_or_Inr_iff res_bind_Inr_iff map_err_Inr_iff split: if_splits
      simp del: stream_record_typed.simps intro: dec_legacy_typed dec_interleaved_typed)

lemma all_some_all: "all_some (map f xs) = Some ys \<Longrightarrow> (\<And>x y. f x = Some y \<Longrightarrow> P y) \<Longrightarrow> list_all P ys"
proof (induction xs arbitrary: ys)
  case (Cons a xs)
  then show ?case by (cases "f a"; cases "all_some (map f xs)") auto
qed simp

lemma dec_batch_response_typed:
  assumes "dec_batch_response j = Some d"
  shows "response_document_typed d"
proof -
  have item: "dec_batch_response_item z = Some r \<Longrightarrow> ri_status_code r < 65536 \<and> hm_ok (ri_headers r)" for z r
    by (auto simp: dec_batch_response_item_def split: bind_splits dest: wire_fields)
  have items: "dec_list dec_batch_response_item z = Some rs \<Longrightarrow> list_all (\<lambda>r. ri_status_code r < 65536 \<and> hm_ok (ri_headers r)) rs" for z rs
    by (cases z) (auto elim!: all_some_all dest: item)
  from assms obtain fs where f: "req_field ''v'' dec_u8 fs = Some (br_v d)"
    "req_field ''responses'' (dec_list dec_batch_response_item) fs = Some (br_responses d)"
    by (auto simp: dec_batch_response_def split: bind_splits)
  show ?thesis
    using wire_fields(1)[OF f(1)] req_field_all[OF f(2) items] by (simp add: response_document_typed_def)
qed


end
