(* ===== verification/Ad_Select.thy ===== *)
theory Ad_Select
  imports Gw_Prelude
begin

text \<open>
  \<^verbatim>\<open>ConcurrentSelect\<close> of the Rust adapter (\<^verbatim>\<open>lambda-kit/adapter-rust/src/lib.rs\<close>): the streams of a batch
  are started lazily, at most \<open>limit\<close> of them run at a time, and their items are merged as they come.
  A stream is the list of the items it still has to give. Which streams are ready when the merged
  stream is polled is an oracle: the list of positions that \<^verbatim>\<open>SelectAll\<close> finds woken, in the order in
  which it polls them.
\<close>

record 'a select =
  cs_iter :: "'a list list"
  cs_active :: "'a list list"
  cs_limit :: nat
  cs_exhausted :: bool

definition select_init :: "'a list list \<Rightarrow> nat \<Rightarrow> 'a select" where
  "select_init streams limit = \<lparr>cs_iter = streams, cs_active = [], cs_limit = limit, cs_exhausted = False\<rparr>"

datatype 'a poll = Ready 'a | Finished | Pending

text \<open>The inner loop: start streams while there is room.\<close>

function refill :: "'a select \<Rightarrow> 'a select" where
  "refill s =
     (if \<not> cs_exhausted s \<and> length (cs_active s) < cs_limit s then
        (case cs_iter s of
           st # rest \<Rightarrow> refill (s\<lparr>cs_iter := rest, cs_active := cs_active s @ [st]\<rparr>)
         | [] \<Rightarrow> refill (s\<lparr>cs_exhausted := True\<rparr>))
      else s)"
  by pat_completeness auto
termination
  by (relation "measure (\<lambda>s. 2 * length (cs_iter s) + (if cs_exhausted s then 0 else 1))") auto

declare refill.simps [simp del]

text \<open>
  \<^verbatim>\<open>SelectAll::poll_next\<close>: the woken streams are polled in turn; one that has an item gives it, one that
  has ended is removed and the next is polled. \<open>Finished\<close> when no stream is left, \<open>Pending\<close> when none of
  those left is woken. The result has the woken positions that were not polled yet.
\<close>

definition drop_nth :: "nat \<Rightarrow> 'a list \<Rightarrow> 'a list" where
  "drop_nth k xs = take k xs @ drop (Suc k) xs"

fun select_all :: "nat list \<Rightarrow> 'a list list \<Rightarrow> 'a poll \<times> nat list \<times> 'a list list" where
  "select_all [] active = ((if active = [] then Finished else Pending), [], active)"
| "select_all (k # ks) active =
     (if active = [] then (Finished, k # ks, active)
      else case active ! (k mod length active) of
        [] \<Rightarrow> select_all ks (drop_nth (k mod length active) active)
      | a # as \<Rightarrow> (Ready a, ks, active[k mod length active := as]))"

lemma select_all_Nil [simp]: "select_all woken [] = (Finished, woken, [])"
  by (cases woken) simp_all

text \<open>\<^verbatim>\<open>ConcurrentSelect::poll_next\<close>; \<open>None\<close> is a poll that never returns.\<close>

partial_function (option) poll_next :: "nat list \<Rightarrow> 'a select \<Rightarrow> ('a poll \<times> 'a select) option" where
  "poll_next woken s =
     (let s1 = refill s; r = select_all woken (cs_active s1); s2 = s1\<lparr>cs_active := snd (snd r)\<rparr>
      in case fst r of
           Ready a \<Rightarrow> Some (Ready a, s2)
         | Finished \<Rightarrow> if cs_exhausted s1 then Some (Finished, s2) else poll_next (fst (snd r)) s2
         | Pending \<Rightarrow> Some (Pending, s2))"

text \<open>Polls one after the other: the items they give.\<close>

fun polls :: "nat list list \<Rightarrow> 'a select \<Rightarrow> ('a list \<times> 'a select) option" where
  "polls [] s = Some ([], s)"
| "polls (w # ws) s =
     (case poll_next w s of
        None \<Rightarrow> None
      | Some (Ready a, s') \<Rightarrow> map_option (\<lambda>(out, s''). (a # out, s'')) (polls ws s')
      | Some (Finished, s') \<Rightarrow> polls ws s'
      | Some (Pending, s') \<Rightarrow> polls ws s')"

definition select_done :: "'a select \<Rightarrow> bool" where
  "select_done s \<longleftrightarrow> cs_exhausted s \<and> cs_iter s = [] \<and> cs_active s = []"

subsection \<open>Streams that are left\<close>

definition left_streams :: "'a select \<Rightarrow> 'a list list" where
  "left_streams s = cs_active s @ cs_iter s"

definition select_ok :: "'a select \<Rightarrow> bool" where
  "select_ok s \<longleftrightarrow> 0 < cs_limit s \<and> length (cs_active s) \<le> cs_limit s \<and> (cs_exhausted s \<longrightarrow> cs_iter s = [])"

lemma refill_cases:
  "\<not> cs_exhausted s \<and> length (cs_active s) < cs_limit s \<Longrightarrow> cs_iter s = [] \<Longrightarrow> refill s = refill (s\<lparr>cs_exhausted := True\<rparr>)"
  "\<not> cs_exhausted s \<and> length (cs_active s) < cs_limit s \<Longrightarrow> cs_iter s = st # rest \<Longrightarrow>
     refill s = refill (s\<lparr>cs_iter := rest, cs_active := cs_active s @ [st]\<rparr>)"
  "\<not> (\<not> cs_exhausted s \<and> length (cs_active s) < cs_limit s) \<Longrightarrow> refill s = s"
  by (subst refill.simps, auto)+

lemma refill_facts:
  "left_streams (refill s) = left_streams s \<and> cs_limit (refill s) = cs_limit s \<and> (select_ok s \<longrightarrow> select_ok (refill s)) \<and>
   (cs_exhausted (refill s) \<or> cs_limit s \<le> length (cs_active (refill s)))"
proof (induction s rule: refill.induct)
  case (1 s)
  show ?case
  proof (cases "\<not> cs_exhausted s \<and> length (cs_active s) < cs_limit s")
    case True
    show ?thesis
    proof (cases "cs_iter s")
      case Nil
      with "1.IH"(1)[OF True Nil] refill_cases(1)[OF True Nil] show ?thesis by (auto simp: left_streams_def select_ok_def)
    next
      case (Cons st rest)
      with "1.IH"(2)[OF True Cons] refill_cases(2)[OF True Cons] True show ?thesis
        by (simp add: left_streams_def select_ok_def)
    qed
  next
    case False
    then have "refill s = s" by (rule refill_cases(3))
    with False show ?thesis by auto
  qed
qed

text \<open>What polling the active streams does: ended streams go, and one item may be taken.\<close>

inductive took :: "'a list list \<Rightarrow> 'a option \<Rightarrow> 'a list list \<Rightarrow> bool" where
  none: "took sts None sts"
| ended: "took (xs @ ys) r sts' \<Longrightarrow> took (xs @ [] # ys) r sts'"
| item: "took (xs @ (a # as) # ys) (Some a) (xs @ as # ys)"

lemma drop_nth_split: "k < length xs \<Longrightarrow> \<exists>as bs. xs = as @ xs ! k # bs \<and> drop_nth k xs = as @ bs"
  by (metis drop_nth_def id_take_nth_drop)

lemma update_split: "k < length xs \<Longrightarrow> \<exists>as bs. xs = as @ xs ! k # bs \<and> xs[k := y] = as @ y # bs"
  by (metis id_take_nth_drop upd_conv_take_nth_drop)

lemma took_more: "took sts r sts' \<Longrightarrow> took (sts @ us) r (sts' @ us)"
proof (induction rule: took.induct)
  case (ended xs ys r sts')
  from took.ended[of xs "ys @ us" r "sts' @ us"] ended.IH show ?case by simp
next
  case (item xs a as ys)
  from took.item[of xs a as "ys @ us"] show ?case by simp
qed (rule took.none)

lemma select_all_took:
  assumes "select_all woken active = (r, woken', active')"
  shows "length active' \<le> length active \<and> took active (case r of Ready a \<Rightarrow> Some a | _ \<Rightarrow> None) active' \<and>
    (r = Finished \<longleftrightarrow> active' = [] \<and> (\<forall>a. r \<noteq> Ready a)) \<and>
    (r = Pending \<longrightarrow> length woken \<le> length active) \<and>
    (r = Finished \<longrightarrow> length woken = length woken' + length active)"
  using assms
proof (induction woken active arbitrary: r woken' active' rule: select_all.induct)
  case (1 active)
  then show ?case by (cases "active = []") (auto intro: took.none)
next
  case (2 k ks active)
  show ?case
  proof (cases "active = []")
    case True
    with 2 show ?thesis by (auto intro: took.none)
  next
    case False
    let ?k = "k mod length active"
    have k: "?k < length active" using False by simp
    show ?thesis
    proof (cases "active ! ?k")
      case Nil
      obtain as bs where sp: "active = as @ [] # bs" "drop_nth ?k active = as @ bs"
        using drop_nth_split[OF k] Nil by metis
      from "2.IH"[OF False Nil, of r woken' active'] "2.prems" False Nil sp show ?thesis
        by (auto intro: took.ended)
    next
      case (Cons a rest)
      obtain as bs where sp: "active = as @ (a # rest) # bs" "active[?k := rest] = as @ rest # bs"
        using update_split[OF k, of rest] Cons by metis
      with "2.prems" False Cons have "r = Ready a" "active' = as @ rest # bs" by simp_all
      with sp(1) show ?thesis by (auto intro: took.item)
    qed
  qed
qed

lemma took_trans: "took sts q sts' \<Longrightarrow> q = None \<Longrightarrow> took sts' r sts'' \<Longrightarrow> took sts r sts''"
  by (induction rule: took.induct) (auto intro: took.ended)

definition item_of :: "'a poll \<Rightarrow> 'a option" where
  "item_of r = (case r of Ready a \<Rightarrow> Some a | _ \<Rightarrow> None)"

text \<open>With a limit every poll returns, and it does to the streams what it should.\<close>

lemma poll_next_spec:
  assumes "select_ok s"
  shows "\<exists>r s'. poll_next woken s = Some (r, s') \<and> select_ok s' \<and> took (left_streams s) (item_of r) (left_streams s') \<and>
    (r = Finished \<longrightarrow> select_done s') \<and> (r = Pending \<longrightarrow> length woken \<le> length (left_streams s)) \<and>
    cs_limit s' = cs_limit s"
  using assms
proof (induction "length (left_streams s)" arbitrary: s woken rule: less_induct)
  case less
  let ?s1 = "refill s"
  have f: "left_streams ?s1 = left_streams s" "cs_limit ?s1 = cs_limit s" "select_ok ?s1"
    "cs_exhausted ?s1 \<or> cs_limit s \<le> length (cs_active ?s1)"
    using refill_facts[of s] less.prems by auto
  obtain r woken' active' where sel: "select_all woken (cs_active ?s1) = (r, woken', active')" by (metis prod.exhaust)
  let ?s2 = "?s1\<lparr>cs_active := active'\<rparr>"
  note t = select_all_took[OF sel]
  have left: "left_streams ?s2 = active' @ cs_iter ?s1" "left_streams s = cs_active ?s1 @ cs_iter ?s1"
    using f(1) by (simp_all add: left_streams_def)
  have ok: "select_ok ?s2" using f(3) t by (auto simp: select_ok_def)
  have tk: "took (left_streams s) (item_of r) (left_streams ?s2)"
    using took_more[OF conjunct1[OF conjunct2[OF t]], of "cs_iter ?s1"] by (simp add: left item_of_def)
  note unfold = poll_next.simps[of woken s]
  show ?case
  proof (cases "r = Finished \<and> \<not> cs_exhausted ?s1")
    case True
    with f(2-4) t less.prems have "cs_active ?s1 \<noteq> []" "active' = []" by (auto simp: select_ok_def)
    moreover have "length (left_streams ?s2) = length active' + length (cs_iter ?s1)"
      "length (left_streams s) = length (cs_active ?s1) + length (cs_iter ?s1)" by (simp_all only: left length_append)
    ultimately have "length (left_streams ?s2) < length (left_streams s)" by simp
    from less.hyps[OF this ok, of woken'] obtain r' s' where
      h: "poll_next woken' ?s2 = Some (r', s')" "select_ok s'" "took (left_streams ?s2) (item_of r') (left_streams s')"
        "r' = Finished \<longrightarrow> select_done s'" "r' = Pending \<longrightarrow> length woken' \<le> length (left_streams ?s2)"
        "cs_limit s' = cs_limit ?s2" by blast
    have "poll_next woken s = Some (r', s')" using h(1) sel True by (simp add: unfold Let_def)
    moreover have "took (left_streams s) (item_of r') (left_streams s')"
      using took_trans[OF tk _ h(3)] True by (simp add: item_of_def)
    moreover have "r' = Pending \<longrightarrow> length woken \<le> length (left_streams s)"
      using h(5) t True left by auto
    ultimately show ?thesis using h f(2) by auto
  next
    case False
    then have "poll_next woken s = Some (r, ?s2)"
      using sel by (cases r) (auto simp: unfold Let_def)
    moreover have "r = Finished \<longrightarrow> select_done ?s2" using False t f(3) by (auto simp: select_done_def select_ok_def)
    moreover have "r = Pending \<longrightarrow> length woken \<le> length (left_streams s)" using t left by auto
    ultimately show ?thesis using ok tk f(2) by auto
  qed
qed

subsection \<open>The items do not matter\<close>

definition map_select :: "('a \<Rightarrow> 'b) \<Rightarrow> 'a select \<Rightarrow> 'b select" where
  "map_select f s = \<lparr>cs_iter = map (map f) (cs_iter s), cs_active = map (map f) (cs_active s), cs_limit = cs_limit s,
     cs_exhausted = cs_exhausted s\<rparr>"

lemma map_select_simps [simp]:
  "cs_iter (map_select f s) = map (map f) (cs_iter s)" "cs_active (map_select f s) = map (map f) (cs_active s)"
  "cs_limit (map_select f s) = cs_limit s" "cs_exhausted (map_select f s) = cs_exhausted s"
  "map_select f (s\<lparr>cs_active := a\<rparr>) = (map_select f s)\<lparr>cs_active := map (map f) a\<rparr>"
  by (simp_all add: map_select_def)

lemma refill_map: "refill (map_select f s) = map_select f (refill s)"
proof (induction s rule: refill.induct)
  case (1 s)
  let ?t = "map_select f s"
  show ?case
  proof (cases "\<not> cs_exhausted s \<and> length (cs_active s) < cs_limit s")
    case True
    then have go: "\<not> cs_exhausted ?t \<and> length (cs_active ?t) < cs_limit ?t" by simp
    show ?thesis
    proof (cases "cs_iter s")
      case Nil
      have "refill ?t = refill (?t\<lparr>cs_exhausted := True\<rparr>)" by (rule refill_cases(1)[OF go]) (simp add: Nil)
      also have "?t\<lparr>cs_exhausted := True\<rparr> = map_select f (s\<lparr>cs_exhausted := True\<rparr>)" by (simp add: map_select_def)
      finally show ?thesis using "1.IH"(1)[OF True Nil] refill_cases(1)[OF True Nil] by simp
    next
      case (Cons st rest)
      have "refill ?t = refill (?t\<lparr>cs_iter := map (map f) rest, cs_active := cs_active ?t @ [map f st]\<rparr>)"
        by (rule refill_cases(2)[OF go]) (simp add: Cons)
      also have "?t\<lparr>cs_iter := map (map f) rest, cs_active := cs_active ?t @ [map f st]\<rparr> =
          map_select f (s\<lparr>cs_iter := rest, cs_active := cs_active s @ [st]\<rparr>)" by (simp add: map_select_def)
      finally show ?thesis using "1.IH"(2)[OF True Cons] refill_cases(2)[OF True Cons] by simp
    qed
  next
    case False
    then show ?thesis using refill_cases(3)[of s] refill_cases(3)[of ?t] by simp
  qed
qed

lemma select_all_map:
  "select_all woken (map (map f) active) =
     (map_poll f (fst (select_all woken active)), fst (snd (select_all woken active)),
      map (map f) (snd (snd (select_all woken active))))"
proof (induction woken active rule: select_all.induct)
  case (2 k ks active)
  show ?case
  proof (cases "active = []")
    case False
    then have k: "k mod length active < length active" by simp
    show ?thesis
      using 2[OF False] False k
      by (cases "active ! (k mod length active)") (simp_all add: drop_nth_def take_map drop_map map_update)
  qed simp
qed simp

lemma poll_next_map:
  assumes "select_ok s"
  shows "poll_next woken (map_select f s) =
    map_option (\<lambda>(r, s'). (map_poll f r, map_select f s')) (poll_next woken s)"
  using assms
proof (induction "length (left_streams s)" arbitrary: s woken rule: less_induct)
  case less
  let ?s1 = "refill s"
  obtain r woken' active' where sel: "select_all woken (cs_active ?s1) = (r, woken', active')" by (metis prod.exhaust)
  let ?s2 = "?s1\<lparr>cs_active := active'\<rparr>"
  note t = select_all_took[OF sel]
  have f: "left_streams ?s1 = left_streams s" "cs_limit ?s1 = cs_limit s" "select_ok ?s1"
    "cs_exhausted ?s1 \<or> cs_limit s \<le> length (cs_active ?s1)"
    using refill_facts[of s] less.prems by auto
  note unfold = poll_next.simps[of woken s] poll_next.simps[of woken "map_select f s"]
  have sel': "select_all woken (map (map f) (cs_active ?s1)) = (map_poll f r, woken', map (map f) active')"
    using select_all_map[of woken f "cs_active ?s1"] sel by simp
  show ?case
  proof (cases "r = Finished \<and> \<not> cs_exhausted ?s1")
    case True
    with f(2-4) t less.prems have "cs_active ?s1 \<noteq> []" "active' = []" by (auto simp: select_ok_def)
    then have "length (left_streams ?s2) < length (left_streams ?s1)" by (simp add: left_streams_def)
    with f(1) have shorter: "length (left_streams ?s2) < length (left_streams s)" by simp
    have ok: "select_ok ?s2" using f(3) t by (auto simp: select_ok_def)
    show ?thesis using less.hyps[OF shorter ok, of woken'] True sel sel'
      by (simp add: unfold refill_map Let_def)
  next
    case False
    then show ?thesis using sel sel' by (cases r) (auto simp: unfold refill_map Let_def)
  qed
qed

lemma polls_map:
  assumes "select_ok s"
  shows "polls ws (map_select f s) = map_option (\<lambda>(out, s'). (map f out, map_select f s')) (polls ws s)"
  using assms
proof (induction ws arbitrary: s)
  case (Cons w ws)
  obtain r s1 where p: "poll_next w s = Some (r, s1)" "select_ok s1"
    using poll_next_spec[OF Cons.prems, of w] by blast
  show ?case using Cons.IH[OF p(2)] poll_next_map[OF Cons.prems, of w f] p(1)
    by (cases r) (simp_all add: option.map_comp comp_def case_prod_beta)
qed simp

subsection \<open>What a run gives\<close>

text \<open>Items that carry the number of their stream.\<close>

definition tagged :: "('i \<times> 'b) list list \<Rightarrow> bool" where
  "tagged sts \<longleftrightarrow> (\<exists>ids. distinct ids \<and> list_all2 (\<lambda>i st. \<forall>p \<in> set st. fst p = i) ids sts)"

definition proj :: "'i \<Rightarrow> ('i \<times> 'b) list \<Rightarrow> 'b list" where
  "proj i ps = map snd (filter (\<lambda>p. fst p = i) ps)"

lemma proj_simps [simp]:
  "proj i [] = []" "proj i (p # ps) = (if fst p = i then snd p # proj i ps else proj i ps)"
  "proj i (ps @ qs) = proj i ps @ proj i qs"
  by (simp_all add: proj_def)

lemma tagged_split:
  assumes "tagged (xs @ st # ys)"
  shows "tagged (xs @ ys)" "(\<And>p. p \<in> set st' \<Longrightarrow> p \<in> set st) \<Longrightarrow> tagged (xs @ st' # ys)"
    "p \<in> set st \<Longrightarrow> proj (fst p) (concat xs) = []"
proof -
  from assms obtain ids where ids: "distinct ids" "list_all2 (\<lambda>i st. \<forall>p \<in> set st. fst p = i) ids (xs @ st # ys)"
    by (auto simp: tagged_def)
  then obtain as i bs where s: "ids = as @ i # bs" "list_all2 (\<lambda>i st. \<forall>p \<in> set st. fst p = i) as xs"
    "\<forall>p \<in> set st. fst p = i" "list_all2 (\<lambda>i st. \<forall>p \<in> set st. fst p = i) bs ys"
    by (auto simp: list_all2_append2 list_all2_Cons2)
  show "tagged (xs @ ys)" unfolding tagged_def
    by (rule exI[of _ "as @ bs"]) (use s ids(1) in \<open>auto intro: list_all2_appendI\<close>)
  show "tagged (xs @ st' # ys)" if "\<And>p. p \<in> set st' \<Longrightarrow> p \<in> set st" unfolding tagged_def
    by (rule exI[of _ "as @ i # bs"]) (use s ids(1) that in \<open>auto intro!: list_all2_appendI\<close>)
  have "fst q \<in> set as" if "q \<in> set (concat xs)" for q
    using that s(2) by (auto simp: list_all2_conv_all_nth in_set_conv_nth) (metis nth_mem)
  then show "proj (fst p) (concat xs) = []" if "p \<in> set st"
    using s(1,3) ids(1) that by (auto simp: proj_def filter_empty_conv)
qed

lemma took_proj:
  "took sts r sts' \<Longrightarrow> tagged sts \<Longrightarrow> tagged sts' \<and>
   (\<forall>i. proj i (concat sts) = (case r of Some a \<Rightarrow> proj i [a] | None \<Rightarrow> []) @ proj i (concat sts')) \<and>
   length (concat sts) = (case r of Some _ \<Rightarrow> 1 | None \<Rightarrow> 0) + length (concat sts') \<and> length sts' \<le> length sts"
proof (induction rule: took.induct)
  case (ended xs ys r sts')
  with tagged_split(1)[OF ended.prems] show ?case by auto
next
  case (item xs a as ys)
  have "tagged (xs @ as # ys)" by (rule tagged_split(2)[OF item]) simp
  moreover have "proj (fst a) (concat xs) = []" by (rule tagged_split(3)[OF item]) simp
  ultimately show ?case by auto
qed simp

lemma polls_spec:
  assumes "select_ok s" and "tagged (left_streams s)"
  shows "\<exists>out s'. polls ws s = Some (out, s') \<and> select_ok s' \<and> tagged (left_streams s') \<and>
    (\<forall>i. proj i (concat (left_streams s)) = proj i out @ proj i (concat (left_streams s'))) \<and> cs_limit s' = cs_limit s"
  using assms
proof (induction ws arbitrary: s)
  case (Cons w ws)
  from poll_next_spec[OF Cons.prems(1), of w] obtain r s1 where
    p: "poll_next w s = Some (r, s1)" "select_ok s1" "took (left_streams s) (item_of r) (left_streams s1)"
      "cs_limit s1 = cs_limit s" by blast
  note t = took_proj[OF p(3) Cons.prems(2)]
  from Cons.IH[OF p(2)] t obtain out s' where h: "polls ws s1 = Some (out, s')" "select_ok s'" "tagged (left_streams s')"
    "\<forall>i. proj i (concat (left_streams s1)) = proj i out @ proj i (concat (left_streams s'))" "cs_limit s' = cs_limit s1" by blast
  show ?case
  proof (cases r)
    case (Ready a)
    with p h t show ?thesis by (intro exI[of _ "a # out"] exI[of _ s']) (auto simp: item_of_def)
  qed (use p h t in \<open>auto simp: item_of_def\<close>)
qed simp

text \<open>The streams of a batch, each item with the number of its stream.\<close>

definition tag_streams :: "'b list list \<Rightarrow> (nat \<times> 'b) list list" where
  "tag_streams sts = map (\<lambda>(k, st). map (Pair k) st) (enumerate 0 sts)"

lemma tagged_tag_streams: "tagged (tag_streams sts)"
  unfolding tagged_def
  by (rule exI[of _ "[0..<length sts]"]) (auto simp: tag_streams_def enumerate_eq_zip list_all2_conv_all_nth)

lemma proj_map_Pair: "proj k (map (Pair n) st) = (if n = k then st else [])"
  by (induction st) auto

lemma proj_enumerate:
  "proj k (concat (map (\<lambda>(k, st). map (Pair k) st) (enumerate n sts))) = (if n \<le> k \<and> k < n + length sts then sts ! (k - n) else [])"
proof (induction sts arbitrary: n)
  case (Cons st sts)
  show ?case
  proof (cases "n = k")
    case False
    then have "n < k \<Longrightarrow> k - n = Suc (k - Suc n)" by simp
    with False Cons[of "Suc n"] show ?thesis by (auto simp: proj_map_Pair)
  next
    case True
    with Cons[of "Suc k"] show ?thesis by (simp add: proj_map_Pair)
  qed
qed auto

lemma proj_tag_streams: "proj k (concat (tag_streams sts)) = (if k < length sts then sts ! k else [])"
  using proj_enumerate[of k 0 sts] by (simp add: tag_streams_def)

lemma select_init_ok: "0 < limit \<Longrightarrow> select_ok (select_init sts limit)" "left_streams (select_init sts limit) = sts"
  by (simp_all add: select_ok_def select_init_def left_streams_def)

lemma select_merged:
  assumes "0 < limit" and "polls ws (select_init (map (map f) sts) limit) = Some (out, s)" and "select_done s"
  shows "\<exists>tout. out = map (f \<circ> snd) tout \<and> (\<forall>k. proj k tout = (if k < length sts then sts ! k else []))"
proof -
  let ?s = "select_init (tag_streams sts) limit"
  have "map (map (f \<circ> snd)) (tag_streams sts) = map (map f \<circ> snd) (enumerate 0 sts)"
    by (auto simp: tag_streams_def comp_def)
  also have "\<dots> = map (map f) sts" by (simp flip: map_map)
  finally have init: "map_select (f \<circ> snd) ?s = select_init (map (map f) sts) limit"
    by (simp add: map_select_def select_init_def)
  have "select_ok ?s" "tagged (left_streams ?s)" by (simp_all add: select_init_ok(1)[OF assms(1)] select_init_ok(2) tagged_tag_streams)
  from polls_spec[OF this, of ws] polls_map[OF this(1), of ws "f \<circ> snd"] assms(2) obtain tout t where
    t: "out = map (f \<circ> snd) tout" "s = map_select (f \<circ> snd) t"
    "\<And>i. (if i < length sts then sts ! i else []) = proj i tout @ proj i (concat (left_streams t))"
    by (auto simp: init select_init_ok(2)[of "tag_streams sts" limit] proj_tag_streams)
  from assms(3) t(2) have "left_streams t = []" by (simp add: select_done_def left_streams_def)
  with t(1,3) show ?thesis by (intro exI[of _ tout]) simp
qed

text \<open>
  The merged stream is an interleaving of the streams of the batch. Whatever is ready
  whenever it is polled, it has at most \<open>limit\<close> streams running, what it has given so far of each stream
  is a prefix of that stream, in order, and nothing else; when it ends it has given all of every
  stream.
\<close>

theorem select_merges:
  assumes "0 < limit"
  shows "\<exists>out s. polls ws (select_init (tag_streams sts) limit) = Some (out, s) \<and> length (cs_active s) \<le> limit \<and>
    (\<forall>k. prefix (proj k out) (if k < length sts then sts ! k else [])) \<and>
    (if select_done s then \<forall>k. proj k out = (if k < length sts then sts ! k else []) else True)"
proof -
  let ?s = "select_init (tag_streams sts) limit"
  have "select_ok ?s" "tagged (left_streams ?s)" by (simp_all add: select_init_ok(1)[OF assms] select_init_ok(2) tagged_tag_streams)
  from polls_spec[OF this, of ws] obtain out s where s: "polls ws ?s = Some (out, s)" "select_ok s"
    "\<And>i. (if i < length sts then sts ! i else []) = proj i out @ proj i (concat (left_streams s))" "cs_limit s = cs_limit ?s"
    by (auto simp: select_init_ok(2)[of "tag_streams sts" limit] proj_tag_streams)
  then have "length (cs_active s) \<le> limit" by (simp add: select_ok_def select_init_def)
  moreover have "prefix (proj k out) (if k < length sts then sts ! k else [])" for k unfolding s(3) by simp
  moreover have "proj k out = (if k < length sts then sts ! k else [])" if "select_done s" for k
    using that s(3)[of k] by (simp add: select_done_def left_streams_def)
  ultimately show ?thesis using s(1) by (intro exI[of _ out] exI[of _ s]) simp
qed

theorem select_merges_witness:
  "\<exists>out s. polls [[0], [1], [1, 0], [0]] (select_init (tag_streams [''ab'', ''c'', ''d'']) 2) = Some (out, s) \<and>
     length (cs_active s) \<le> 2 \<and> prefix (proj 0 out) ''ab''"
proof -
  have "(0 :: nat) < 2" by simp
  from select_merges[OF this, of "[[0], [1], [1, 0], [0]]" "[''ab'', ''c'', ''d'']"] obtain out s where
    "polls [[0], [1], [1, 0], [0]] (select_init (tag_streams [''ab'', ''c'', ''d'']) 2) = Some (out, s)" "length (cs_active s) \<le> 2"
    and p: "\<forall>k. prefix (proj k out) (if k < length [''ab'', ''c'', ''d''] then [''ab'', ''c'', ''d''] ! k else [])" by blast
  moreover from p[rule_format, of 0] have "prefix (proj 0 out) ''ab''" by simp
  ultimately show ?thesis by blast
qed

text \<open>When every stream is ready at every poll, each poll gives an item until all are given.\<close>

lemma polls_ready:
  assumes "select_ok s" and "tagged (left_streams s)" and "list_all (\<lambda>w. length (left_streams s) < length w) ws"
    and "length (concat (left_streams s)) < length ws"
  shows "\<exists>out s'. polls ws s = Some (out, s') \<and> select_done s' \<and> length out = length (concat (left_streams s))"
  using assms
proof (induction ws arbitrary: s)
  case (Cons w ws)
  from poll_next_spec[OF Cons.prems(1), of w] obtain r s1 where
    p: "poll_next w s = Some (r, s1)" "select_ok s1" "took (left_streams s) (item_of r) (left_streams s1)"
      "r = Finished \<longrightarrow> select_done s1" "r = Pending \<longrightarrow> length w \<le> length (left_streams s)" by blast
  note t = took_proj[OF p(3) Cons.prems(2)]
  show ?case
  proof (cases r)
    case (Ready a)
    have w: "list_all (\<lambda>w. length (left_streams s1) < length w) ws"
      using Cons.prems(3) t by (auto simp: list_all_iff)
    have "length (concat (left_streams s1)) < length ws" using Cons.prems(4) t Ready by (simp add: item_of_def)
    with Cons.IH[OF p(2) _ w] t p(1) Ready show ?thesis by (auto simp: item_of_def)
  next
    case Finished
    have stays: "polls us s1 = Some ([], s1)" if "select_done s1" for us
    proof (induction us)
      case (Cons u us)
      have "refill s1 = s1" using that by (intro refill_cases(3)) (simp add: select_done_def)
      then have "poll_next u s1 = Some (Finished, s1)"
        using that by (subst poll_next.simps) (cases s1, simp add: select_done_def Let_def)
      with Cons show ?case by simp
    qed simp
    have "length (concat (left_streams s)) = 0" using Finished p(4) t by (simp add: item_of_def select_done_def left_streams_def)
    with stays p(1,4) Finished show ?thesis by simp
  next
    case Pending
    with p(5) Cons.prems(3) show ?thesis by simp
  qed
qed simp

text \<open>
  Property C18: the merged stream terminates. Every poll returns, in every state, as the limit is at
  least one; and when all streams are ready whenever it is polled, one poll more than there are
  items is enough to end it, with every item given.
\<close>

theorem select_terminates:
  assumes "0 < limit" and "list_all (\<lambda>w. length sts < length w) ws" and "length (concat sts) < length ws"
  shows "(\<forall>us out s. polls us (select_init (tag_streams sts) limit) = Some (out, s) \<longrightarrow> (\<forall>w. poll_next w s \<noteq> None)) \<and>
    (\<exists>out s. polls ws (select_init (tag_streams sts) limit) = Some (out, s) \<and> select_done s \<and> length out = length (concat sts))"
proof -
  let ?s = "select_init (tag_streams sts) limit"
  have ok: "select_ok ?s" "tagged (left_streams ?s)" by (simp_all add: select_init_ok(1)[OF assms(1)] select_init_ok(2) tagged_tag_streams)
  have "map length (tag_streams sts) = map length sts"
    by (rule nth_equalityI) (simp_all add: tag_streams_def enumerate_eq_zip)
  then have len: "length (tag_streams sts) = length sts" "length (concat (tag_streams sts)) = length (concat sts)"
    by (metis length_map, simp add: length_concat)
  have "poll_next w s \<noteq> None" if "polls us ?s = Some (out, s)" for us out s w
    using polls_spec[OF ok, of us] that poll_next_spec[of s w] by auto
  moreover have "\<exists>out s. polls ws ?s = Some (out, s) \<and> select_done s \<and> length out = length (concat sts)"
    using polls_ready[OF ok, of ws] assms(2,3) len by (simp add: select_init_ok(2)[of "tag_streams sts" limit])
  ultimately show ?thesis by blast
qed

theorem select_terminates_witness:
  "\<exists>out s. polls (replicate 3 [0, 0, 0]) (select_init (tag_streams [''a'', ''b'']) 1) = Some (out, s) \<and> select_done s \<and>
     length out = 2"
proof -
  have "list_all (\<lambda>w. length [''a'', ''b''] < length w) (replicate 3 [0, 0, 0 :: nat])"
    "length (concat [''a'', ''b'']) < length (replicate 3 [0, 0, 0 :: nat])" "length (concat [''a'', ''b'']) = 2"
    by (simp_all add: list_all_iff)
  with select_terminates[OF zero_less_one, of "[''a'', ''b'']" "replicate 3 [0, 0, 0]"] show ?thesis by metis
qed

text \<open>
  A free place is not always used. A poll that finds a stream ended and the others
  waiting returns \<open>Pending\<close> with fewer than \<open>limit\<close> streams running and a stream not yet started;
  nothing polls the merged stream again before one of the waiting streams wakes.
\<close>

theorem select_leaves_place_free:
  "\<exists>s s'. polls [[0]] (select_init [''a'', ''b'', ''c''] 2) = Some (''a'', s) \<and> poll_next [0] s = Some (Pending, s') \<and>
     cs_active s' = [''b''] \<and> cs_iter s' = [''c''] \<and> length (cs_active s') < cs_limit s'"
proof -
  have r1: "refill (select_init [''a'', ''b'', ''c''] 2) = \<lparr>cs_iter = [''c''], cs_active = [''a'', ''b''], cs_limit = 2, cs_exhausted = False\<rparr>"
    by (simp add: select_init_def refill.simps)
  have p1: "poll_next [0] (select_init [''a'', ''b'', ''c''] 2) =
      Some (Ready CHR ''a'', \<lparr>cs_iter = [''c''], cs_active = [[], ''b''], cs_limit = 2, cs_exhausted = False\<rparr>)"
    by (subst poll_next.simps) (simp add: r1 Let_def)
  let ?s = "\<lparr>cs_iter = [''c''], cs_active = [[], ''b''], cs_limit = 2, cs_exhausted = False\<rparr>"
  have "refill ?s = ?s" by (subst refill.simps) simp
  then have p2: "poll_next [0] ?s = Some (Pending, \<lparr>cs_iter = [''c''], cs_active = [''b''], cs_limit = 2, cs_exhausted = False\<rparr>)"
    by (subst poll_next.simps) (simp add: Let_def drop_nth_def)
  show ?thesis using p1 p2 by simp
qed

end
