(* ===== verification/Ad_Adapter.thy ===== *)
theory Ad_Adapter
  imports Ad_Select Gw_Stream Gw_Machine
begin

text \<open>
  The Rust adapter (\<^verbatim>\<open>lambda-kit/adapter-rust/src/lib.rs\<close>), which lets a handler of single requests serve
  the batches of the gateway: the responses of a handler, the buffered adapter with its bounded
  concurrency, and the records of the streaming adapter.

  The handler is a parameter: it answers an item with a response, or fails (\<open>None\<close>; the code looks at no
  error value). The body stream of a response is the list of the chunks it gives. The request type
  is a parameter too, with its correlation id.
\<close>

subsection \<open>Responses of a handler\<close>

datatype response_chunk = ChunkText string | ChunkBinary bytes

datatype handler_body = BodyEmpty | BodyText string | BodyBinary bytes | BodyStream "response_chunk list"

record handler_response =
  hr_status_code :: nat
  hr_headers :: "(string, string) hashmap"
  hr_cookies :: "string list"
  hr_body :: handler_body
  hr_is_base64_encoded :: bool

definition handler_response_default :: handler_response where
  "handler_response_default =
     \<lparr>hr_status_code = 200, hr_headers = [], hr_cookies = [], hr_body = BodyEmpty, hr_is_base64_encoded = False\<rparr>"

definition handler_response_text :: "nat \<Rightarrow> string \<Rightarrow> handler_response" where
  "handler_response_text status_code body =
     \<lparr>hr_status_code = status_code, hr_headers = [], hr_cookies = [], hr_body = BodyText body, hr_is_base64_encoded = False\<rparr>"

definition handler_response_binary :: "nat \<Rightarrow> bytes \<Rightarrow> handler_response" where
  "handler_response_binary status_code body =
     \<lparr>hr_status_code = status_code, hr_headers = [], hr_cookies = [], hr_body = BodyBinary body, hr_is_base64_encoded = True\<rparr>"

fun normalize_cookies :: "string list \<Rightarrow> string list" where
  "normalize_cookies [] = []"
| "normalize_cookies (c # cs) = (let c = trim c in if c = [] then normalize_cookies cs else c # normalize_cookies cs)"

fun normalize_headers :: "(string, string) hashmap \<Rightarrow> (string, string) hashmap" where
  "normalize_headers [] = []"
| "normalize_headers ((k, v) # headers) =
     (if trim k = [] then normalize_headers headers else (k, v) # normalize_headers headers)"

text \<open>What the code reads of an \<^verbatim>\<open>ApiGatewayV2httpResponse\<close>.\<close>

datatype apigw_body = AgEmpty | AgText string | AgBinary bytes | AgOther

record apigw_response =
  ag_status_code :: int
  ag_headers :: header_map
  ag_cookies :: "string list"
  ag_body :: "apigw_body option"
  ag_is_base64_encoded :: bool

fun readable_headers :: "ext \<Rightarrow> header_map \<Rightarrow> (string, string) hashmap \<Rightarrow> (string, string) hashmap" where
  "readable_headers x [] headers = headers"
| "readable_headers x ((name, v) # hs) headers =
     (if x_to_str x v then readable_headers x hs (hm_insert name v headers) else readable_headers x hs headers)"

definition from_apigw_response :: "ext \<Rightarrow> apigw_response \<Rightarrow> handler_response" where
  "from_apigw_response x value =
     \<lparr>hr_status_code =
        (if ag_status_code value \<le> 0 then 200
         else if ag_status_code value > 65535 then 65535 else nat (ag_status_code value)),
      hr_headers = readable_headers x (ag_headers value) [],
      hr_cookies = normalize_cookies (ag_cookies value),
      hr_body = (case ag_body value of
          Some AgEmpty \<Rightarrow> BodyEmpty | Some (AgText s) \<Rightarrow> BodyText s | Some (AgBinary b) \<Rightarrow> BodyBinary b
        | Some AgOther \<Rightarrow> BodyEmpty | None \<Rightarrow> BodyEmpty),
      hr_is_base64_encoded = ag_is_base64_encoded value\<rparr>"

text \<open>
  A response converted from an API Gateway response: a header has its last readable value, the status
  is one the wire can carry, and no cookie is blank.
\<close>

lemma readable_headers_fold:
  "readable_headers x hs headers = fold (\<lambda>(k, v). hm_insert k v) (filter (\<lambda>(k, v). x_to_str x v) hs) headers"
  by (induction x hs headers rule: readable_headers.induct) auto

lemma normalize_cookies_trimmed: "c \<in> set (normalize_cookies cs) \<Longrightarrow> c \<noteq> [] \<and> trim c = c"
  by (induction cs rule: normalize_cookies.induct) (auto simp: Let_def split: if_splits)

theorem from_apigw_response_normal:
  "hm_get (hr_headers (from_apigw_response x r)) = map_of (rev (filter (\<lambda>(k, v). x_to_str x v) (ag_headers r))) \<and>
   hm_ok (hr_headers (from_apigw_response x r)) \<and>
   0 < hr_status_code (from_apigw_response x r) \<and> hr_status_code (from_apigw_response x r) < 65536 \<and>
   (\<forall>c \<in> set (hr_cookies (from_apigw_response x r)). c \<noteq> [] \<and> trim c = c)"
proof -
  have "hm_get (hr_headers (from_apigw_response x r)) = map_of (rev (filter (\<lambda>(k, v). x_to_str x v) (ag_headers r)))"
    "hm_ok (hr_headers (from_apigw_response x r))"
    using hash.lookup_many[of "filter (\<lambda>(k, v). x_to_str x v) (ag_headers r)" "[]"]
      hash.ok_many[of "[]" "filter (\<lambda>(k, v). x_to_str x v) (ag_headers r)"]
    by (simp_all add: from_apigw_response_def readable_headers_fold)
  then show ?thesis
    by (auto simp: from_apigw_response_def dest: normalize_cookies_trimmed)
qed

definition normalize_concurrency :: "nat \<Rightarrow> nat" where
  "normalize_concurrency value = max value 1"

definition normalize_body :: "ext \<Rightarrow> handler_body \<Rightarrow> bool \<Rightarrow> string + string \<times> bool" where
  "normalize_body x body is_base64_encoded =
     (case body of
        BodyEmpty \<Rightarrow> Inr ([], is_base64_encoded)
      | BodyText s \<Rightarrow> Inr (s, is_base64_encoded)
      | BodyBinary bs \<Rightarrow> Inr (x_b64_enc x bs, True)
      | BodyStream _ \<Rightarrow> Inl ''streaming body is not supported in buffered mode'')"

subsection \<open>Batch events and responses\<close>

record 't batch_request_event =
  be_v :: nat
  be_batch :: "'t list"
  be_meta :: "json option"

definition dec_batch_request_event :: "(json \<Rightarrow> 't option) \<Rightarrow> json \<Rightarrow> 't batch_request_event option" where
  "dec_batch_request_event dec_item j = do {
     fs \<leftarrow> struct_view [''v'', ''batch'', ''meta''] j;
     v \<leftarrow> def_field ''v'' dec_u8 0 fs;
     batch \<leftarrow> def_field ''batch'' (dec_list dec_item) [] fs;
     meta \<leftarrow> def_field ''meta'' (dec_option (Some \<circ> to_value)) None fs;
     Some \<lparr>be_v = v, be_batch = batch, be_meta = meta\<rparr>
   }"

record adapter_item =
  ai_id :: string
  ai_status_code :: nat
  ai_headers :: "(string, string) hashmap"
  ai_cookies :: "string list"
  ai_body :: string
  ai_is_base64_encoded :: bool

definition enc_adapter_item :: "adapter_item \<Rightarrow> json" where
  "enc_adapter_item r = JObj ([(''id'', JStr (ai_id r)), (''statusCode'', JInt (int (ai_status_code r))),
     (''headers'', enc_str_map (ai_headers r))] @ list_field ''cookies'' (ai_cookies r) @
     [(''body'', JStr (ai_body r)), (''isBase64Encoded'', JBool (ai_is_base64_encoded r))])"

definition enc_adapter_response :: "adapter_item list \<Rightarrow> json" where
  "enc_adapter_response items = JObj [(''v'', JInt 1), (''responses'', JArr (map enc_adapter_item items))]"

definition error_response_item :: "string \<Rightarrow> adapter_item" where
  "error_response_item i = \<lparr>ai_id = i, ai_status_code = 500, ai_headers = [(''content-type'', ''text/plain'')],
     ai_cookies = [], ai_body = ''internal error'', ai_is_base64_encoded = False\<rparr>"

definition item_request_id :: "('t \<Rightarrow> string option) \<Rightarrow> 't \<Rightarrow> string" where
  "item_request_id req_id item = (case req_id item of Some i \<Rightarrow> i | None \<Rightarrow> [])"

definition response_status :: "handler_response \<Rightarrow> nat" where
  "response_status resp = (if hr_status_code resp = 0 then 200 else hr_status_code resp)"

definition record_of :: "ext \<Rightarrow> ('t \<Rightarrow> string option) \<Rightarrow> ('t \<Rightarrow> handler_response option) \<Rightarrow> 't \<Rightarrow> adapter_item" where
  "record_of x req_id handler item =
     (let i = item_request_id req_id item
      in case handler item of
           None \<Rightarrow> error_response_item i
         | Some resp \<Rightarrow>
             (case normalize_body x (hr_body resp) (hr_is_base64_encoded resp) of
                Inl _ \<Rightarrow> error_response_item i
              | Inr (body, is_base64_encoded) \<Rightarrow>
                  \<lparr>ai_id = i, ai_status_code = response_status resp, ai_headers = normalize_headers (hr_headers resp),
                   ai_cookies = normalize_cookies (hr_cookies resp), ai_body = body,
                   ai_is_base64_encoded = is_base64_encoded\<rparr>))"

subsection \<open>The buffered adapter\<close>

text \<open>
  \<^verbatim>\<open>BatchAdapter::handle\<close>. The iterator holds the numbered items that are not started;
  \<^verbatim>\<open>buffer_unordered\<close> starts them (\<open>BufStart\<close>) while fewer than the limit are running, and the
  handler calls that run end in any order (\<open>BufDone\<close>, with the number of the item). When a call ends,
  \<^verbatim>\<open>for_each\<close> writes its record to its place. The state is that of the call between two such events.
\<close>

record adapter =
  ap_concurrency :: nat
  ap_interleaved :: bool

definition batch_adapter :: adapter where
  "batch_adapter = \<lparr>ap_concurrency = 16, ap_interleaved = False\<rparr>"

definition with_concurrency :: "nat \<Rightarrow> adapter \<Rightarrow> adapter" where
  "with_concurrency concurrency a = a\<lparr>ap_concurrency := normalize_concurrency concurrency\<rparr>"

definition with_interleaved :: "bool \<Rightarrow> adapter \<Rightarrow> adapter" where
  "with_interleaved interleaved a = a\<lparr>ap_interleaved := interleaved\<rparr>"

definition batch_concurrency :: "adapter \<Rightarrow> 't batch_request_event \<Rightarrow> nat" where
  "batch_concurrency a event = min (normalize_concurrency (ap_concurrency a)) (max (length (be_batch event)) 1)"

record 't handling =
  ha_iter :: "(nat \<times> 't) list"
  ha_running :: "(nat \<times> 't) list"
  ha_out :: "adapter_item option list"

datatype handle_event = BufStart | BufDone nat

definition handle_begin :: "'t batch_request_event \<Rightarrow> 't handling" where
  "handle_begin event = \<lparr>ha_iter = enumerate 0 (be_batch event), ha_running = [],
     ha_out = replicate (length (be_batch event)) None\<rparr>"

definition handle_step :: "('t \<Rightarrow> adapter_item) \<Rightarrow> nat \<Rightarrow> handle_event \<Rightarrow> 't handling \<Rightarrow> 't handling option" where
  "handle_step item_rec limit e h =
     (case e of
        BufStart \<Rightarrow>
          (case ha_iter h of
             [] \<Rightarrow> None
           | p # ps \<Rightarrow>
               if length (ha_running h) < limit
               then Some (h\<lparr>ha_iter := ps, ha_running := ha_running h @ [p]\<rparr>) else None)
      | BufDone idx \<Rightarrow>
          (case map_of (ha_running h) idx of
             None \<Rightarrow> None
           | Some item \<Rightarrow> Some (h\<lparr>ha_running := filter (\<lambda>p. fst p \<noteq> idx) (ha_running h),
               ha_out := (ha_out h)[idx := Some (item_rec item)]\<rparr>)))"

fun handle_run :: "('t \<Rightarrow> adapter_item) \<Rightarrow> nat \<Rightarrow> handle_event list \<Rightarrow> 't handling \<Rightarrow> 't handling option" where
  "handle_run item_rec limit [] h = Some h"
| "handle_run item_rec limit (e # es) h =
     (case handle_step item_rec limit e h of None \<Rightarrow> None | Some h' \<Rightarrow> handle_run item_rec limit es h')"

fun flatten :: "'a option list \<Rightarrow> 'a list" where
  "flatten [] = []"
| "flatten (None # os) = flatten os"
| "flatten (Some a # os) = a # flatten os"

text \<open>What \<^verbatim>\<open>handle\<close> returns; \<open>None\<close> while it still waits.\<close>

definition handle_result :: "'t handling \<Rightarrow> adapter_item list option" where
  "handle_result h = (if ha_iter h = [] \<and> ha_running h = [] then Some (flatten (ha_out h)) else None)"

definition handle :: "ext \<Rightarrow> ('t \<Rightarrow> string option) \<Rightarrow> ('t \<Rightarrow> handler_response option) \<Rightarrow> adapter \<Rightarrow>
    't batch_request_event \<Rightarrow> handle_event list \<Rightarrow> 't handling option" where
  "handle x req_id handler a event es =
     handle_run (record_of x req_id handler) (batch_concurrency a event) es (handle_begin event)"

subsection \<open>Its invariant\<close>

definition open_items :: "'t handling \<Rightarrow> (nat \<times> 't) list" where
  "open_items h = ha_running h @ ha_iter h"

definition handling_ok :: "('t \<Rightarrow> adapter_item) \<Rightarrow> nat \<Rightarrow> 't list \<Rightarrow> 't handling \<Rightarrow> bool" where
  "handling_ok item_rec limit batch h \<longleftrightarrow>
     length (ha_running h) \<le> limit \<and> distinct (map fst (open_items h)) \<and>
     (\<forall>(k, t) \<in> set (open_items h). k < length batch \<and> t = batch ! k) \<and>
     length (ha_out h) = length batch \<and>
     (\<forall>k < length batch. k \<notin> fst ` set (open_items h) \<longrightarrow> ha_out h ! k = Some (item_rec (batch ! k)))"

lemma handle_begin_ok: "handling_ok item_rec limit (be_batch event) (handle_begin event)"
proof -
  have "fst ` set (enumerate 0 (be_batch event)) = {0..<length (be_batch event)}"
    by (simp flip: set_map)
  then show ?thesis
    by (auto simp: handling_ok_def handle_begin_def open_items_def in_set_enumerate_eq)
qed

lemma handle_start:
  assumes "handling_ok item_rec limit batch h" and "ha_iter h = p # ps" and "length (ha_running h) < limit"
  shows "handling_ok item_rec limit batch (h\<lparr>ha_iter := ps, ha_running := ha_running h @ [p]\<rparr>)"
  using assms by (auto simp: handling_ok_def open_items_def)

lemma handle_done:
  assumes "handling_ok item_rec limit batch h" and "map_of (ha_running h) idx = Some item"
  shows "handling_ok item_rec limit batch (h\<lparr>ha_running := filter (\<lambda>p. fst p \<noteq> idx) (ha_running h),
    ha_out := (ha_out h)[idx := Some (item_rec item)]\<rparr>)"
    (is "handling_ok _ _ _ ?h")
proof -
  from assms(1) have ok: "length (ha_running h) \<le> limit" "distinct (map fst (open_items h))"
    "\<And>k t. (k, t) \<in> set (open_items h) \<Longrightarrow> k < length batch \<and> t = batch ! k" "length (ha_out h) = length batch"
    "\<And>k. k < length batch \<Longrightarrow> k \<notin> fst ` set (open_items h) \<Longrightarrow> ha_out h ! k = Some (item_rec (batch ! k))"
    by (auto simp: handling_ok_def)
  have item: "(idx, item) \<in> set (ha_running h)" using assms(2) by (rule map_of_SomeD)
  then have val: "idx < length batch" "item = batch ! idx" using ok(3)[of idx item] by (simp_all add: open_items_def)
  have "idx \<notin> fst ` set (ha_iter h)" using ok(2) item by (force simp: open_items_def)
  then have "filter (\<lambda>p. fst p \<noteq> idx) (ha_iter h) = ha_iter h" by (auto simp: filter_id_conv)
  then have left: "open_items ?h = filter (\<lambda>p. fst p \<noteq> idx) (open_items h)" by (simp add: open_items_def)
  have "length (filter (\<lambda>p. fst p \<noteq> idx) (ha_running h)) \<le> limit"
    using ok(1) length_filter_le le_trans by blast
  moreover have "ha_out ?h ! k = Some (item_rec (batch ! k))" if "k < length batch" "k \<notin> fst ` set (open_items ?h)" for k
  proof (cases "k = idx")
    case True
    with that(1) val ok(4) show ?thesis by simp
  next
    case False
    with that(2) have "k \<notin> fst ` set (open_items h)" by (auto simp: left image_iff)
    with False ok(5)[OF that(1)] show ?thesis by simp
  qed
  ultimately show ?thesis using ok(2-4) unfolding handling_ok_def
    by (auto simp: left distinct_map_filter)
qed

lemma handle_step_ok:
  "handle_step item_rec limit e h = Some h' \<Longrightarrow> handling_ok item_rec limit batch h \<Longrightarrow> handling_ok item_rec limit batch h'"
  by (auto simp: handle_step_def handle_start handle_done split: handle_event.splits list.splits option.splits if_splits)

lemma handle_run_append:
  "handle_run item_rec limit (es @ es') h =
     (case handle_run item_rec limit es h of None \<Rightarrow> None | Some h' \<Rightarrow> handle_run item_rec limit es' h')"
  by (induction es arbitrary: h) (auto split: option.splits)

interpretation handling: machine "\<lambda>h e h'. handle_step item_rec limit e h = Some h'"
  "\<lambda>h es h'. handle_run item_rec limit es h = Some h'" for item_rec limit
  by unfold_locales (auto simp: handle_run_append split: option.splits)

lemma handle_run_ok:
  "handle_run item_rec limit es h = Some h' \<Longrightarrow> handling_ok item_rec limit batch h \<Longrightarrow> handling_ok item_rec limit batch h'"
  by (erule handling.state_invariant) (auto intro: handle_step_ok)

lemma flatten_all: "(\<And>k. k < length out \<Longrightarrow> out ! k = Some (f k)) \<Longrightarrow> flatten out = map f [0..<length out]"
proof (induction out arbitrary: f)
  case (Cons o1 out)
  from Cons.prems[of 0] have "o1 = Some (f 0)" by simp
  moreover have "flatten out = map (\<lambda>k. f (Suc k)) [0..<length out]"
    by (rule Cons.IH) (use Cons.prems[of "Suc _"] in simp)
  ultimately show ?case by (simp add: upt_conv_Cons map_Suc_upt[symmetric] comp_def del: upt_Suc)
qed simp

lemma handling_result:
  assumes "handling_ok item_rec limit batch h" and "handle_result h = Some items"
  shows "items = map item_rec batch"
proof -
  from assms have len: "length (ha_out h) = length batch"
    and out: "\<And>k. k < length batch \<Longrightarrow> ha_out h ! k = Some (item_rec (batch ! k))" and items: "items = flatten (ha_out h)"
    by (auto simp: handling_ok_def handle_result_def open_items_def split: if_splits)
  have "flatten (ha_out h) = map (\<lambda>k. item_rec (batch ! k)) [0..<length batch]"
    using flatten_all[of "ha_out h" "\<lambda>k. item_rec (batch ! k)"] len out by simp
  also have "\<dots> = map item_rec batch" by (rule nth_equalityI) simp_all
  finally show ?thesis using items by simp
qed

text \<open>From every state of the invariant the call can be brought to its end.\<close>

lemma handle_can_end:
  assumes "0 < limit" and "handling_ok item_rec limit batch h"
  shows "\<exists>es h'. handle_run item_rec limit es h = Some h' \<and> handle_result h' \<noteq> None"
proof -
  have "\<exists>e t'. handle_step item_rec limit e t = Some t' \<and> handling_ok item_rec limit batch t' \<and>
      2 * length (ha_iter t') + length (ha_running t') < 2 * length (ha_iter t) + length (ha_running t)"
    if ok: "handling_ok item_rec limit batch t" and busy: "handle_result t = None" for t
  proof (cases "ha_running t")
    case (Cons p ps)
    let ?t = "t\<lparr>ha_running := filter (\<lambda>q. fst q \<noteq> fst p) (ha_running t),
      ha_out := (ha_out t)[fst p := Some (item_rec (snd p))]\<rparr>"
    have "handle_step item_rec limit (BufDone (fst p)) t = Some ?t" using Cons by (cases p) (simp add: handle_step_def)
    with handle_step_ok[OF this ok] Cons show ?thesis
      by (intro exI[of _ "BufDone (fst p)"] exI[of _ ?t]) (simp add: le_imp_less_Suc)
  next
    case Nil
    with busy obtain p ps where it: "ha_iter t = p # ps" by (cases "ha_iter t") (auto simp: handle_result_def)
    let ?t = "t\<lparr>ha_iter := ps, ha_running := ha_running t @ [p]\<rparr>"
    have "handle_step item_rec limit BufStart t = Some ?t" using it Nil assms(1) by (simp add: handle_step_def)
    with handle_step_ok[OF this ok] it show ?thesis by (intro exI[of _ BufStart] exI[of _ ?t]) simp
  qed
  then show ?thesis
    using handling.reaches[of "handling_ok item_rec limit batch" h "\<lambda>t. handle_result t \<noteq> None" item_rec limit
        "\<lambda>t. 2 * length (ha_iter t) + length (ha_running t)"] assms(2) by blast
qed

lemma batch_concurrency_pos: "0 < batch_concurrency a event"
  by (simp add: batch_concurrency_def normalize_concurrency_def less_max_iff_disj)

text \<open>
  Property C17: the buffered adapter answers a batch in its order, whatever the order in which the
  handler calls end. At every moment at most the configured number of calls is running (at least one,
  and no more than there are items); when the call returns, it returns one record per item, that of
  the item, at the place of the item; and from every moment it can be brought to return.
\<close>

theorem handle_responses:
  assumes "handle x req_id handler a event es = Some h"
  shows "length (ha_running h) \<le> max 1 (min (ap_concurrency a) (length (be_batch event))) \<and>
    (case handle_result h of
       Some items \<Rightarrow> items = map (record_of x req_id handler) (be_batch event)
     | None \<Rightarrow> \<exists>es' h'. handle x req_id handler a event (es @ es') = Some h' \<and> handle_result h' \<noteq> None)"
proof -
  let ?limit = "batch_concurrency a event" and ?item_rec = "record_of x req_id handler"
  have ok: "handling_ok ?item_rec ?limit (be_batch event) h"
    using assms handle_run_ok[OF _ handle_begin_ok] unfolding handle_def by blast
  have "?limit \<le> max 1 (min (ap_concurrency a) (length (be_batch event)))"
    by (simp add: batch_concurrency_def normalize_concurrency_def min_def max_def)
  with ok have "length (ha_running h) \<le> max 1 (min (ap_concurrency a) (length (be_batch event)))"
    by (simp add: handling_ok_def)
  moreover have "\<exists>es' h'. handle x req_id handler a event (es @ es') = Some h' \<and> handle_result h' \<noteq> None"
    using handle_can_end[OF batch_concurrency_pos ok] assms by (simp add: handle_def handle_run_append)
  ultimately show ?thesis using handling_result[OF ok] by (auto split: option.splits)
qed

definition sample_event :: "string batch_request_event" where
  "sample_event = \<lparr>be_v = 1, be_batch = [''a'', ''b''], be_meta = None\<rparr>"

definition sample_handler :: "string \<Rightarrow> handler_response option" where
  "sample_handler t = (if t = ''a'' then Some (handler_response_text 0 ''ok'') else None)"

definition sample_order :: "handle_event list" where
  "sample_order = [BufStart, BufStart, BufDone 1, BufDone 0]"

lemma sample_handled:
  "handle x Some sample_handler batch_adapter sample_event sample_order =
     Some \<lparr>ha_iter = [], ha_running = [], ha_out = map (Some \<circ> record_of x Some sample_handler) [''a'', ''b'']\<rparr>"
  by (simp add: sample_order_def handle_def handle_begin_def sample_event_def handle_step_def batch_concurrency_def
      batch_adapter_def normalize_concurrency_def numeral_2_eq_2)

lemma sample_records:
  "map (record_of x Some sample_handler) [''a'', ''b''] = [\<lparr>ai_id = ''a'', ai_status_code = 200,
     ai_headers = [], ai_cookies = [], ai_body = ''ok'', ai_is_base64_encoded = False\<rparr>, error_response_item ''b'']"
  by (simp add: record_of_def item_request_id_def sample_handler_def handler_response_text_def normalize_body_def
      response_status_def)

theorem handle_responses_witness:
  "\<exists>h. handle plain_ext Some sample_handler batch_adapter sample_event sample_order = Some h \<and>
     handle_result h = Some [\<lparr>ai_id = ''a'', ai_status_code = 200, ai_headers = [], ai_cookies = [], ai_body = ''ok'',
       ai_is_base64_encoded = False\<rparr>, error_response_item ''b'']"
  using handle_responses[OF sample_handled, of plain_ext] sample_handled[of plain_ext] sample_records[of plain_ext]
  by (simp add: handle_result_def sample_event_def)

end
