(* ===== verification/Ad_Ndjson.thy ===== *)
theory Ad_Ndjson
  imports Ad_Adapter
begin

text \<open>
  The streaming adapter (\<^verbatim>\<open>BatchAdapterStream\<close> in \<^verbatim>\<open>lambda-kit/adapter-rust/src/lib.rs\<close>): the two
  kinds of NDJSON records, the lines a handler's result becomes, and the merged stream of a batch.
\<close>

subsection \<open>Records\<close>

record ndjson_record_legacy =
  nl_v :: nat
  nl_id :: string
  nl_status_code :: nat
  nl_headers :: "(string, string) hashmap"
  nl_cookies :: "string list"
  nl_body :: string
  nl_is_base64_encoded :: bool

definition enc_ndjson_legacy :: "ndjson_record_legacy \<Rightarrow> json" where
  "enc_ndjson_legacy r = JObj ([(''v'', JInt (int (nl_v r))), (''id'', JStr (nl_id r)),
     (''statusCode'', JInt (int (nl_status_code r))), (''headers'', enc_str_map (nl_headers r))] @
     list_field ''cookies'' (nl_cookies r) @
     [(''body'', JStr (nl_body r)), (''isBase64Encoded'', JBool (nl_is_base64_encoded r))])"

record ndjson_record_interleaved =
  nd_v :: nat
  nd_id :: string
  nd_record_type :: string
  nd_status_code :: "nat option"
  nd_headers :: "(string, string) hashmap"
  nd_cookies :: "string list"
  nd_body :: "string option"
  nd_is_base64_encoded :: "bool option"
  nd_message :: "string option"

definition enc_ndjson_interleaved :: "ndjson_record_interleaved \<Rightarrow> json" where
  "enc_ndjson_interleaved r = JObj ([(''v'', JInt (int (nd_v r))), (''id'', JStr (nd_id r)), (''type'', JStr (nd_record_type r))] @
     opt_field ''statusCode'' (JInt \<circ> int) (nd_status_code r) @ map_field ''headers'' (nd_headers r) @
     list_field ''cookies'' (nd_cookies r) @ opt_field ''body'' JStr (nd_body r) @
     opt_field ''isBase64Encoded'' JBool (nd_is_base64_encoded r) @ opt_field ''message'' JStr (nd_message r))"

datatype ndjson_record = NdLegacy ndjson_record_legacy | NdInterleaved ndjson_record_interleaved

fun enc_ndjson :: "ndjson_record \<Rightarrow> json" where
  "enc_ndjson (NdLegacy r) = enc_ndjson_legacy r"
| "enc_ndjson (NdInterleaved r) = enc_ndjson_interleaved r"

definition ndjson_line :: "ext \<Rightarrow> ndjson_record \<Rightarrow> bytes" where
  "ndjson_line x record = (case to_vec x (enc_ndjson record) of Inl _ \<Rightarrow> ''{}'' | Inr line \<Rightarrow> line) @ [newline]"

subsection \<open>The lines of an item\<close>

definition legacy_ok :: "string \<Rightarrow> handler_response \<Rightarrow> string \<times> bool \<Rightarrow> ndjson_record_legacy" where
  "legacy_ok i resp b = \<lparr>nl_v = 1, nl_id = i, nl_status_code = response_status resp,
     nl_headers = normalize_headers (hr_headers resp), nl_cookies = normalize_cookies (hr_cookies resp),
     nl_body = fst b, nl_is_base64_encoded = snd b\<rparr>"

definition legacy_error :: "string \<Rightarrow> ndjson_record_legacy" where
  "legacy_error i = \<lparr>nl_v = 1, nl_id = i, nl_status_code = 500, nl_headers = [(''content-type'', ''text/plain'')],
     nl_cookies = [], nl_body = ''internal error'', nl_is_base64_encoded = False\<rparr>"

definition head_record :: "string \<Rightarrow> handler_response \<Rightarrow> ndjson_record_interleaved" where
  "head_record i resp = \<lparr>nd_v = 1, nd_id = i, nd_record_type = ''head'', nd_status_code = Some (response_status resp),
     nd_headers = normalize_headers (hr_headers resp), nd_cookies = normalize_cookies (hr_cookies resp), nd_body = None,
     nd_is_base64_encoded = None, nd_message = None\<rparr>"

definition end_record :: "string \<Rightarrow> ndjson_record_interleaved" where
  "end_record i = \<lparr>nd_v = 1, nd_id = i, nd_record_type = ''end'', nd_status_code = None, nd_headers = [], nd_cookies = [],
     nd_body = None, nd_is_base64_encoded = None, nd_message = None\<rparr>"

definition text_chunk :: "string \<Rightarrow> string \<Rightarrow> bool \<Rightarrow> ndjson_record_interleaved" where
  "text_chunk i body is_b64 = \<lparr>nd_v = 1, nd_id = i, nd_record_type = ''chunk'', nd_status_code = None, nd_headers = [],
     nd_cookies = [], nd_body = Some body, nd_is_base64_encoded = Some is_b64, nd_message = None\<rparr>"

definition failure_record :: "string \<Rightarrow> ndjson_record_interleaved" where
  "failure_record i = \<lparr>nd_v = 1, nd_id = i, nd_record_type = ''error'', nd_status_code = Some 500, nd_headers = [],
     nd_cookies = [], nd_body = None, nd_is_base64_encoded = None, nd_message = Some ''internal error''\<rparr>"

fun chunk_text :: "ext \<Rightarrow> bool \<Rightarrow> response_chunk \<Rightarrow> string \<times> bool" where
  "chunk_text x is_b64 (ChunkText s) = (s, is_b64)"
| "chunk_text x is_b64 (ChunkBinary bs) = (x_b64_enc x bs, True)"

fun body_chunks :: "ext \<Rightarrow> bool \<Rightarrow> handler_body \<Rightarrow> (string \<times> bool) list" where
  "body_chunks x is_b64 BodyEmpty = []"
| "body_chunks x is_b64 (BodyText s) = [(s, is_b64)]"
| "body_chunks x is_b64 (BodyBinary bs) = [(x_b64_enc x bs, True)]"
| "body_chunks x is_b64 (BodyStream chunks) = map (chunk_text x is_b64) chunks"

definition item_records :: "ext \<Rightarrow> ('t \<Rightarrow> string option) \<Rightarrow> ('t \<Rightarrow> handler_response option) \<Rightarrow> bool \<Rightarrow> 't \<Rightarrow> ndjson_record list" where
  "item_records x req_id handler interleaved item =
     (let request_id = item_request_id req_id item
      in case handler item of
           Some resp \<Rightarrow>
             if \<not> interleaved then
               (case normalize_body x (hr_body resp) (hr_is_base64_encoded resp) of
                  Inr b \<Rightarrow> [NdLegacy (legacy_ok request_id resp b)]
                | Inl _ \<Rightarrow> [NdLegacy (legacy_error request_id)])
             else
               NdInterleaved (head_record request_id resp) #
               map (\<lambda>(body, is_b64). NdInterleaved (text_chunk request_id body is_b64))
                 (body_chunks x (hr_is_base64_encoded resp) (hr_body resp)) @
               [NdInterleaved (end_record request_id)]
         | None \<Rightarrow>
             if \<not> interleaved then [NdLegacy (legacy_error request_id)]
             else [NdInterleaved (failure_record request_id)])"

definition item_lines :: "ext \<Rightarrow> ('t \<Rightarrow> string option) \<Rightarrow> ('t \<Rightarrow> handler_response option) \<Rightarrow> bool \<Rightarrow> 't \<Rightarrow> bytes list" where
  "item_lines x req_id handler interleaved item = map (ndjson_line x) (item_records x req_id handler interleaved item)"

definition adapter_stream :: "ext \<Rightarrow> ('t \<Rightarrow> string option) \<Rightarrow> ('t \<Rightarrow> handler_response option) \<Rightarrow> adapter \<Rightarrow>
    't batch_request_event \<Rightarrow> bytes select" where
  "adapter_stream x req_id handler a event =
     select_init (map (item_lines x req_id handler (ap_interleaved a)) (be_batch event)) (max (batch_concurrency a event) 1)"

end
