(* ===== verification/Ad_Wire.thy ===== *)
theory Ad_Wire
  imports Ad_Ndjson Gw_Lp_Wire Gw_Buffered
begin

text \<open>
  The Rust adapter and the gateway on one wire: each record the adapter prints is read by the gateway
  with all its fields, the buffered document as well as both kinds of stream records.
\<close>

subsection \<open>Fields that may be missing\<close>

text \<open>A struct is read from a document by what the document has under each field name.\<close>

lemma struct_view_value:
  assumes "distinct (map fst kvs)"
  obtains known where "struct_view names (to_value (JObj kvs)) = Some known"
    "\<And>k. map_of known k = (if k \<in> set names then map_option to_value (map_of kvs k) else None)"
proof -
  let ?m = "last_wins (map (\<lambda>(k, v). (k, to_value v)) kvs) []"
  obtain known where known: "struct_view names (JObj ?m) = Some known"
    "\<And>k. map_of known k = (if k \<in> set names then map_of ?m k else None)"
    using struct_view_obj[OF last_wins_ok] by metis
  have "map_of ?m k = map_option to_value (map_of kvs k)" for k
    using value_get_to_value[OF assms, of k] by simp
  with known show ?thesis by (intro that[of known]) simp_all
qed

lemma struct_view_raw:
  assumes "distinct (map fst kvs)"
  obtains known where "struct_view names (JObj kvs) = Some known"
    "\<And>k. map_of known k = (if k \<in> set names then map_of kvs k else None)"
  using struct_view_obj[of kvs names] assms by (metis hm_ok_def)

lemma optional_fields [simp]:
  "map_of (list_field n xs) k = (if k = n \<and> xs \<noteq> [] then Some (enc_str_list xs) else None)"
  "map_of (map_field n m) k = (if k = n \<and> m \<noteq> [] then Some (enc_str_map m) else None)"
  "map_of (opt_field n f v) k = (if k = n then map_option f v else None)"
  by (auto simp: list_field_def map_field_def opt_field_def split: option.splits)

lemma optional_names:
  "map fst (list_field n xs) = (if xs = [] then [] else [n])" "map fst (map_field n m) = (if m = [] then [] else [n])"
  "map fst (opt_field n f v) = (if v = None then [] else [n])"
  by (simp_all add: list_field_def map_field_def opt_field_def split: option.splits)

lemma dec_str_map_Nil: "dec_str_map (to_value (enc_str_map [])) = Some []"
  by (simp add: enc_str_map_def)

subsection \<open>Stream records\<close>

definition legacy_of_ndjson :: "ndjson_record_legacy \<Rightarrow> legacy_record" where
  "legacy_of_ndjson r = \<lparr>lr_v = nl_v r, lr_id = nl_id r, lr_status_code = nl_status_code r,
     lr_headers = last_wins (nl_headers r) [], lr_cookies = nl_cookies r, lr_body = nl_body r,
     lr_is_base64_encoded = nl_is_base64_encoded r\<rparr>"

definition interleaved_of_ndjson :: "stream_record_type \<Rightarrow> ndjson_record_interleaved \<Rightarrow> interleaved_record" where
  "interleaved_of_ndjson t r = \<lparr>ir_v = nd_v r, ir_id = nd_id r, ir_type = t, ir_status_code = nd_status_code r,
     ir_headers = last_wins (nd_headers r) [], ir_cookies = nd_cookies r, ir_body = nd_body r,
     ir_is_base64_encoded = (case nd_is_base64_encoded r of None \<Rightarrow> False | Some b \<Rightarrow> b), ir_message = nd_message r\<rparr>"

lemma dec_legacy_ndjson:
  assumes "nl_v r < 256" and "nl_status_code r < 65536"
  shows "dec_legacy_record (to_value (enc_ndjson_legacy r)) = Some (legacy_of_ndjson r)"
    and "value_get (to_value (enc_ndjson_legacy r)) ''type'' = None"
proof -
  let ?kvs = "case enc_ndjson_legacy r of JObj kvs \<Rightarrow> kvs"
  have d: "distinct (map fst ?kvs)" "enc_ndjson_legacy r = JObj ?kvs"
    by (simp_all add: enc_ndjson_legacy_def optional_names)
  define j where "j = to_value (JObj ?kvs)"
  obtain known where known: "struct_view [''v'', ''id'', ''statusCode'', ''headers'', ''cookies'', ''body'', ''isBase64Encoded''] j
      = Some known"
    "\<And>k. map_of known k = (if k \<in> set [''v'', ''id'', ''statusCode'', ''headers'', ''cookies'', ''body'', ''isBase64Encoded'']
       then map_option to_value (map_of ?kvs k) else None)"
    using struct_view_value[OF d(1)] unfolding j_def by blast
  have m: "map_of ?kvs = map_of [(''v'', JInt (int (nl_v r))), (''id'', JStr (nl_id r)),
     (''statusCode'', JInt (int (nl_status_code r))), (''headers'', enc_str_map (nl_headers r)),
     (''body'', JStr (nl_body r)), (''isBase64Encoded'', JBool (nl_is_base64_encoded r))] ++
     (if nl_cookies r = [] then Map.empty else [''cookies'' \<mapsto> enc_str_list (nl_cookies r)])"
    by (rule ext) (auto simp: enc_ndjson_legacy_def map_add_def)
  show "dec_legacy_record (to_value (enc_ndjson_legacy r)) = Some (legacy_of_ndjson r)"
    using assms by (subst d(2), fold j_def) (simp add: dec_legacy_record_def known m req_field_def def_field_def
        map_add_def dec_str_map_to_value legacy_of_ndjson_def)
  show "value_get (to_value (enc_ndjson_legacy r)) ''type'' = None"
    by (subst d(2), subst value_get_to_value[OF d(1)]) (simp add: m map_add_def)
qed

lemma dec_interleaved_ndjson:
  assumes "nd_v r < 256" and "pred_option (\<lambda>c. c < 65536) (nd_status_code r)" and "record_variant (nd_record_type r) = Some t"
  shows "dec_interleaved_record (to_value (enc_ndjson_interleaved r)) = Some (interleaved_of_ndjson t r)"
    and "value_get (to_value (enc_ndjson_interleaved r)) ''type'' \<noteq> None"
proof -
  let ?kvs = "case enc_ndjson_interleaved r of JObj kvs \<Rightarrow> kvs"
  let ?names = "[''v'', ''id'', ''type'', ''statusCode'', ''headers'', ''cookies'', ''body'', ''isBase64Encoded'', ''message'']"
  have d: "distinct (map fst ?kvs)" "enc_ndjson_interleaved r = JObj ?kvs"
    by (simp_all add: enc_ndjson_interleaved_def optional_names)
  define j where "j = to_value (JObj ?kvs)"
  obtain known where known: "struct_view ?names j = Some known"
    "\<And>k. map_of known k = (if k \<in> set ?names then map_option to_value (map_of ?kvs k) else None)"
    using struct_view_value[OF d(1)] unfolding j_def by blast
  have m: "map_of ?kvs ''v'' = Some (JInt (int (nd_v r)))" "map_of ?kvs ''id'' = Some (JStr (nd_id r))"
    "map_of ?kvs ''type'' = Some (JStr (nd_record_type r))"
    "map_of ?kvs ''statusCode'' = map_option (JInt \<circ> int) (nd_status_code r)"
    "map_of ?kvs ''headers'' = (if nd_headers r = [] then None else Some (enc_str_map (nd_headers r)))"
    "map_of ?kvs ''cookies'' = (if nd_cookies r = [] then None else Some (enc_str_list (nd_cookies r)))"
    "map_of ?kvs ''body'' = map_option JStr (nd_body r)"
    "map_of ?kvs ''isBase64Encoded'' = map_option JBool (nd_is_base64_encoded r)"
    "map_of ?kvs ''message'' = map_option JStr (nd_message r)"
    by (simp_all add: enc_ndjson_interleaved_def map_add_def split: option.splits)
  show "dec_interleaved_record (to_value (enc_ndjson_interleaved r)) = Some (interleaved_of_ndjson t r)"
    using assms by (subst d(2), fold j_def) (auto simp: dec_interleaved_record_def known m req_field_def def_field_def
        dec_str_map_to_value interleaved_of_ndjson_def dec_record_type_def split: option.splits)
  show "value_get (to_value (enc_ndjson_interleaved r)) ''type'' \<noteq> None"
    by (subst d(2), subst value_get_to_value[OF d(1)]) (simp add: m)
qed

fun decode_ndjson :: "ndjson_record \<Rightarrow> stream_record" where
  "decode_ndjson (NdLegacy r) = Legacy (legacy_of_ndjson r)"
| "decode_ndjson (NdInterleaved r) =
     Interleaved (interleaved_of_ndjson (case record_variant (nd_record_type r) of Some t \<Rightarrow> t | None \<Rightarrow> RError) r)"

text \<open>The numbers are of their types, and the type of a record is one the gateway knows.\<close>

fun record_fits :: "ndjson_record \<Rightarrow> bool" where
  "record_fits (NdLegacy r) \<longleftrightarrow> nl_v r < 256 \<and> nl_status_code r < 65536"
| "record_fits (NdInterleaved r) \<longleftrightarrow> nd_v r < 256 \<and> pred_option (\<lambda>c. c < 65536) (nd_status_code r) \<and>
     record_variant (nd_record_type r) \<noteq> None"

lemma parse_ndjson:
  assumes "x_json_parse x b = Some (enc_ndjson r)" and "record_fits r"
  shows "parse_stream_record x b = Inr (decode_ndjson r)"
  using assms
  by (cases r) (auto simp: parse_stream_record_def from_slice_def dec_legacy_ndjson dec_interleaved_ndjson)

text \<open>What the types \<^verbatim>\<open>u16\<close> and \<^verbatim>\<open>HashMap\<close> say of a response.\<close>

definition response_typed :: "handler_response \<Rightarrow> bool" where
  "response_typed resp \<longleftrightarrow> hr_status_code resp < 65536 \<and> hm_ok (hr_headers resp)"

lemma response_status_less: "hr_status_code resp < 65536 \<Longrightarrow> response_status resp < 65536"
  by (simp add: response_status_def)

lemma normalize_headers_keys: "fst ` set (normalize_headers hs) \<subseteq> fst ` set hs"
  by (induction hs rule: normalize_headers.induct) auto

lemma normalize_headers_ok: "hm_ok hs \<Longrightarrow> hm_ok (normalize_headers hs)"
proof (induction hs rule: normalize_headers.induct)
  case (2 k v headers)
  with normalize_headers_keys[of headers] show ?case by (auto simp: hm_ok_def)
qed (simp add: hm_ok_def)

lemma item_records_fit:
  assumes "pred_option response_typed (handler item)"
  shows "list_all record_fits (item_records x req_id handler interleaved item)"
proof (cases "handler item")
  case None
  then show ?thesis by (simp add: item_records_def legacy_error_def failure_record_def record_variant_def Let_def)
next
  case (Some resp)
  with assms have "response_status resp < 65536" by (auto simp: response_typed_def intro: response_status_less)
  with Some show ?thesis
    by (auto simp: item_records_def legacy_error_def legacy_ok_def head_record_def end_record_def text_chunk_def
        record_variant_def list_all_iff Let_def split: sum.splits)
qed

lemma item_record_names:
  assumes "r \<in> set (item_records x req_id handler interleaved item)"
  shows "record_v (decode_ndjson r) = 1" "record_id (decode_ndjson r) = item_request_id req_id item"
  using assms
  by (auto simp: item_records_def record_v_def record_id_def legacy_of_ndjson_def interleaved_of_ndjson_def legacy_error_def legacy_ok_def
      head_record_def end_record_def text_chunk_def failure_record_def Let_def split: option.splits if_splits sum.splits)

lemma adapter_line:
  assumes "pred_option response_typed (handler item)" and "r \<in> set (item_records x req_id handler interleaved item)"
    and "wire_ok x (enc_ndjson r)"
  shows "\<exists>b. ndjson_line x r = b @ [newline] \<and> b \<noteq> [] \<and> last b \<noteq> carriage_return \<and> newline \<notin> set b \<and>
    parse_stream_record x b = Inr (decode_ndjson r)"
proof -
  have fits: "record_fits r"
    using item_records_fit[of handler item x req_id interleaved, OF assms(1)] assms(2) by (auto simp: list_all_iff)
  obtain b where b: "x_json_print x (enc_ndjson r) = Some b" "x_json_parse x b = Some (enc_ndjson r)" "b \<noteq> []"
    "last b \<noteq> carriage_return" "newline \<notin> set b"
    using assms(3) by (rule wire_okE)
  with parse_ndjson[OF b(2) fits] show ?thesis by (intro exI[of _ b]) (simp add: ndjson_line_def to_vec_def)
qed

subsection \<open>The buffered document\<close>

definition gateway_item :: "adapter_item \<Rightarrow> batch_response_item" where
  "gateway_item r = \<lparr>ri_id = ai_id r, ri_status_code = ai_status_code r, ri_headers = ai_headers r, ri_cookies = ai_cookies r,
     ri_body = ai_body r, ri_is_base64_encoded = ai_is_base64_encoded r\<rparr>"

definition item_typed :: "adapter_item \<Rightarrow> bool" where
  "item_typed r \<longleftrightarrow> ai_status_code r < 65536 \<and> hm_ok (ai_headers r)"

lemma dec_adapter_item:
  assumes "item_typed r"
  shows "dec_batch_response_item (enc_adapter_item r) = Some (gateway_item r)"
proof -
  let ?kvs = "case enc_adapter_item r of JObj kvs \<Rightarrow> kvs"
  have d: "distinct (map fst ?kvs)" "enc_adapter_item r = JObj ?kvs"
    by (simp_all add: enc_adapter_item_def optional_names)
  define j where "j = JObj ?kvs"
  obtain known where known: "struct_view [''id'', ''statusCode'', ''headers'', ''cookies'', ''body'', ''isBase64Encoded''] j = Some known"
    "\<And>k. map_of known k = (if k \<in> set [''id'', ''statusCode'', ''headers'', ''cookies'', ''body'', ''isBase64Encoded'']
       then map_of ?kvs k else None)"
    using struct_view_raw[OF d(1)] unfolding j_def by blast
  have m: "map_of ?kvs ''id'' = Some (JStr (ai_id r))" "map_of ?kvs ''statusCode'' = Some (JInt (int (ai_status_code r)))"
    "map_of ?kvs ''headers'' = Some (enc_str_map (ai_headers r))" "map_of ?kvs ''body'' = Some (JStr (ai_body r))"
    "map_of ?kvs ''cookies'' = (if ai_cookies r = [] then None else Some (enc_str_list (ai_cookies r)))"
    "map_of ?kvs ''isBase64Encoded'' = Some (JBool (ai_is_base64_encoded r))"
    by (simp_all add: enc_adapter_item_def map_add_def)
  show ?thesis
    using assms by (subst d(2), fold j_def) (simp add: dec_batch_response_item_def known m req_field_def def_field_def
        item_typed_def gateway_item_def)
qed

lemma dec_adapter_response:
  assumes "list_all item_typed items"
  shows "dec_batch_response (enc_adapter_response items) = Some \<lparr>br_v = 1, br_responses = map gateway_item items\<rparr>"
proof -
  have "all_some (map dec_batch_response_item (map enc_adapter_item items)) = Some (map gateway_item items)"
    using assms by (induction items) (simp_all add: dec_adapter_item)
  then show ?thesis
    by (simp add: dec_batch_response_def enc_adapter_response_def struct_view_def req_field_def Let_def)
qed

lemma record_of_typed: "pred_option response_typed (handler item) \<Longrightarrow> item_typed (record_of x req_id handler item)"
  by (auto simp: record_of_def item_typed_def error_response_item_def hm_ok_def response_typed_def Let_def
      response_status_less normalize_headers_ok[unfolded hm_ok_def] split: option.splits sum.splits)

lemma record_of_id: "ai_id (record_of x req_id handler item) = item_request_id req_id item"
  by (auto simp: record_of_def error_response_item_def Let_def split: option.splits sum.splits)

text \<open>A buffered document answers a batch by what it has for the id of each item.\<close>

lemma dispatch_buffered_batch:
  assumes "distinct (map id_of batch)" and "mset pending = mset (map (\<lambda>item. (id_of item, ch item)) batch)"
    and "\<And>item. item \<in> set batch \<Longrightarrow> buffered_outcome x b (id_of item) = answer item"
  shows "\<exists>new. dispatch_buffered x w b pending lg = lg @ new \<and>
    mset new = mset (map (\<lambda>item. Reply (ch item) (with_meta (length batch) w (answer item))) batch)"
proof -
  have "mset (map fst pending) = mset (map id_of batch)"
    using arg_cong[OF assms(2), of "image_mset fst"] by (simp add: multiset.map_comp comp_def)
  with assms(1) have ok: "hm_ok pending" by (metis hm_ok_def mset_eq_imp_distinct_iff)
  have len: "length pending = length batch" using assms(2) by (metis mset_eq_length length_map)
  from dispatch_buffered_spec[OF ok] obtain new where new: "dispatch_buffered x w b pending lg = lg @ new"
    "mset new = image_mset (reply_with (length pending) w (buffered_outcome x b)) (mset pending)" by blast
  have "mset new = mset (map (\<lambda>item. Reply (ch item) (with_meta (length batch) w (buffered_outcome x b (id_of item)))) batch)"
    by (simp add: new(2) assms(2) len reply_with_def multiset.map_comp comp_def)
  also have "\<dots> = mset (map (\<lambda>item. Reply (ch item) (with_meta (length batch) w (answer item))) batch)"
    using assms(3) by (intro arg_cong[where f = mset] map_cong) simp_all
  finally show ?thesis using new(1) by blast
qed

end
