(* ===== verification/Gw_Isolation.thy ===== *)
theory Gw_Isolation
  imports Gw_Session
begin

text \<open>
  Records of a response stream for different clients do not touch each other: when receivers do not
  come and go during the stream, what a client sees of a stream is what it sees of its own records.
\<close>

subsection \<open>Runs of records\<close>

fun run_records :: "ext \<Rightarrow> env \<Rightarrow> nat \<Rightarrow> nat \<Rightarrow> stream_record list \<Rightarrow> dispatch_state \<Rightarrow> dispatch_state option" where
  "run_records x env bs w [] s = Some s"
| "run_records x env bs w (r # rs) s =
     (case dispatch_stream_record x env bs w r s of
        (Inl _, _) \<Rightarrow> None
      | (Inr _, s') \<Rightarrow> run_records x env bs w rs s')"

definition only :: "string \<Rightarrow> (string, 'v) hashmap \<Rightarrow> (string, 'v) hashmap" where
  "only i m = (case hm_get m i of None \<Rightarrow> [] | Some e \<Rightarrow> [(i, e)])"

lemma only_simps [simp]:
  "hm_get (only i m) i = hm_get m i" "hm_get m i = None \<Longrightarrow> only i m = []" "hm_get m i = Some e \<Longrightarrow> only i m = [(i, e)]"
  by (auto simp: only_def split: option.splits)

fun touches :: "chan \<Rightarrow> chan \<Rightarrow> event \<Rightarrow> bool" where
  "touches c b (Init c' m ok) = (c' = c)"
| "touches c b (InitDropped c') = (c' = c)"
| "touches c b (Body b' bs ok) = (b' = b)"
| "touches c b (BodyClosed b') = (b' = b)"
| "touches c b _ = False"

lemma about_touches: "about e ev \<Longrightarrow> owns c b e \<Longrightarrow> touches c b ev"
  by (cases ev) (auto simp: owns_def)

lemma about_not_touches: "about e ev \<Longrightarrow> owns c b e \<Longrightarrow> c \<noteq> c' \<Longrightarrow> b \<noteq> b' \<Longrightarrow> \<not> touches c' b' ev"
  by (cases ev) (auto simp: owns_def)

subsection \<open>One record\<close>

lemma dispatch_entry_frame:
  assumes "dispatch_entry x (\<lambda>_. alive) bs w r e (p, lg) = (res, p', lg')" and "hm_get p (record_id r) = None"
  shows "\<exists>l. lg' = lg @ l \<and> dispatch_entry x (\<lambda>_. alive) bs w r e (p, []) = (res, p', l) \<and>
    dispatch_entry x (\<lambda>_. alive) bs w r e ([], []) = (res, only (record_id r) p', l)"
proof (cases r)
  case (Legacy rec)
  with assms show ?thesis
    by (auto simp: dispatch_entry_def dispatch_legacy_def drop_entry_def send_init_def Let_def split: sum.splits option.splits)
next
  case (Interleaved rec)
  note send_defs = send_stream_head_def send_chunk_def send_init_def send_body_def drop_entry_def
  show ?thesis
  proof (cases "ir_type rec")
    case RHead
    with Interleaved assms show ?thesis
      by (auto simp: dispatch_entry_def dispatch_head_def send_defs Let_def split: sum.splits option.splits if_splits)
  next
    case RChunk
    with Interleaved assms show ?thesis
      by (auto simp: dispatch_entry_def dispatch_chunk_def send_defs Let_def split: sum.splits option.splits if_splits)
  next
    case REnd
    with Interleaved assms show ?thesis
      by (auto simp: dispatch_entry_def dispatch_end_def send_defs Let_def split: sum.splits option.splits if_splits)
  next
    case RError
    with Interleaved assms show ?thesis
      by (auto simp: dispatch_entry_def dispatch_error_def send_defs Let_def split: sum.splits option.splits if_splits)
  qed
qed

lemma dispatch_entry_others:
  assumes "dispatch_entry x env bs w r e s = (res, s')" and "j \<noteq> record_id r"
  shows "hm_get (fst s') j = hm_get (fst s) j"
  using dispatch_entry_outcome[OF assms(1)] assms(2) by (auto simp: entry_outcome_def)

lemma record_frame:
  assumes "dispatch_stream_record x (\<lambda>_. alive) bs w r (m, lg) = (res, m', lg')"
  shows "\<exists>l. lg' = lg @ l \<and> dispatch_stream_record x (\<lambda>_. alive) bs w r (m, []) = (res, m', l) \<and>
    dispatch_stream_record x (\<lambda>_. alive) bs w r (only (record_id r) m, []) = (res, only (record_id r) m', l) \<and>
    (\<forall>j. j \<noteq> record_id r \<longrightarrow> only j m' = only j m) \<and>
    (l = [] \<or> (\<exists>e. hm_get m (record_id r) = Some e \<and> list_all (about e) l \<and>
       (\<forall>e' c b. hm_get m' (record_id r) = Some e' \<longrightarrow> owns c b e \<longrightarrow> owns c b e')))"
proof (cases "record_v r \<noteq> 1 \<or> hm_get m (record_id r) = None")
  case True
  with assms show ?thesis by (auto simp: dispatch_stream_record_def split: if_splits)
next
  case False
  then obtain e where e: "record_v r = 1" "hm_get m (record_id r) = Some e" by auto
  with assms have d: "dispatch_entry x (\<lambda>_. alive) bs w r e (hm_delete (record_id r) m, lg) = (res, m', lg')"
    by (simp add: dispatch_stream_record_def)
  from dispatch_entry_frame[OF d] obtain l where l: "lg' = lg @ l"
    "dispatch_entry x (\<lambda>_. alive) bs w r e (hm_delete (record_id r) m, []) = (res, m', l)"
    "dispatch_entry x (\<lambda>_. alive) bs w r e ([], []) = (res, only (record_id r) m', l)" by auto
  have "dispatch_stream_record x (\<lambda>_. alive) bs w r (m, []) = (res, m', l)"
    using e l(2) by (simp add: dispatch_stream_record_def)
  moreover have "dispatch_stream_record x (\<lambda>_. alive) bs w r (only (record_id r) m, []) = (res, only (record_id r) m', l)"
    using e l(3) by (simp add: dispatch_stream_record_def)
  moreover have "only j m' = only j m" if "j \<noteq> record_id r" for j
    using dispatch_entry_others[OF d that] that by (simp add: only_def delete_conv')
  moreover have "list_all (about e) l \<and>
      (\<forall>e' c b. hm_get m' (record_id r) = Some e' \<longrightarrow> owns c b e \<longrightarrow> owns c b e')"
    using dispatch_entry_outcome[OF d] l(1) by (auto simp: entry_outcome_def wrote_def owns_def)
  ultimately show ?thesis using e(2) l(1) by blast
qed

subsection \<open>Many records\<close>

lemma run_records_log:
  "run_records x (\<lambda>_. alive) bs w rs (m, lg) =
     map_option (\<lambda>(m', l). (m', lg @ l)) (run_records x (\<lambda>_. alive) bs w rs (m, []))"
proof (induction rs arbitrary: m lg)
  case (Cons r rs)
  obtain res m1 lg1 where d: "dispatch_stream_record x (\<lambda>_. alive) bs w r (m, lg) = (res, m1, lg1)" by (metis prod.exhaust)
  from record_frame[OF d] obtain l where l: "lg1 = lg @ l"
    "dispatch_stream_record x (\<lambda>_. alive) bs w r (m, []) = (res, m1, l)" by blast
  show ?case
  proof (cases res)
    case (Inr u)
    then show ?thesis using d l(2) Cons.IH[of m1 lg1] Cons.IH[of m1 l]
      by (cases "run_records x (\<lambda>_. alive) bs w rs (m1, [])") (auto simp: l(1))
  qed (use d l(2) in simp)
qed simp

definition table_ok :: "clients \<Rightarrow> (string, stream_pending) hashmap \<Rightarrow> bool" where
  "table_ok cs m \<longleftrightarrow> clients_ok cs \<and>
     (\<forall>i e. hm_get m i = Some e \<longrightarrow> (\<exists>c b. (i, c, b) \<in> set cs \<and> owns c b e))"

lemma table_ok_step:
  assumes "table_ok cs m" and "dispatch_stream_record x (\<lambda>_. alive) bs w r (m, []) = (res, m', l)"
  shows "table_ok cs m'"
proof -
  from record_frame[OF assms(2)] have others: "hm_get m' j = hm_get m j" if "j \<noteq> record_id r" for j
    using that only_simps(1) by metis
  have "\<exists>c b. (i, c, b) \<in> set cs \<and> owns c b e'" if "hm_get m' i = Some e'" for i e'
  proof (cases "i = record_id r")
    case True
    have "dispatch_stream_record x (\<lambda>_. alive) bs w r (only i m, []) = (res, [(i, e')], l)"
      using record_frame[OF assms(2)] True that by auto
    then obtain e where e: "hm_get m i = Some e" by (auto simp: dispatch_stream_record_def True only_def split: if_splits option.splits)
    have "e' = e \<or> e' = e\<lparr>st_init := None\<rparr>"
      using assms(2) e that True dispatch_entry_outcome[of x "\<lambda>_. alive" bs w r e "(hm_delete i m, [])" res "(m', l)"]
      by (auto simp: dispatch_stream_record_def entry_outcome_def split: if_splits)
    with assms(1) e show ?thesis by (fastforce simp: table_ok_def owns_def)
  next
    case False
    with others that assms(1) show ?thesis by (simp add: table_ok_def)
  qed
  with assms(1) show ?thesis by (simp add: table_ok_def)
qed

lemma record_touches:
  assumes "table_ok cs m" and "dispatch_stream_record x (\<lambda>_. alive) bs w r (m, []) = (res, m', l)" and "(i, c, b) \<in> set cs"
  shows "filter (touches c b) l = (if i = record_id r then l else [])"
proof (cases "l = []")
  case False
  with record_frame[OF assms(2)] obtain e where e: "hm_get m (record_id r) = Some e" "list_all (about e) l" by auto
  have "\<exists>c' b'. (record_id r, c', b') \<in> set cs \<and> owns c' b' e" using assms(1) e(1) unfolding table_ok_def by blast
  then obtain c' b' where k: "(record_id r, c', b') \<in> set cs" "owns c' b' e" by blast
  have ok: "clients_ok cs" using assms(1) by (simp add: table_ok_def)
  show ?thesis
  proof (cases "i = record_id r")
    case True
    with clients_unique(1)[OF ok assms(3) k(1)] have "c = c'" "b = b'" by auto
    with e(2) k(2) True show ?thesis by (auto simp: list_all_iff filter_id_conv dest: about_touches)
  next
    case False
    with clients_unique[OF ok assms(3) k(1)] have "c' \<noteq> c" "b' \<noteq> b" by auto
    with e(2) k(2) False show ?thesis by (auto simp: list_all_iff filter_empty_conv dest: about_not_touches)
  qed
qed simp

definition own :: "string \<Rightarrow> stream_record list \<Rightarrow> stream_record list" where
  "own i rs = filter (\<lambda>r. record_id r = i) rs"

lemma own_simps [simp]:
  "own i [] = []" "own i (r # rs) = (if record_id r = i then r # own i rs else own i rs)"
  by (simp_all add: own_def)

text \<open>A run that succeeds is, for each client, the run of its own records.\<close>

lemma run_records_own:
  assumes "table_ok cs m" and "run_records x (\<lambda>_. alive) bs w rs (m, []) = Some (m', l)" and "(i, c, b) \<in> set cs"
  shows "run_records x (\<lambda>_. alive) bs w (own i rs) (only i m, []) = Some (only i m', filter (touches c b) l)"
  using assms(1,2)
proof (induction rs arbitrary: m l)
  case (Cons r rs)
  obtain res m1 l1 where d: "dispatch_stream_record x (\<lambda>_. alive) bs w r (m, []) = (res, m1, l1)" by (metis prod.exhaust)
  with Cons.prems(2) obtain u where res: "res = Inr u" by (cases res) auto
  from d res Cons.prems(2) run_records_log[of x alive bs w rs m1 l1] obtain l2 where
    l2: "run_records x (\<lambda>_. alive) bs w rs (m1, []) = Some (m', l2)" "l = l1 @ l2" by auto
  note IH = Cons.IH[OF table_ok_step[OF Cons.prems(1) d] l2(1)]
  note own1 = record_touches[OF Cons.prems(1) d assms(3)]
  show ?case
  proof (cases "record_id r = i")
    case True
    with record_frame[OF d] have "dispatch_stream_record x (\<lambda>_. alive) bs w r (only i m, []) = (Inr u, only i m1, l1)"
      by (auto simp: res)
    with True IH own1 l2(2) run_records_log[of x alive bs w "own i rs" "only i m1" l1] show ?thesis by simp
  next
    case False
    with record_frame[OF d] have "only i m1 = only i m" by auto
    with False IH own1 l2(2) show ?thesis by simp
  qed
qed simp

text \<open>A run fails only if the run of the records of some id fails.\<close>

lemma run_records_fails:
  assumes "run_records x (\<lambda>_. alive) bs w rs (m, []) = None"
  shows "\<exists>i. run_records x (\<lambda>_. alive) bs w (own i rs) (only i m, []) = None"
  using assms
proof (induction rs arbitrary: m)
  case (Cons r rs)
  obtain res m1 l1 where d: "dispatch_stream_record x (\<lambda>_. alive) bs w r (m, []) = (res, m1, l1)" by (metis prod.exhaust)
  from record_frame[OF d] have f: "dispatch_stream_record x (\<lambda>_. alive) bs w r (only (record_id r) m, []) = (res, only (record_id r) m1, l1)"
    "\<And>j. j \<noteq> record_id r \<Longrightarrow> only j m1 = only j m" by auto
  show ?case
  proof (cases res)
    case (Inl err)
    with f(1) show ?thesis by (intro exI[of _ "record_id r"]) simp
  next
    case (Inr u)
    with d Cons.prems run_records_log[of x alive bs w rs m1 l1] have "run_records x (\<lambda>_. alive) bs w rs (m1, []) = None" by auto
    from Cons.IH[OF this] obtain i where i: "run_records x (\<lambda>_. alive) bs w (own i rs) (only i m1, []) = None" by blast
    show ?thesis
    proof (cases "i = record_id r")
      case True
      with i Inr f(1) run_records_log[of x alive bs w "own i rs" "only i m1" l1] show ?thesis
        by (intro exI[of _ i]) simp
    next
      case False
      with i f(2) show ?thesis by (intro exI[of _ i]) auto
    qed
  qed
qed simp

lemma run_records_table_ok:
  "run_records x (\<lambda>_. alive) bs w rs (m, []) = Some (m', l) \<Longrightarrow> table_ok cs m \<Longrightarrow> table_ok cs m'"
proof (induction rs arbitrary: m l)
  case (Cons r rs)
  obtain res m1 l1 where d: "dispatch_stream_record x (\<lambda>_. alive) bs w r (m, []) = (res, m1, l1)" by (metis prod.exhaust)
  with Cons.prems(1) obtain u where res: "res = Inr u" by (cases res) auto
  with d Cons.prems(1) run_records_log[of x alive bs w rs m1 l1] obtain l2 where
    "run_records x (\<lambda>_. alive) bs w rs (m1, []) = Some (m', l2)" by auto
  from Cons.IH[OF this table_ok_step[OF Cons.prems(2) d]] show ?case .
qed simp

lemma start_table_ok:
  assumes "clients_ok cs"
  shows "table_ok cs (start_table cs)"
proof -
  have "\<exists>c b. (i, c, b) \<in> set cs \<and> owns c b e" if "hm_get (start_table cs) i = Some e" for i e
  proof -
    have "(i, e) \<in> set (start_table cs)" using that by (auto dest: map_of_SomeD)
    then show ?thesis by (auto simp: start_table_def owns_def)
  qed
  with assms show ?thesis by (simp add: table_ok_def)
qed

text \<open>
  Property C16: the clients of a stream do not see each other. When every receiver is there or gone
  for the whole stream, a stream of records either fails because the records of some one id, on their
  own, fail, or each client gets exactly the messages, in the order, that its own records give on
  their own, and is left in the table exactly when they leave it there.
\<close>

theorem stream_isolation:
  assumes "table_ok cs m" and "(i, c, b) \<in> set cs"
  shows "case run_records x (\<lambda>_. alive) bs w rs (m, lg) of
      None \<Rightarrow> \<exists>j. run_records x (\<lambda>_. alive) bs w (own j rs) (only j m, []) = None
    | Some (m', lg') \<Rightarrow> \<exists>new. lg' = lg @ new \<and>
        run_records x (\<lambda>_. alive) bs w (own i rs) (only i m, []) = Some (only i m', filter (touches c b) new)"
proof (cases "run_records x (\<lambda>_. alive) bs w rs (m, [])")
  case None
  with run_records_fails[OF None] run_records_log[of x alive bs w rs m lg] show ?thesis by simp
next
  case (Some s)
  obtain m' l where s: "s = (m', l)" by force
  with run_records_own[OF assms(1) Some[unfolded s] assms(2)] Some run_records_log[of x alive bs w rs m lg]
  show ?thesis by simp
qed

definition head_of_client :: "string \<Rightarrow> stream_record" where
  "head_of_client i = Interleaved \<lparr>ir_v = 1, ir_id = i, ir_type = RHead, ir_status_code = Some 201, ir_headers = [],
     ir_cookies = [], ir_body = None, ir_is_base64_encoded = False, ir_message = None\<rparr>"

definition end_of_client :: "string \<Rightarrow> stream_record" where
  "end_of_client i = Interleaved \<lparr>ir_v = 1, ir_id = i, ir_type = REnd, ir_status_code = None, ir_headers = [],
     ir_cookies = [], ir_body = None, ir_is_base64_encoded = False, ir_message = None\<rparr>"

definition isolation_stream :: "stream_record list" where
  "isolation_stream = [head_of_client ''a'', head_of_client ''b'', end_of_client ''b'', end_of_client ''a'']"

theorem stream_isolation_witness:
  "\<exists>m' new. run_records plain_ext (\<lambda>_ _. True) 2 7 isolation_stream (start_table [(''a'', 1, 11), (''b'', 2, 12)], []) = Some (m', new) \<and>
     filter (touches 2 12) new = [Init 2 (InitStream \<lparr>sh_status = 201, sh_headers = [],
       sh_meta = \<lparr>rm_batch_size = 2, rm_batch_wait_ms = 7\<rparr>\<rparr>) True, BodyClosed 12]"
proof -
  let ?cs = "[(''a'', 1, 11), (''b'', 2, 12)] :: clients"
  have ok: "table_ok ?cs (start_table ?cs)" by (rule start_table_ok) (simp add: clients_ok_def)
  have run: "run_records plain_ext (\<lambda>_ _. True) 2 7 isolation_stream (start_table ?cs, []) \<noteq> None"
    "run_records plain_ext (\<lambda>_ _. True) 2 7 (own ''b'' isolation_stream) (only ''b'' (start_table ?cs), []) =
      Some ([], [Init 2 (InitStream \<lparr>sh_status = 201, sh_headers = [],
       sh_meta = \<lparr>rm_batch_size = 2, rm_batch_wait_ms = 7\<rparr>\<rparr>) True, BodyClosed 12])"
    by code_simp+
  from stream_isolation[OF ok, of "''b''" 2 12 plain_ext "\<lambda>_. True" 2 7 isolation_stream "[]"] run show ?thesis
    by (auto split: option.splits prod.splits)
qed

end
