(* ===== verification/Gw_Merge.thy ===== *)
theory Gw_Merge
  imports Gw_Isolation Gw_Lp_Service Ad_Select
begin

text \<open>
  Functions that answer the items of a batch one by one, on one stream. Whoever writes the stream (the
  Rust adapter through \<^verbatim>\<open>ConcurrentSelect\<close>, the Node adapter through its workers) mixes the records of the
  items; the contract \<open>item_streams\<close> says what the records of one item do on their own, and gives what
  every client gets from the mixture.
\<close>

abbreviation all_alive :: env where
  "all_alive \<equiv> \<lambda>_ _. True"

lemma run_records_append:
  "run_records x env bs w (a @ b) s =
     (case run_records x env bs w a s of None \<Rightarrow> None | Some s' \<Rightarrow> run_records x env bs w b s')"
  by (induction a arbitrary: s) (auto split: prod.splits sum.splits)

lemma run_lines_of_records:
  "list_all2 (\<lambda>l r. parse_stream_record x l = Inr r) ls rs \<Longrightarrow> run_records x env bs w rs s = Some s' \<Longrightarrow>
   run_lines x env bs w ls s = Inr s'"
proof (induction ls rs arbitrary: s rule: list_all2_induct)
  case (Cons l ls r rs)
  from Cons.prems obtain u s1 where "dispatch_stream_record x env bs w r s = (Inr u, s1)"
    "run_records x env bs w rs s1 = Some s'" by (auto split: prod.splits sum.splits)
  with Cons show ?case by (simp add: handle_line_def)
qed simp

lemma own_of_tagged:
  assumes "\<And>p. p \<in> set tout \<Longrightarrow> record_id (g (snd p)) = i \<longleftrightarrow> fst p = k"
  shows "own i (map (g \<circ> snd) tout) = map g (proj k tout)"
  using assms by (induction tout) auto

lemma in_proj: "(k, r) \<in> set ps \<Longrightarrow> r \<in> set (proj k ps)"
  by (auto simp: proj_def image_iff intro!: bexI[of _ "(k, r)"])

subsection \<open>Printed records\<close>

text \<open>A record on a line of its own, as the gateway reads it back.\<close>

definition record_line :: "ext \<Rightarrow> bytes \<Rightarrow> stream_record \<Rightarrow> bool" where
  "record_line x l r \<longleftrightarrow> (\<exists>b. l = b @ [newline] \<and> b \<noteq> [] \<and> last b \<noteq> carriage_return \<and> newline \<notin> set b \<and>
     parse_stream_record x b = Inr r)"

lemma record_lines_read:
  assumes "list_all2 (record_line x) ls rs" and "run_records x env (length m) w rs (m, lg) = Some ([], lg')"
  shows "stream_text x env w (concat ls) m lg = lg'"
proof -
  obtain bs where bs: "ls = map (\<lambda>b. b @ [newline]) bs" "list_all2 (\<lambda>b r. parse_stream_record x b = Inr r) bs rs"
    "\<forall>b \<in> set bs. b \<noteq> [] \<and> last b \<noteq> carriage_return \<and> newline \<notin> set b"
    using assms(1)
  proof (induction ls rs arbitrary: thesis rule: list_all2_induct)
    case Nil
    then show ?case by (metis list.set(1) empty_iff list.simps(8) list_all2_Nil)
  next
    case (Cons l ls r rs)
    obtain bs where bs: "ls = map (\<lambda>b. b @ [newline]) bs" "list_all2 (\<lambda>b r. parse_stream_record x b = Inr r) bs rs"
      "\<forall>b \<in> set bs. b \<noteq> [] \<and> last b \<noteq> carriage_return \<and> newline \<notin> set b" by (rule Cons.IH)
    obtain b where b: "l = b @ [newline]" "b \<noteq> [] \<and> last b \<noteq> carriage_return \<and> newline \<notin> set b" "parse_stream_record x b = Inr r"
      using Cons.hyps(1) unfolding record_line_def by blast
    show ?case by (rule Cons.prems[of "b # bs"]) (use b bs in simp_all)
  qed
  have lines: "lines_of (concat ls) = bs" "rest_of (concat ls) = []"
    using lines_of_records[of bs] bs(1,3) by simp_all
  from run_lines_of_records[OF bs(2) assms(2)] show ?thesis
    by (simp add: stream_text_def lines finish_stream_def strip_tail_def)
qed

subsection \<open>The contract\<close>

text \<open>A mixture of what a batch gives, each piece tagged with the place of its item.\<close>

definition mixes :: "('i \<Rightarrow> 'a list) \<Rightarrow> 'i list \<Rightarrow> (nat \<times> 'a) list \<Rightarrow> bool" where
  "mixes f batch tout \<longleftrightarrow> (\<forall>k. proj k tout = (if k < length batch then f (batch ! k) else []))"

lemma mixes_member: "mixes f batch tout \<Longrightarrow> (k, r) \<in> set tout \<Longrightarrow> k < length batch \<and> r \<in> set (f (batch ! k))"
  using in_proj[of k r tout] by (auto simp: mixes_def split: if_splits)

lemma proj_map: "proj k (map (\<lambda>(k, r). (k, g r)) tout) = map g (proj k tout)"
  by (induction tout) auto

lemma mixes_map: "mixes f batch tout \<Longrightarrow> mixes (map g \<circ> f) batch (map (\<lambda>(k, r). (k, g r)) tout)"
  by (simp add: mixes_def proj_map)

text \<open>
  \<open>recs\<close> are the records of an item as the gateway decodes them, \<open>events\<close> what a client that waits on the
  channels \<open>c\<close> and \<open>b\<close> for the item is to see, where that is defined.
\<close>

locale item_streams =
  fixes x :: ext and bs w :: nat and id_of :: "'i \<Rightarrow> string" and recs :: "'i \<Rightarrow> stream_record list"
    and events :: "chan \<Rightarrow> chan \<Rightarrow> 'i \<Rightarrow> log option"
  assumes recs_id: "r \<in> set (recs item) \<Longrightarrow> record_id r = id_of item"
    and recs_run: "events c b item = Some evs \<Longrightarrow>
      run_records x all_alive bs w (recs item) ([(id_of item, \<lparr>st_init = Some c, st_body = b\<rparr>)], []) = Some ([], evs)"
begin

lemma own_mixed:
  assumes mix: "mixes recs batch tout" and dist: "distinct (map id_of batch)" and k: "k < length batch"
  shows "own (id_of (batch ! k)) (map snd tout) = recs (batch ! k)"
proof -
  have "record_id (snd p) = id_of (batch ! k) \<longleftrightarrow> fst p = k" if "p \<in> set tout" for p
  proof -
    from mixes_member[OF mix, of "fst p" "snd p"] that
    have j: "fst p < length batch" "record_id (snd p) = id_of (batch ! fst p)" by (auto simp: recs_id)
    with k dist show ?thesis by (simp add: distinct_conv_nth) (metis nth_map)
  qed
  with own_of_tagged[of tout "\<lambda>r. r" "id_of (batch ! k)" k] k mix show ?thesis by (simp add: mixes_def comp_def)
qed

lemma own_nobody: "mixes recs batch tout \<Longrightarrow> i \<notin> id_of ` set batch \<Longrightarrow> own i (map snd tout) = []"
  using mixes_member by (force simp: own_def filter_empty_conv recs_id)

lemma start_entry:
  assumes "distinct (map id_of batch)" and "map fst cs = map id_of batch" and "(id_of item, c, b) \<in> set cs"
  shows "only (id_of item) (start_table cs) = [(id_of item, \<lparr>st_init = Some c, st_body = b\<rparr>)]"
proof -
  have "map fst (start_table cs) = map id_of batch" by (simp add: start_table_def assms(2)[symmetric] comp_def case_prod_beta)
  with assms(1) have "distinct (map fst (start_table cs))" by simp
  moreover have "(id_of item, \<lparr>st_init = Some c, st_body = b\<rparr>) \<in> set (start_table cs)"
    using assms(3) by (force simp: start_table_def)
  ultimately show ?thesis by simp
qed

lemma client_run:
  assumes mix: "mixes recs batch tout" and dist: "distinct (map id_of batch)" and cs: "map fst cs = map id_of batch"
    and item: "item \<in> set batch" and k: "(id_of item, c, b) \<in> set cs" and evs: "events c b item = Some evs"
  shows "run_records x all_alive bs w (own (id_of item) (map snd tout)) (only (id_of item) (start_table cs), []) = Some ([], evs)"
proof -
  from item obtain n where "n < length batch" "item = batch ! n" by (auto simp: in_set_conv_nth)
  with own_mixed[OF mix dist] recs_run[OF evs] start_entry[OF dist cs k] show ?thesis by simp
qed

lemma mixed_total:
  assumes mix: "mixes recs batch tout" and dist: "distinct (map id_of batch)" and cs: "map fst cs = map id_of batch"
    and good: "\<And>item c b. item \<in> set batch \<Longrightarrow> events c b item \<noteq> None"
  shows "run_records x all_alive bs w (map snd tout) (start_table cs, []) \<noteq> None"
proof
  assume "run_records x all_alive bs w (map snd tout) (start_table cs, []) = None"
  from run_records_fails[OF this] obtain i where
    i: "run_records x all_alive bs w (own i (map snd tout)) (only i (start_table cs), []) = None" by blast
  show False
  proof (cases "i \<in> id_of ` set batch")
    case True
    then obtain item where item: "item \<in> set batch" "i = id_of item" by blast
    then have "i \<in> set (map fst cs)" by (simp add: cs)
    then obtain c b where "(i, c, b) \<in> set cs" by auto
    with client_run[OF mix dist cs item(1), of c b] good[OF item(1), of c b] item(2) i show False by auto
  next
    case False
    with own_nobody[OF mix] i show False by simp
  qed
qed

text \<open>Every client gets its own events and nobody is left.\<close>

lemma run_mixed:
  assumes mix: "mixes recs batch tout" and dist: "distinct (map id_of batch)"
    and cs: "clients_ok cs" "map fst cs = map id_of batch"
    and good: "\<And>item c b. item \<in> set batch \<Longrightarrow> events c b item \<noteq> None"
  shows "\<exists>new. run_records x all_alive bs w (map snd tout) (start_table cs, lg) = Some ([], lg @ new) \<and>
    (\<forall>item \<in> set batch. \<forall>c b. (id_of item, c, b) \<in> set cs \<longrightarrow> events c b item = Some (filter (touches c b) new))"
proof -
  have tab: "table_ok cs (start_table cs)" by (rule start_table_ok[OF cs(1)])
  from mixed_total[OF mix dist cs(2) good] obtain m' new where
    run: "run_records x all_alive bs w (map snd tout) (start_table cs, []) = Some (m', new)" by fastforce
  have seen: "only (id_of item) m' = [] \<and> events c b item = Some (filter (touches c b) new)"
    if item: "item \<in> set batch" and k: "(id_of item, c, b) \<in> set cs" for item c b
  proof -
    from good[OF item, of c b] obtain evs where "events c b item = Some evs" by auto
    with client_run[OF mix dist cs(2) item k] run_records_own[OF tab run k] show ?thesis by simp
  qed
  have gone: "hm_get m' i = None" for i
  proof (rule ccontr)
    assume i: "hm_get m' i \<noteq> None"
    with run_records_table_ok[OF run tab] obtain c b where k: "(i, c, b) \<in> set cs" unfolding table_ok_def by blast
    then have "i \<in> set (map fst cs)" by force
    then obtain item where "item \<in> set batch" "i = id_of item" by (auto simp: cs(2))
    with seen[of item c b] k i show False by auto
  qed
  have "m' = []"
  proof (cases m')
    case (Cons p ps)
    with gone[of "fst p"] show ?thesis by (simp add: hm_get_None_iff)
  qed
  with run seen run_records_log[of x "\<lambda>_. True" bs w "map snd tout" "start_table cs" lg] show ?thesis by auto
qed

lemma mixed_answers:
  assumes mix: "mixes recs batch tout" and lines: "list_all2 (record_line x) out (map snd tout)"
    and chunks: "concat chunks = concat out" "length (concat chunks) \<le> max_buffer_bytes"
    and dist: "distinct (map id_of batch)" and cs: "clients_ok cs" "map fst cs = map id_of batch" and bs: "bs = length batch"
    and good: "\<And>item c b. item \<in> set batch \<Longrightarrow> events c b item \<noteq> None"
  shows "\<exists>new. dispatch_response_stream x (\<lambda>_ _. True) w (map Inr chunks) (start_table cs) lg = lg @ new \<and>
    (\<forall>item \<in> set batch. \<forall>c b. (id_of item, c, b) \<in> set cs \<longrightarrow> events c b item = Some (filter (touches c b) new))"
proof -
  have size: "length (start_table cs) = bs" using arg_cong[OF cs(2), of length] by (simp add: start_table_def bs)
  from run_mixed[OF mix dist cs good] obtain new where
    new: "run_records x all_alive bs w (map snd tout) (start_table cs, lg) = Some ([], lg @ new)"
    "\<forall>item \<in> set batch. \<forall>c b. (id_of item, c, b) \<in> set cs \<longrightarrow> events c b item = Some (filter (touches c b) new)" by blast
  with record_lines_read[OF lines, of all_alive "start_table cs" w] dispatch_response_stream_text[OF chunks(2)] chunks(1) size
  show ?thesis by auto
qed

end

end
