(* ===== verification/Ad_Service.thy ===== *)
theory Ad_Service
  imports Ad_Wire Gw_Merge
begin

text \<open>
  The gateway with a function that uses the Rust adapter: what every client of a batch gets for what
  the handler answered to its request, by the buffered document and by the merged stream of records.
\<close>

subsection \<open>Buffered\<close>

lemma find_gateway_item:
  assumes "distinct (map (item_request_id req_id) batch)" and "item \<in> set batch"
  shows "find (\<lambda>it. ri_id it = item_request_id req_id item) (map (gateway_item \<circ> record_of x req_id handler) batch) =
    Some (gateway_item (record_of x req_id handler item))"
  using assms
proof (induction batch)
  case (Cons t batch)
  have id: "ri_id (gateway_item (record_of x req_id handler u)) = item_request_id req_id u" for u
    by (simp add: gateway_item_def record_of_id)
  from Cons.prems have "item_request_id req_id t = item_request_id req_id item \<Longrightarrow> t = item" by (auto simp: image_iff)
  with Cons id show ?case by auto
qed simp

text \<open>
  Property C3: a batch answered by the buffered adapter reaches its clients. When the adapter's call has
  returned, in whatever order the handler calls ended, and its document was printed and read back, the
  gateway gives every client of the batch exactly one reply: the conversion of what the handler
  answered to the request of that client (of the 500 of a failed handler, or of a streaming body).
\<close>

theorem buffered_adapter_answers:
  assumes "handle x req_id handler a event es = Some h" and "handle_result h = Some items"
    and "\<forall>item \<in> set (be_batch event). pred_option response_typed (handler item)"
    and "distinct (map (item_request_id req_id) (be_batch event))"
    and "wire_ok x (enc_adapter_response items)" and "x_json_print x (enc_adapter_response items) = Some b"
    and "mset pending = mset (map (\<lambda>item. (item_request_id req_id item, ch item)) (be_batch event))"
  shows "\<exists>new. dispatch_buffered x w b pending lg = lg @ new \<and>
    mset new = mset (map (\<lambda>item. Reply (ch item) (with_meta (length (be_batch event)) w
      (item_response x (gateway_item (record_of x req_id handler item))))) (be_batch event))"
proof -
  let ?item_rec = "record_of x req_id handler" and ?batch = "be_batch event"
  have "handling_ok ?item_rec (batch_concurrency a event) ?batch h"
    using assms(1) handle_run_ok[OF _ handle_begin_ok] unfolding handle_def by blast
  from handling_result[OF this assms(2)] have items: "items = map ?item_rec ?batch" .
  have "list_all item_typed items" using assms(3) by (auto simp: items list_all_iff record_of_typed)
  from dec_adapter_response[OF this] assms(5,6)
  have dec: "from_slice x dec_batch_response b = Inr \<lparr>br_v = 1, br_responses = map gateway_item items\<rparr>"
    by (auto simp: from_slice_def elim: wire_okE)
  have out: "buffered_outcome x b (item_request_id req_id item) = item_response x (gateway_item (?item_rec item))"
    if "item \<in> set ?batch" for item
    using find_gateway_item[OF assms(4) that, of x handler] by (simp add: buffered_outcome_def dec buffered_answer_def items)
  from dispatch_buffered_batch[OF assms(4,7) out] show ?thesis .
qed

definition buffered_ad_ext :: ext where
  "buffered_ad_ext = plain_ext\<lparr>x_json_print := (\<lambda>j. Some ''doc''),
     x_json_parse := (\<lambda>b. Some (enc_adapter_response (map (record_of plain_ext Some sample_handler) [''a'', ''b''])))\<rparr>"

theorem buffered_adapter_answers_witness:
  "\<exists>new. dispatch_buffered buffered_ad_ext 5 ''doc'' [(''b'', 2), (''a'', 1)] [] = new \<and>
    mset new = {# Reply 1 (with_meta 2 5 (text_response 200 ''ok'')),
      Reply 2 (with_meta 2 5 
        \<lparr>gr_status = 500, gr_headers = [(''content-type'', ''text/plain'')], gr_body = ''internal error'', gr_meta = None\<rparr>) #}"
proof -
  let ?ch = "\<lambda>i. if i = ''a'' then 1 else 2 :: chan"
  have items: "handle_result \<lparr>ha_iter = [], ha_running = [], ha_out = map (Some \<circ> record_of buffered_ad_ext Some sample_handler) [''a'', ''b'']\<rparr> =
      Some (map (record_of plain_ext Some sample_handler) [''a'', ''b''])"
  proof -
    have "map (record_of plain_ext Some sample_handler) [''a'', ''b''] = map (record_of buffered_ad_ext Some sample_handler) [''a'', ''b'']"
      by (simp only: sample_records)
    then show ?thesis unfolding handle_result_def by simp
  qed
  have typed: "\<forall>item \<in> set (be_batch sample_event). pred_option response_typed (sample_handler item)"
    by (simp add: sample_event_def sample_handler_def handler_response_text_def response_typed_def hm_ok_def)
  have ids: "distinct (map (item_request_id Some) (be_batch sample_event))"
    "mset [(''b'', 2), (''a'', 1)] = mset (map (\<lambda>item. (item_request_id Some item, ?ch item)) (be_batch sample_event))"
    by (simp_all add: sample_event_def item_request_id_def)
  have wire: "wire_ok buffered_ad_ext (enc_adapter_response (map (record_of plain_ext Some sample_handler) [''a'', ''b'']))"
    "x_json_print buffered_ad_ext (enc_adapter_response (map (record_of plain_ext Some sample_handler) [''a'', ''b''])) = Some ''doc''"
    by (simp_all add: wire_ok_def buffered_ad_ext_def)
  have resp: "item_response buffered_ad_ext (gateway_item (record_of buffered_ad_ext Some sample_handler ''a'')) = text_response 200 ''ok''"
    "item_response buffered_ad_ext (gateway_item (record_of buffered_ad_ext Some sample_handler ''b'')) =
      \<lparr>gr_status = 500, gr_headers = [(''content-type'', ''text/plain'')], gr_body = ''internal error'', gr_meta = None\<rparr>"
    by code_simp+
  from buffered_adapter_answers[OF sample_handled items typed ids(1) wire ids(2), of 5 "[]"] resp show ?thesis
    by (simp add: sample_event_def numeral_2_eq_2)
qed

subsection \<open>What a client sees of a handler's result\<close>

text \<open>
  The specification: the messages on the channels of the client that waits for an item; \<open>None\<close> when
  the response cannot be converted (a status, header, cookie or base64 text that is not valid).
\<close>

definition legacy_response :: "ext \<Rightarrow> handler_response option \<Rightarrow> ext_error + gateway_response" where
  "legacy_response x result =
     (let internal_error = build_gateway_response_parts x 500 [(''content-type'', ''text/plain'')] [] ''internal error'' False
      in case result of
           None \<Rightarrow> internal_error
         | Some resp \<Rightarrow>
             (case normalize_body x (hr_body resp) (hr_is_base64_encoded resp) of
                Inl _ \<Rightarrow> internal_error
              | Inr (body, is_b64) \<Rightarrow>
                  build_gateway_response_parts x (response_status resp) (last_wins (normalize_headers (hr_headers resp)) [])
                    (normalize_cookies (hr_cookies resp)) body is_b64))"

fun decoded_chunks :: "ext \<Rightarrow> (string \<times> bool) list \<Rightarrow> bytes list option" where
  "decoded_chunks x [] = Some []"
| "decoded_chunks x ((s, is_b64) # cs) =
     (case decode_body_bytes x s is_b64 of Inl _ \<Rightarrow> None | Inr bs \<Rightarrow> map_option ((#) bs) (decoded_chunks x cs))"

definition client_events :: "ext \<Rightarrow> nat \<Rightarrow> nat \<Rightarrow> chan \<Rightarrow> chan \<Rightarrow> bool \<Rightarrow> handler_response option \<Rightarrow> log option" where
  "client_events x bs w c b interleaved result =
     (if \<not> interleaved then
        (case legacy_response x result of
           Inl _ \<Rightarrow> None
         | Inr resp \<Rightarrow> Some [Init c (InitResponse (with_meta bs w resp)) True, BodyClosed b])
      else
        (case result of
           None \<Rightarrow> Some [Init c (InitResponse (with_meta bs w
             (text_response (if x_status x 500 then 500 else 502) ''internal error''))) True, BodyClosed b]
         | Some resp \<Rightarrow>
             (case (stream_head_of x bs w (response_status resp) (last_wins (normalize_headers (hr_headers resp)) [])
                 (normalize_cookies (hr_cookies resp)), decoded_chunks x (body_chunks x (hr_is_base64_encoded resp) (hr_body resp))) of
                (Inr head, Some chunks) \<Rightarrow>
                  Some (Init c (InitStream head) True # map (\<lambda>bs. Body b bs True) chunks @ [BodyClosed b])
              | _ \<Rightarrow> None)))"

subsection \<open>The run of one item's records\<close>

lemmas record_run_defs = dispatch_stream_record_def dispatch_entry_def dispatch_legacy_def dispatch_head_def dispatch_chunk_def
  dispatch_end_def dispatch_error_def send_chunk_def send_stream_head_def send_init_def send_body_def drop_entry_def
  record_v_def record_id_def legacy_of_ndjson_def interleaved_of_ndjson_def record_variant_def Let_def

lemma run_chunks:
  assumes "decoded_chunks x cs = Some chunks"
  shows "run_records x all_alive bs w (map (decode_ndjson \<circ> (\<lambda>(body, is_b64). NdInterleaved (text_chunk i body is_b64))) cs)
      ([(i, \<lparr>st_init = None, st_body = b\<rparr>)], lg) =
    Some ([(i, \<lparr>st_init = None, st_body = b\<rparr>)], lg @ map (\<lambda>bs. Body b bs True) chunks)"
  using assms
proof (induction x cs arbitrary: chunks lg rule: decoded_chunks.induct)
  case (2 x s is_b64 cs)
  from "2.prems" obtain bytes more where h: "decode_body_bytes x s is_b64 = Inr bytes" "decoded_chunks x cs = Some more"
    "chunks = bytes # more" by (auto split: sum.splits)
  have "dispatch_stream_record x all_alive bs w (decode_ndjson (NdInterleaved (text_chunk i s is_b64)))
      ([(i, \<lparr>st_init = None, st_body = b\<rparr>)], lg) =
    (Inr (), [(i, \<lparr>st_init = None, st_body = b\<rparr>)], lg @ [Body b bytes True])" for lg
    by (simp add: text_chunk_def record_run_defs h(1))
  with "2.IH"[OF h(1,2)] h(3) show ?case by simp
qed simp

lemma run_item:
  assumes "client_events x bs w c b interleaved (handler item) = Some evs" and "i = item_request_id req_id item"
  shows "run_records x all_alive bs w (map decode_ndjson (item_records x req_id handler interleaved item))
      ([(i, \<lparr>st_init = Some c, st_body = b\<rparr>)], []) = Some ([], evs)"
proof (cases interleaved)
  case False
  then show ?thesis using assms
    by (auto simp: client_events_def legacy_response_def item_records_def legacy_error_def legacy_ok_def
        record_run_defs split: option.splits sum.splits)
next
  case True
  show ?thesis
  proof (cases "handler item")
    case None
    with True assms show ?thesis
      by (simp add: client_events_def item_records_def failure_record_def record_run_defs)
  next
    case (Some resp)
    note resp = Some True
    let ?cs = "body_chunks x (hr_is_base64_encoded resp) (hr_body resp)"
    from assms(1) resp obtain head chunks where h:
      "stream_head_of x bs w (response_status resp) (last_wins (normalize_headers (hr_headers resp)) [])
         (normalize_cookies (hr_cookies resp)) = Inr head" "decoded_chunks x ?cs = Some chunks"
      "evs = Init c (InitStream head) True # map (\<lambda>bs. Body b bs True) chunks @ [BodyClosed b]"
      by (auto simp: client_events_def split: sum.splits option.splits)
    have one: "dispatch_stream_record x all_alive bs w (decode_ndjson (NdInterleaved (head_record i resp)))
        ([(i, \<lparr>st_init = Some c, st_body = b\<rparr>)], []) =
      (Inr (), [(i, \<lparr>st_init = None, st_body = b\<rparr>)], [Init c (InitStream head) True])"
      by (simp add: head_record_def record_run_defs h(1))
    have last: "dispatch_stream_record x all_alive bs w (decode_ndjson (NdInterleaved (end_record i)))
        ([(i, \<lparr>st_init = None, st_body = b\<rparr>)], lg) = (Inr (), [], lg @ [BodyClosed b])" for lg
      by (simp add: end_record_def record_run_defs)
    show ?thesis
      using one last run_chunks[OF h(2), of bs w i b "[Init c (InitStream head) True]"] resp h(3) assms(2)
      by (simp add: item_records_def Let_def run_records_append del: decode_ndjson.simps)
  qed
qed

subsection \<open>The merged stream\<close>

interpretation rust: item_streams x bs w "item_request_id req_id"
  "\<lambda>item. map decode_ndjson (item_records x req_id handler il item)" "\<lambda>c b item. client_events x bs w c b il (handler item)"
  for x bs w req_id handler il
  by unfold_locales (auto simp: item_record_names intro: run_item)

text \<open>The merged stream of the adapter mixes the records of the items, each on a line the gateway reads.\<close>

lemma adapter_stream_mixes:
  assumes "polls ws (adapter_stream x req_id handler a event) = Some (out, s)" and "select_done s"
    and "\<forall>item \<in> set (be_batch event). pred_option response_typed (handler item) \<and>
      (\<forall>r \<in> set (item_records x req_id handler (ap_interleaved a) item). wire_ok x (enc_ndjson r))"
  shows "\<exists>tout. mixes (\<lambda>item. map decode_ndjson (item_records x req_id handler (ap_interleaved a) item)) (be_batch event) tout \<and>
    list_all2 (record_line x) out (map snd tout)"
proof -
  let ?recs = "item_records x req_id handler (ap_interleaved a)"
  have "adapter_stream x req_id handler a event =
      select_init (map (map (ndjson_line x)) (map ?recs (be_batch event))) (max (batch_concurrency a event) 1)"
    by (simp add: adapter_stream_def item_lines_def[abs_def] comp_def)
  with select_merged[of "max (batch_concurrency a event) 1" ws "ndjson_line x" "map ?recs (be_batch event)" out s] assms(1,2)
  obtain tout where out: "out = map (ndjson_line x \<circ> snd) tout" and mix: "mixes ?recs (be_batch event) tout"
    by (auto simp: mixes_def less_max_iff_disj)
  have "record_line x (ndjson_line x r) (decode_ndjson r)" if "(k, r) \<in> set tout" for k r
    using mixes_member[OF mix that] assms(3)
    unfolding record_line_def by (intro adapter_line[where handler = handler and item = "be_batch event ! k"]) auto
  then have "list_all2 (record_line x) out (map snd (map (\<lambda>(k, r). (k, decode_ndjson r)) tout))"
    by (auto simp: out list_all2_conv_all_nth case_prod_beta) (metis nth_mem prod.collapse)
  with mixes_map[OF mix, of decode_ndjson] show ?thesis unfolding comp_def by blast
qed

text \<open>
  Property C2: a batch answered by the streaming adapter reaches its clients. Whatever order the
  handlers' results and the chunks of their bodies came in, however many streams ran at a time and
  however the network cut the merged stream, every client gets exactly what the handler answered to
  its own request: the converted response, or in the interleaved format the head, then its chunks
  in order, then the end; and the 500 of a failed handler.
\<close>

theorem adapter_stream_answers:
  assumes "polls ws (adapter_stream x req_id handler a event) = Some (out, s)" and "select_done s"
    and "concat chunks = concat out" and "length (concat chunks) \<le> max_buffer_bytes"
    and "\<forall>item \<in> set (be_batch event). pred_option response_typed (handler item) \<and>
      (\<forall>r \<in> set (item_records x req_id handler (ap_interleaved a) item). wire_ok x (enc_ndjson r)) \<and>
      (\<forall>c b. client_events x (length (be_batch event)) w c b (ap_interleaved a) (handler item) \<noteq> None)"
    and "distinct (map (item_request_id req_id) (be_batch event))" and "clients_ok cs"
    and "map fst cs = map (item_request_id req_id) (be_batch event)"
  shows "\<exists>new. dispatch_response_stream x (\<lambda>_ _. True) w (map Inr chunks) (start_table cs) lg = lg @ new \<and>
    (\<forall>item \<in> set (be_batch event). \<forall>c b. (item_request_id req_id item, c, b) \<in> set cs \<longrightarrow>
       client_events x (length (be_batch event)) w c b (ap_interleaved a) (handler item) = Some (filter (touches c b) new))"
proof -
  from adapter_stream_mixes[OF assms(1,2)] assms(5) obtain tout where
    "mixes (\<lambda>item. map decode_ndjson (item_records x req_id handler (ap_interleaved a) item)) (be_batch event) tout"
    "list_all2 (record_line x) out (map snd tout)" by blast
  from rust.mixed_answers[OF this assms(3,4,6-8) refl, of w lg] assms(5) show ?thesis by blast
qed

definition stream_ad_ext :: ext where
  "stream_ad_ext = plain_ext\<lparr>
     x_json_print := (\<lambda>j. case j of JObj (_ # _ # (_, JStr t) # _) \<Rightarrow> Some t | _ \<Rightarrow> None),
     x_json_parse := (\<lambda>b. map_of (map (\<lambda>r. (case r of NdInterleaved n \<Rightarrow> nd_record_type n, enc_ndjson r))
       (concat (map (item_records plain_ext Some sample_handler True) [''a'', ''b'']))) b)\<rparr>"

declare poll_next.simps [code]

lemma sample_polls:
  "polls (replicate 5 [1, 0, 0]) (adapter_stream stream_ad_ext Some sample_handler (with_interleaved True batch_adapter) sample_event) =
    Some ([''error'' @ [newline], ''head'' @ [newline], ''chunk'' @ [newline], ''end'' @ [newline]],
      \<lparr>cs_iter = [], cs_active = [], cs_limit = 2, cs_exhausted = True\<rparr>)"
  by code_simp

theorem adapter_stream_answers_witness:
  "\<exists>new. dispatch_response_stream stream_ad_ext (\<lambda>_ _. True) 7 [Inr ''error'', Inr (newline # ''head'' @ newline # ''chunk''),
       Inr (newline # ''end'' @ [newline])] (start_table [(''a'', 1, 11), (''b'', 2, 12)]) [] = new \<and>
     filter (touches 1 11) new = [Init 1 (InitStream \<lparr>sh_status = 200, sh_headers = [],
       sh_meta = \<lparr>rm_batch_size = 2, rm_batch_wait_ms = 7\<rparr>\<rparr>) True, Body 11 ''ok'' True, BodyClosed 11] \<and>
     filter (touches 2 12) new = [Init 2 (InitResponse (with_meta 2 7 (text_response 500 ''internal error''))) True, BodyClosed 12]"
proof -
  let ?a = "with_interleaved True batch_adapter" and ?cs = "[(''a'', 1, 11), (''b'', 2, 12)] :: clients"
  let ?out = "[''error'' @ [newline], ''head'' @ [newline], ''chunk'' @ [newline], ''end'' @ [newline]]"
  let ?chunks = "[''error'', newline # ''head'' @ newline # ''chunk'', newline # ''end'' @ [newline]]"
  let ?s = "\<lparr>cs_iter = [], cs_active = [], cs_limit = 2, cs_exhausted = True\<rparr> :: bytes select"
  have facts: "select_done ?s" "concat ?chunks = concat ?out" "length (concat ?chunks) \<le> max_buffer_bytes"
    "distinct (map (item_request_id Some) (be_batch sample_event))" "clients_ok ?cs"
    "map fst ?cs = map (item_request_id Some) (be_batch sample_event)"
    by (simp_all add: select_done_def max_buffer_bytes_def sample_event_def item_request_id_def clients_ok_def)
  have events: "client_events stream_ad_ext 2 7 c b True (sample_handler ''a'') = Some [Init c (InitStream \<lparr>sh_status = 200, sh_headers = [],
       sh_meta = \<lparr>rm_batch_size = 2, rm_batch_wait_ms = 7\<rparr>\<rparr>) True, Body b ''ok'' True, BodyClosed b]"
    "client_events stream_ad_ext 2 7 c b True (sample_handler ''b'') =
       Some [Init c (InitResponse (with_meta 2 7 (text_response 500 ''internal error''))) True, BodyClosed b]" for c b
    by (simp_all add: client_events_def sample_handler_def handler_response_text_def response_status_def stream_ad_ext_def
        plain_ext_def stream_head_of_def headers_from_map_def decode_body_bytes_def)
  have wire: "list_all (\<lambda>item. list_all (\<lambda>r. wire_ok stream_ad_ext (enc_ndjson r)) (item_records stream_ad_ext Some sample_handler True item))
      (be_batch sample_event)"
    by code_simp
  have good: "\<forall>item \<in> set (be_batch sample_event). pred_option response_typed (sample_handler item) \<and>
      (\<forall>r \<in> set (item_records stream_ad_ext Some sample_handler (ap_interleaved ?a) item). wire_ok stream_ad_ext (enc_ndjson r)) \<and>
      (\<forall>c b. client_events stream_ad_ext (length (be_batch sample_event)) 7 c b (ap_interleaved ?a) (sample_handler item) \<noteq> None)"
    using wire events by (simp add: sample_event_def with_interleaved_def list_all_iff numeral_2_eq_2)
      (simp add: sample_handler_def handler_response_text_def response_typed_def hm_ok_def)
  from adapter_stream_answers[OF sample_polls facts(1-3) good facts(4-6), of "[]"] show ?thesis
    using events[of 1 11] events[of 2 12]
    by (simp add: sample_event_def item_request_id_def with_interleaved_def numeral_2_eq_2)
qed

end
