(* ===== verification/Na_Pool.thy ===== *)
theory Na_Pool
  imports Ad_Select Gw_Machine
begin

text \<open>
  The workers of the Node adapter (\<^verbatim>\<open>mapConcurrent\<close> and \<^verbatim>\<open>forEachConcurrent\<close> in
  \<^verbatim>\<open>lambda-kit/adapter-node/src/index.ts\<close>). A fixed number of workers claims the items of a batch in
  order, through the shared counter \<^verbatim>\<open>next\<close>; a worker claims again when its call has settled.

  What the call for an item does is a parameter: the outputs it gives one after the other (between
  them it waits, and other workers go on), and whether it ends by a rejection. A step is one output or
  one settling of one worker, in any order; JavaScript runs nothing else in between. A rejection ends
  \<^verbatim>\<open>Promise.all\<close>, and nothing that comes later reaches the caller.
\<close>

type_synonym 'a script = "'a list \<times> bool"

record 'a pool =
  po_next :: nat
  po_workers :: "(nat \<times> 'a script) option list"
  po_out :: "(nat \<times> 'a) list"
  po_rejected :: bool

text \<open>\<^verbatim>\<open>const i = next++; if (i >= items.length) return;\<close>: what the worker does next.\<close>

definition pool_claim :: "'a script list \<Rightarrow> nat \<Rightarrow> (nat \<times> 'a script) option" where
  "pool_claim scripts i = (if i \<ge> length scripts then None else Some (i, scripts ! i))"

definition pool_begin :: "nat \<Rightarrow> 'a script list \<Rightarrow> 'a pool" where
  "pool_begin concurrency scripts =
     (let n = min concurrency (length scripts)
      in \<lparr>po_next = n, po_workers = map (pool_claim scripts) [0..<n], po_out = [], po_rejected = False\<rparr>)"

definition pool_step :: "'a script list \<Rightarrow> nat \<Rightarrow> 'a pool \<Rightarrow> 'a pool option" where
  "pool_step scripts w p =
     (if po_rejected p \<or> w \<ge> length (po_workers p) then None
      else case po_workers p ! w of
        None \<Rightarrow> None
      | Some (k, a # as, rejects) \<Rightarrow>
          Some (p\<lparr>po_workers := (po_workers p)[w := Some (k, as, rejects)], po_out := po_out p @ [(k, a)]\<rparr>)
      | Some (k, [], True) \<Rightarrow> Some (p\<lparr>po_rejected := True\<rparr>)
      | Some (k, [], False) \<Rightarrow>
          Some (p\<lparr>po_workers := (po_workers p)[w := pool_claim scripts (po_next p)], po_next := Suc (po_next p)\<rparr>))"

fun pool_run :: "'a script list \<Rightarrow> nat list \<Rightarrow> 'a pool \<Rightarrow> 'a pool option" where
  "pool_run scripts [] p = Some p"
| "pool_run scripts (w # ws) p = (case pool_step scripts w p of None \<Rightarrow> None | Some p' \<Rightarrow> pool_run scripts ws p')"

definition pool_done :: "'a pool \<Rightarrow> bool" where
  "pool_done p \<longleftrightarrow> po_rejected p \<or> (\<forall>h \<in> set (po_workers p). h = None)"

lemma pool_run_append:
  "pool_run scripts (ws @ ws') p = (case pool_run scripts ws p of None \<Rightarrow> None | Some p' \<Rightarrow> pool_run scripts ws' p')"
  by (induction ws arbitrary: p) (auto split: option.splits)

interpretation pooling: machine "\<lambda>p w p'. pool_step scripts w p = Some p'" "\<lambda>p ws p'. pool_run scripts ws p = Some p'"
  for scripts
  by unfold_locales (auto simp: pool_run_append split: option.splits)

subsection \<open>What is left to do\<close>

text \<open>The outputs the item \<open>k\<close> still has to give: of the worker that has it, or all, or none.\<close>

definition held_by :: "nat \<Rightarrow> 'a pool \<Rightarrow> nat \<Rightarrow> 'a list \<Rightarrow> bool \<Rightarrow> bool" where
  "held_by w p k as r \<longleftrightarrow> w < length (po_workers p) \<and> po_workers p ! w = Some (k, as, r)"

text \<open>
  The invariant: a worker has an item that was claimed and no other worker has, with the outputs it
  has not given yet; what was claimed and is held by nobody is complete; what was not claimed has given
  nothing, and no worker stops before everything is claimed.
\<close>

definition unheld :: "'a pool \<Rightarrow> nat \<Rightarrow> bool" where
  "unheld p k \<longleftrightarrow> (\<forall>w as r. \<not> held_by w p k as r)"

definition pool_ok :: "nat \<Rightarrow> 'a script list \<Rightarrow> 'a pool \<Rightarrow> bool" where
  "pool_ok concurrency scripts p \<longleftrightarrow>
     length (po_workers p) = min concurrency (length scripts) \<and>
     (\<forall>w k as r. held_by w p k as r \<longrightarrow> k < length scripts \<and> k < po_next p \<and>
        scripts ! k = (proj k (po_out p) @ as, r)) \<and>
     (\<forall>v w k as bs q r. held_by v p k as q \<and> held_by w p k bs r \<longrightarrow> v = w) \<and>
     (\<forall>k. unheld p k \<longrightarrow> proj k (po_out p) =
        (if k < po_next p \<and> k < length scripts then fst (scripts ! k) else [])) \<and>
     (\<forall>k. unheld p k \<longrightarrow> k < po_next p \<longrightarrow> k < length scripts \<longrightarrow> \<not> snd (scripts ! k)) \<and>
     (po_rejected p \<longrightarrow> (\<exists>s \<in> set scripts. snd s)) \<and>
     (None \<in> set (po_workers p) \<longrightarrow> po_next p \<ge> length scripts)"

lemma pool_claim_Some [simp]: "pool_claim scripts i = Some (k, s) \<longleftrightarrow> i < length scripts \<and> k = i \<and> scripts ! i = s"
  by (auto simp: pool_claim_def)

lemma pool_claim_None [simp]: "pool_claim scripts i = None \<longleftrightarrow> i \<ge> length scripts"
  "None = pool_claim scripts i \<longleftrightarrow> i \<ge> length scripts"
  by (auto simp: pool_claim_def)

lemma held_by_update:
  "w < length (po_workers p) \<Longrightarrow> held_by v (p\<lparr>po_workers := (po_workers p)[w := h], po_out := out\<rparr>) k as r \<longleftrightarrow>
     (if v = w then h = Some (k, as, r) else held_by v p k as r)"
  "w < length (po_workers p) \<Longrightarrow> held_by v (p\<lparr>po_workers := (po_workers p)[w := h], po_next := n\<rparr>) k as r \<longleftrightarrow>
     (if v = w then h = Some (k, as, r) else held_by v p k as r)"
  "held_by v (p\<lparr>po_rejected := b\<rparr>) k as r \<longleftrightarrow> held_by v p k as r"
  by (auto simp: held_by_def nth_list_update)

lemma pool_okI:
  assumes "length (po_workers p) = min c (length scripts)"
    and "\<And>w k as r. held_by w p k as r \<Longrightarrow> k < length scripts \<and> k < po_next p \<and> scripts ! k = (proj k (po_out p) @ as, r)"
    and "\<And>v w k as bs q r. held_by v p k as q \<Longrightarrow> held_by w p k bs r \<Longrightarrow> v = w"
    and "\<And>k. unheld p k \<Longrightarrow> proj k (po_out p) = (if k < po_next p \<and> k < length scripts then fst (scripts ! k) else [])"
    and "\<And>k. unheld p k \<Longrightarrow> k < po_next p \<Longrightarrow> k < length scripts \<Longrightarrow> \<not> snd (scripts ! k)"
    and "po_rejected p \<Longrightarrow> \<exists>s \<in> set scripts. snd s" and "None \<in> set (po_workers p) \<Longrightarrow> po_next p \<ge> length scripts"
  shows "pool_ok c scripts p"
  using assms unfolding pool_ok_def by blast

lemma pool_okD:
  assumes "pool_ok c scripts p"
  shows "length (po_workers p) = min c (length scripts)"
    and "held_by w p k as r \<Longrightarrow> k < length scripts \<and> k < po_next p \<and> scripts ! k = (proj k (po_out p) @ as, r)"
    and "held_by v p k as q \<Longrightarrow> held_by w p k bs r \<Longrightarrow> v = w"
    and "unheld p k \<Longrightarrow> proj k (po_out p) = (if k < po_next p \<and> k < length scripts then fst (scripts ! k) else [])"
    and "po_rejected p \<Longrightarrow> \<exists>s \<in> set scripts. snd s" and "unheld p k \<Longrightarrow> k < po_next p \<Longrightarrow> k < length scripts \<Longrightarrow> \<not> snd (scripts ! k)"
    and "None \<in> set (po_workers p) \<Longrightarrow> po_next p \<ge> length scripts"
  using assms unfolding pool_ok_def by blast+

lemma pool_begin_ok: "pool_ok c scripts (pool_begin c scripts)"
proof -
  let ?p = "pool_begin c scripts"
  have held: "held_by w ?p k as r \<longleftrightarrow> w < min c (length scripts) \<and> k = w \<and> scripts ! w = (as, r)" for w k as r
    by (auto simp: held_by_def pool_begin_def Let_def)
  have free: "unheld ?p k \<longleftrightarrow> \<not> k < min c (length scripts)" for k
    unfolding unheld_def held by (cases "scripts ! k") auto
  have init: "length (po_workers ?p) = min c (length scripts)" "po_next ?p = min c (length scripts)" "po_out ?p = []"
    "\<not> po_rejected ?p" "None \<notin> set (po_workers ?p)"
    by (auto simp: pool_begin_def Let_def)
  show ?thesis
    by (rule pool_okI) (simp_all add: init held free, blast)
qed

lemma none_updated: "None \<in> set (hs[w := h]) \<Longrightarrow> None \<in> set hs \<or> h = None"
  using set_update_subset_insert[of hs w h] by auto

lemma pool_give:
  assumes ok: "pool_ok c scripts p" and w: "held_by w p k (a # as) rejects"
  shows "pool_ok c scripts (p\<lparr>po_workers := (po_workers p)[w := Some (k, as, rejects)], po_out := po_out p @ [(k, a)]\<rparr>)"
    (is "pool_ok _ _ ?q")
proof (rule pool_okI)
  have "w < length (po_workers p)" using w by (simp add: held_by_def)
  note held = held_by_update(1)[OF this]
  note mine = pool_okD(2)[OF ok w]
  have still: "held_by w ?q k as rejects" by (simp add: held)
  have others: "held_by v ?q j bs r \<longleftrightarrow> held_by v p j bs r" if "j \<noteq> k" for v j bs r
    using w that by (auto simp: held) (auto simp: held_by_def)
  show "length (po_workers ?q) = min c (length scripts)" using pool_okD(1)[OF ok] by simp
  show "proj j (po_out ?q) = (if j < po_next ?q \<and> j < length scripts then fst (scripts ! j) else [])" if "unheld ?q j" for j
  proof -
    have "j \<noteq> k" using that still unfolding unheld_def by blast
    with that others have "unheld p j" unfolding unheld_def by blast
    with pool_okD(4)[OF ok] \<open>j \<noteq> k\<close> show ?thesis by simp
  qed
  show "j < length scripts \<and> j < po_next ?q \<and> scripts ! j = (proj j (po_out ?q) @ bs, r)"
    if "held_by v ?q j bs r" for v j bs r
  proof (cases "v = w")
    case True
    with that mine show ?thesis by (auto simp: held)
  next
    case False
    with that have v: "held_by v p j bs r" by (simp add: held)
    with pool_okD(3)[OF ok _ w] False have "j \<noteq> k" by blast
    with pool_okD(2)[OF ok v] show ?thesis by simp
  qed
  show "u = v" if "held_by u ?q j as' q" "held_by v ?q j bs r" for u v j as' bs q r
  proof (cases "j = k")
    case True
    with that pool_okD(3)[OF ok _ w] show ?thesis by (auto simp: held split: if_splits)
  next
    case False
    with that others pool_okD(3)[OF ok] show ?thesis by blast
  qed
  show "\<not> snd (scripts ! j)" if "unheld ?q j" "j < po_next ?q" "j < length scripts" for j
  proof -
    have "j \<noteq> k" using that(1) still unfolding unheld_def by blast
    with that others have "unheld p j" unfolding unheld_def by blast
    with pool_okD(6)[OF ok] that show ?thesis by simp
  qed
  show "po_next ?q \<ge> length scripts" if "None \<in> set (po_workers ?q)"
    using none_updated[of "po_workers p" w "Some (k, as, rejects)"] that pool_okD(7)[OF ok] by simp
qed (use pool_okD(5)[OF ok] in simp)

lemma pool_settle:
  assumes ok: "pool_ok c scripts p" and w: "held_by w p k [] False"
  shows "pool_ok c scripts (p\<lparr>po_workers := (po_workers p)[w := pool_claim scripts (po_next p)], po_next := Suc (po_next p)\<rparr>)"
    (is "pool_ok _ _ ?q")
proof (rule pool_okI)
  have "w < length (po_workers p)" using w by (simp add: held_by_def)
  note held = held_by_update(2)[OF this]
  note mine = pool_okD(2)[OF ok w]
  have fresh: "unheld p j" if "j \<ge> po_next p" for j using pool_okD(2)[OF ok] that unfolding unheld_def by (meson leD)
  then have none: "proj (po_next p) (po_out p) = []" using pool_okD(4)[OF ok] by simp
  have claimed: "po_next p < length scripts \<Longrightarrow> \<not> unheld ?q (po_next p)"
    unfolding unheld_def held by (cases "scripts ! po_next p") auto
  have others: "held_by v ?q j bs r \<longleftrightarrow> held_by v p j bs r" if "j \<noteq> k" "j \<noteq> po_next p" for v j bs r
    using w that by (auto simp: held) (auto simp: held_by_def)
  show "length (po_workers ?q) = min c (length scripts)" using pool_okD(1)[OF ok] by simp
  show "proj j (po_out ?q) = (if j < po_next ?q \<and> j < length scripts then fst (scripts ! j) else [])" if "unheld ?q j" for j
  proof (cases "j = k \<or> j = po_next p")
    case True
    moreover have "\<not> po_next p < length scripts" if "j = po_next p"
      using claimed \<open>unheld ?q j\<close> that by blast
    ultimately show ?thesis using mine none by auto
  next
    case False
    with that others have "unheld p j" unfolding unheld_def by blast
    with pool_okD(4)[OF ok] False show ?thesis by (auto simp: less_Suc_eq)
  qed
  show "j < length scripts \<and> j < po_next ?q \<and> scripts ! j = (proj j (po_out ?q) @ bs, r)"
    if "held_by v ?q j bs r" for v j bs r
  proof (cases "v = w")
    case True
    with that none show ?thesis by (simp add: held)
  next
    case False
    with that have "held_by v p j bs r" by (simp add: held)
    from pool_okD(2)[OF ok this] show ?thesis by simp
  qed
  show "u = v" if "held_by u ?q j as' q" "held_by v ?q j bs r" for u v j as' bs q r
  proof (rule ccontr)
    assume "u \<noteq> v"
    with that fresh[of j] pool_okD(3)[OF ok] show False unfolding held unheld_def
      by (cases "u = w"; cases "v = w") auto
  qed
  show "\<not> snd (scripts ! j)" if "unheld ?q j" "j < po_next ?q" "j < length scripts" for j
  proof (cases "j = k \<or> j = po_next p")
    case True
    with that claimed mine show ?thesis by auto
  next
    case False
    with that others have "unheld p j" unfolding unheld_def by blast
    with pool_okD(6)[OF ok] False that show ?thesis by (auto simp: less_Suc_eq)
  qed
  show "po_next ?q \<ge> length scripts" if "None \<in> set (po_workers ?q)"
    using none_updated[of "po_workers p" w "pool_claim scripts (po_next p)"] that pool_okD(7)[OF ok] by auto
qed (use pool_okD(5)[OF ok] in simp)

lemma pool_reject:
  assumes "pool_ok c scripts p" and "held_by w p k [] True"
  shows "pool_ok c scripts (p\<lparr>po_rejected := True\<rparr>)"
proof -
  from pool_okD(2)[OF assms] have "\<exists>s \<in> set scripts. snd s" by (metis nth_mem snd_conv)
  with assms(1) show ?thesis unfolding pool_ok_def unheld_def held_by_update(3) by simp
qed

lemma pool_step_cases:
  assumes "pool_step scripts w p = Some p'"
  obtains k a as rejects where "held_by w p k (a # as) rejects"
      "p' = p\<lparr>po_workers := (po_workers p)[w := Some (k, as, rejects)], po_out := po_out p @ [(k, a)]\<rparr>"
    | k where "held_by w p k [] True" "p' = p\<lparr>po_rejected := True\<rparr>"
    | k where "held_by w p k [] False"
      "p' = p\<lparr>po_workers := (po_workers p)[w := pool_claim scripts (po_next p)], po_next := Suc (po_next p)\<rparr>"
  using assms by (auto simp: pool_step_def held_by_def split: if_splits option.splits list.splits bool.splits)

lemma pool_step_ok: "pool_step scripts w p = Some p' \<Longrightarrow> pool_ok c scripts p \<Longrightarrow> pool_ok c scripts p'"
  by (erule pool_step_cases) (auto intro: pool_give pool_settle pool_reject)

lemma pool_run_ok: "pool_run scripts ws p = Some p' \<Longrightarrow> pool_ok c scripts p \<Longrightarrow> pool_ok c scripts p'"
  by (erule pooling.state_invariant) (auto intro: pool_step_ok)

subsection \<open>Its end\<close>

lemma pool_length: "pool_ok c scripts p \<Longrightarrow> length (filter (\<lambda>h. h \<noteq> None) (po_workers p)) \<le> min c (length scripts)"
  using pool_okD(1) by (metis length_filter_le)

lemma pool_end:
  assumes ok: "pool_ok c scripts p" and fin: "pool_done p" and calm: "\<not> po_rejected p" and c: "0 < c"
  shows "proj k (po_out p) = (if k < length scripts then fst (scripts ! k) else [])"
    and "k < length scripts \<Longrightarrow> \<not> snd (scripts ! k)"
proof -
  have idle: "\<And>h. h \<in> set (po_workers p) \<Longrightarrow> h = None" using fin calm by (simp add: pool_done_def)
  have "\<not> held_by w p k as r" for w as r using idle nth_mem unfolding held_by_def by fastforce
  then have free: "unheld p k" unfolding unheld_def by blast
  have "po_next p \<ge> length scripts"
  proof (cases "scripts = []")
    case False
    with pool_okD(1)[OF ok] c have "po_workers p \<noteq> []" by (auto simp: min_def split: if_splits)
    then obtain h where "h \<in> set (po_workers p)" by (cases "po_workers p") auto
    with idle pool_okD(7)[OF ok] show ?thesis by blast
  qed simp
  with pool_okD(4,6)[OF ok free] show "proj k (po_out p) = (if k < length scripts then fst (scripts ! k) else [])"
    "k < length scripts \<Longrightarrow> \<not> snd (scripts ! k)" by auto
qed

lemma pool_prefix:
  assumes ok: "pool_ok c scripts p" and k: "k < length scripts"
  shows "\<exists>rest. proj k (po_out p) @ rest = fst (scripts ! k)"
proof (cases "unheld p k")
  case True
  with pool_okD(4)[OF ok True] k show ?thesis by (cases "k < po_next p") auto
next
  case False
  with pool_okD(2)[OF ok] show ?thesis unfolding unheld_def by force
qed

lemma pool_rejected_iff:
  assumes "pool_ok c scripts p" and "pool_done p" and "0 < c"
  shows "po_rejected p \<longleftrightarrow> (\<exists>s \<in> set scripts. snd s)"
  using assms pool_okD(5) pool_end(2) by (metis in_set_conv_nth)

text \<open>A worker that is not finished can always go on, and no call can go on for ever.\<close>

definition pool_left :: "'a script list \<Rightarrow> 'a pool \<Rightarrow> nat" where
  "pool_left scripts p =
     (\<Sum>h \<leftarrow> po_workers p. case h of None \<Rightarrow> 0 | Some (k, as, r) \<Rightarrow> Suc (length as)) +
     (\<Sum>s \<leftarrow> drop (po_next p) scripts. Suc (length (fst s)))"

lemma sum_list_updated:
  fixes f :: "'b \<Rightarrow> nat"
  assumes "w < length hs" and "f h < f (hs ! w) + d"
  shows "(\<Sum>g \<leftarrow> hs[w := h]. f g) < (\<Sum>g \<leftarrow> hs. f g) + d"
proof -
  have "hs = take w hs @ hs ! w # drop (Suc w) hs" using assms(1) by (rule id_take_nth_drop)
  then have "(\<Sum>g \<leftarrow> hs. f g) = (\<Sum>g \<leftarrow> take w hs. f g) + f (hs ! w) + (\<Sum>g \<leftarrow> drop (Suc w) hs. f g)"
    by (metis (no_types) add.assoc list.simps(9) map_append sum_list.Cons sum_list_append)
  with assms show ?thesis by (simp add: upd_conv_take_nth_drop)
qed

lemma pool_progress:
  assumes "\<not> pool_done p"
  shows "\<exists>w p'. pool_step scripts w p = Some p' \<and> (pool_left scripts p' < pool_left scripts p \<or> po_rejected p')"
proof -
  from assms obtain w h where w: "w < length (po_workers p)" "po_workers p ! w = Some h" "\<not> po_rejected p"
    by (auto simp: pool_done_def in_set_conv_nth)
  obtain k as r where h: "h = (k, as, r)" by (cases h)
  let ?f = "\<lambda>h. case h of None \<Rightarrow> 0 | Some (k, as, r) \<Rightarrow> Suc (length as)"
  show ?thesis
  proof (cases as)
    case (Cons a as')
    have "(\<Sum>g \<leftarrow> (po_workers p)[w := Some (k, as', r)]. ?f g) < (\<Sum>g \<leftarrow> po_workers p. ?f g) + 0"
      by (rule sum_list_updated) (use w h Cons in simp_all)
    with w h Cons show ?thesis by (intro exI[of _ w]) (simp add: pool_step_def pool_left_def)
  next
    case Nil
    have "(\<Sum>g \<leftarrow> (po_workers p)[w := pool_claim scripts (po_next p)]. ?f g) <
        (\<Sum>g \<leftarrow> po_workers p. ?f g) + ?f (pool_claim scripts (po_next p))"
      by (rule sum_list_updated) (use w h Nil in simp_all)
    moreover have "?f (pool_claim scripts (po_next p)) + (\<Sum>s \<leftarrow> drop (Suc (po_next p)) scripts. Suc (length (fst s))) =
        (\<Sum>s \<leftarrow> drop (po_next p) scripts. Suc (length (fst s)))"
      by (cases "po_next p < length scripts") (auto simp: pool_claim_def Cons_nth_drop_Suc[symmetric] split: prod.splits)
    ultimately show ?thesis using w h Nil
      by (intro exI[of _ w]) (cases r; simp add: pool_step_def pool_left_def)
  qed
qed

lemma pool_can_end:
  assumes "pool_ok c scripts p"
  shows "\<exists>ws p'. pool_run scripts ws p = Some p' \<and> pool_done p'"
proof -
  have "\<exists>w p'. pool_step scripts w t = Some p' \<and> pool_ok c scripts p' \<and>
      (if po_rejected p' then 0 else Suc (pool_left scripts p')) < (if po_rejected t then 0 else Suc (pool_left scripts t))"
    if ok: "pool_ok c scripts t" and busy: "\<not> pool_done t" for t
  proof -
    from pool_progress[OF busy] obtain w p' where "pool_step scripts w t = Some p'"
      "pool_left scripts p' < pool_left scripts t \<or> po_rejected p'" by blast
    with busy pool_step_ok[OF _ ok] show ?thesis by (intro exI[of _ w] exI[of _ p']) (auto simp: pool_done_def)
  qed
  then show ?thesis
    using pooling.reaches[of "pool_ok c scripts" p pool_done scripts "\<lambda>t. if po_rejected t then 0 else Suc (pool_left scripts t)"]
      assms by blast
qed

end
