(* ===== verification/Na_Adapter.thy ===== *)
theory Na_Adapter
  imports Complex_Main Na_Pool Ad_Adapter
begin

text \<open>
  The Node adapter (\<^verbatim>\<open>lambda-kit/adapter-node/src/index.ts\<close>): the values a JavaScript handler may answer,
  what the adapter makes of them, and the buffered adapter \<^verbatim>\<open>batchAdapter\<close>.

  A value is modelled by what the code can learn of it. Where the code calls \<^verbatim>\<open>String(v)\<close> or
  \<^verbatim>\<open>Number(v)\<close>, a value is its result, or \<open>None\<close> when the call throws (a symbol, an object without a
  prototype, a \<^verbatim>\<open>toString\<close> that throws). \<^verbatim>\<open>undefined\<close> and \<^verbatim>\<open>null\<close> are one value: the code only asks
  \<^verbatim>\<open>v == null\<close>. A response that is \<^verbatim>\<open>undefined\<close> reads like the empty object.
\<close>

subsection \<open>JavaScript values\<close>

text \<open>
  A number: one that prints as an integer, another finite one by its text, or \<^verbatim>\<open>NaN\<close> and the infinities
  (which \<^verbatim>\<open>JSON.stringify\<close> prints as \<^verbatim>\<open>null\<close>).
\<close>

datatype js_number = JsInt int | JsDec string | JsNonFinite

datatype js_status = StNullish | StNumber "js_number option"

datatype js_scalar = ScNullish | ScValue "string option"

text \<open>
  A body, or a chunk of one: \<open>JsIter vs fails text\<close> is an iterable or async iterable that gives \<open>vs\<close> and
  then ends, or fails; \<open>JsOther\<close> is any value that is neither a string, nor bytes, nor iterable.
\<close>

datatype js_value =
    JsNullish
  | JsText string
  | JsBuffer bytes
  | JsUint8Array bytes
  | JsIter "js_value list" bool "string option"
  | JsOther "string option"

record node_response =
  nr_status_code :: js_status
  nr_headers :: "(string \<times> js_scalar) list"
  nr_cookies :: "js_scalar list"
  nr_body :: js_value
  nr_is_base64_encoded :: bool

datatype node_result = NodeThrows | NodeReturns node_response

subsection \<open>Normalisation\<close>

text \<open>\<^verbatim>\<open>Number(value)\<close> of the option \<^verbatim>\<open>concurrency\<close>: \<open>None\<close> when it is not finite.\<close>

definition node_concurrency :: "rat option \<Rightarrow> nat" where
  "node_concurrency value = (case value of None \<Rightarrow> 1 | Some n \<Rightarrow> if n < 1 then 1 else nat \<lfloor>n\<rfloor>)"

text \<open>\<^verbatim>\<open>normalizeConcurrency(options.concurrency ?? 16)\<close>\<close>

definition options_concurrency :: "rat option option \<Rightarrow> nat" where
  "options_concurrency concurrency = node_concurrency (case concurrency of None \<Rightarrow> Some 16 | Some v \<Rightarrow> v)"

definition get_request_id :: "json \<Rightarrow> string" where
  "get_request_id item =
     (case Option.bind (value_get item ''requestContext'') (\<lambda>c. Option.bind (value_get c ''requestId'') value_str) of
        Some i \<Rightarrow> i
      | None \<Rightarrow> (case Option.bind (value_get item ''id'') value_str of Some i \<Rightarrow> i | None \<Rightarrow> []))"

definition node_batch :: "json \<Rightarrow> json list" where
  "node_batch event = (case value_get event ''batch'' of Some (JArr items) \<Rightarrow> items | _ \<Rightarrow> [])"

definition node_status :: "js_status \<Rightarrow> js_number option" where
  "node_status st = (case st of StNullish \<Rightarrow> Some (JsInt 200) | StNumber n \<Rightarrow> n)"

text \<open>An assignment to \<^verbatim>\<open>__proto__\<close> of a string leaves the object as it is.\<close>

fun node_headers_loop :: "(string \<times> js_scalar) list \<Rightarrow> (string, string) hashmap \<Rightarrow> (string, string) hashmap option" where
  "node_headers_loop [] out = Some out"
| "node_headers_loop ((k, ScNullish) # hs) out = node_headers_loop hs out"
| "node_headers_loop ((k, ScValue None) # hs) out = None"
| "node_headers_loop ((k, ScValue (Some v)) # hs) out =
     node_headers_loop hs (if k = ''__proto__'' then out else hm_insert k v out)"

definition node_headers :: "(string \<times> js_scalar) list \<Rightarrow> (string, string) hashmap option" where
  "node_headers hs = node_headers_loop hs []"

text \<open>
  \<^verbatim>\<open>String.prototype.trim\<close> removes what Rust's \<^verbatim>\<open>trim\<close> removes, but not U+0085, and also U+FEFF.
\<close>

definition js_whitespace :: "string list" where
  "js_whitespace = [CHR 0xEF, CHR 0xBB, CHR 0xBF] # remove1 [CHR 0xC2, CHR 0x85] whitespace"

definition js_trim :: "string \<Rightarrow> string" where
  "js_trim s = rev (strip_all (map rev js_whitespace) (rev (strip_all js_whitespace s)))"

fun node_cookies :: "js_scalar list \<Rightarrow> string list option" where
  "node_cookies [] = Some []"
| "node_cookies (ScNullish # cs) = node_cookies cs"
| "node_cookies (ScValue None # cs) = None"
| "node_cookies (ScValue (Some c) # cs) =
     map_option (\<lambda>out. if js_trim c = [] then out else js_trim c # out) (node_cookies cs)"

text \<open>\<^verbatim>\<open>String(v)\<close> of a \<^verbatim>\<open>Uint8Array\<close> lists its numbers.\<close>

definition uint8_text :: "bytes \<Rightarrow> string" where
  "uint8_text bs = str_join '','' (map (\<lambda>b. show_nat (of_char b)) bs)"

fun node_body :: "ext \<Rightarrow> js_value \<Rightarrow> bool \<Rightarrow> (string \<times> bool) option" where
  "node_body x JsNullish is_b64 = Some ([], is_b64)"
| "node_body x (JsBuffer bs) is_b64 = Some (x_b64_enc x bs, True)"
| "node_body x (JsText s) is_b64 = Some (s, is_b64)"
| "node_body x (JsUint8Array bs) is_b64 = Some (uint8_text bs, is_b64)"
| "node_body x (JsIter vs fails t) is_b64 = map_option (\<lambda>s. (s, is_b64)) t"
| "node_body x (JsOther t) is_b64 = map_option (\<lambda>s. (s, is_b64)) t"

fun node_chunk :: "ext \<Rightarrow> js_value \<Rightarrow> bool \<Rightarrow> (string \<times> bool) option" where
  "node_chunk x JsNullish is_b64 = Some ([], is_b64)"
| "node_chunk x (JsBuffer bs) is_b64 = Some (x_b64_enc x bs, True)"
| "node_chunk x (JsUint8Array bs) is_b64 = Some (x_b64_enc x bs, True)"
| "node_chunk x (JsText s) is_b64 = Some (s, is_b64)"
| "node_chunk x (JsIter vs fails t) is_b64 = map_option (\<lambda>s. (s, is_b64)) t"
| "node_chunk x (JsOther t) is_b64 = map_option (\<lambda>s. (s, is_b64)) t"

text \<open>\<^verbatim>\<open>toAsyncIterable\<close>: the values it yields, and whether it then throws.\<close>

fun to_async_iterable :: "js_value \<Rightarrow> js_value list \<times> bool" where
  "to_async_iterable JsNullish = ([], False)"
| "to_async_iterable (JsText s) = ([JsText s], False)"
| "to_async_iterable (JsBuffer bs) = ([JsBuffer bs], False)"
| "to_async_iterable (JsUint8Array bs) = ([JsUint8Array bs], False)"
| "to_async_iterable (JsIter vs fails t) = (vs, fails)"
| "to_async_iterable (JsOther t) = (case t of None \<Rightarrow> ([], True) | Some s \<Rightarrow> ([JsText s], False))"

subsection \<open>Records of whole responses\<close>

record node_item =
  nt_id :: string
  nt_status_code :: js_number
  nt_headers :: "(string, string) hashmap"
  nt_body :: string
  nt_is_base64_encoded :: bool
  nt_cookies :: "string list"

fun enc_number :: "js_number \<Rightarrow> json" where
  "enc_number (JsInt i) = JInt i"
| "enc_number (JsDec s) = JFloat s"
| "enc_number JsNonFinite = JNull"

definition node_item_fields :: "node_item \<Rightarrow> (string \<times> json) list" where
  "node_item_fields r = [(''id'', JStr (nt_id r)), (''statusCode'', enc_number (nt_status_code r)),
     (''headers'', enc_str_map (nt_headers r)), (''body'', JStr (nt_body r)),
     (''isBase64Encoded'', JBool (nt_is_base64_encoded r))] @ list_field ''cookies'' (nt_cookies r)"

definition enc_node_response :: "node_item list \<Rightarrow> json" where
  "enc_node_response items = JObj [(''v'', JInt 1), (''responses'', JArr (map (JObj \<circ> node_item_fields) items))]"

text \<open>The object a response becomes; \<open>None\<close> when a conversion throws.\<close>

definition node_item_of :: "ext \<Rightarrow> string \<Rightarrow> node_response \<Rightarrow> node_item option" where
  "node_item_of x i r = do {
     status_code \<leftarrow> node_status (nr_status_code r);
     headers \<leftarrow> node_headers (nr_headers r);
     cookies \<leftarrow> node_cookies (nr_cookies r);
     b \<leftarrow> node_body x (nr_body r) (nr_is_base64_encoded r);
     Some \<lparr>nt_id = i, nt_status_code = status_code, nt_headers = headers, nt_body = fst b,
       nt_is_base64_encoded = snd b, nt_cookies = cookies\<rparr>
   }"

definition node_error_item :: "string \<Rightarrow> node_item" where
  "node_error_item i = \<lparr>nt_id = i, nt_status_code = JsInt 500, nt_headers = [(''content-type'', ''text/plain'')],
     nt_body = ''internal error'', nt_is_base64_encoded = False, nt_cookies = []\<rparr>"

text \<open>The body of the callback with its \<^verbatim>\<open>try\<close> and \<^verbatim>\<open>catch\<close>, the same in both adapters.\<close>

definition node_callback :: "ext \<Rightarrow> (json \<Rightarrow> node_result) \<Rightarrow> json \<Rightarrow> node_item" where
  "node_callback x handler item =
     (let i = get_request_id item
      in case handler item of
           NodeThrows \<Rightarrow> node_error_item i
         | NodeReturns r \<Rightarrow> (case node_item_of x i r of None \<Rightarrow> node_error_item i | Some it \<Rightarrow> it))"

subsection \<open>The buffered adapter\<close>

text \<open>
  \<^verbatim>\<open>batchAdapter\<close>: each call gives one value, \<^verbatim>\<open>mapConcurrent\<close> writes it to its place in \<^verbatim>\<open>out\<close>. The
  callback never rejects. The result is there when all workers have returned.
\<close>

definition map_concurrent_out :: "nat \<Rightarrow> (nat \<times> 'a) list \<Rightarrow> 'a option list" where
  "map_concurrent_out n outs = fold (\<lambda>(i, r) out. out[i := Some r]) outs (replicate n None)"

definition node_calls :: "ext \<Rightarrow> (json \<Rightarrow> node_result) \<Rightarrow> json \<Rightarrow> node_item script list" where
  "node_calls x handler event = map (\<lambda>item. ([node_callback x handler item], False)) (node_batch event)"

definition node_handle :: "ext \<Rightarrow> (json \<Rightarrow> node_result) \<Rightarrow> rat option option \<Rightarrow> json \<Rightarrow> nat list \<Rightarrow> node_item pool option" where
  "node_handle x handler concurrency event ws =
     pool_run (node_calls x handler event) ws (pool_begin (options_concurrency concurrency) (node_calls x handler event))"

definition node_responses :: "json \<Rightarrow> node_item pool \<Rightarrow> node_item option list option" where
  "node_responses event p =
     (if pool_done p then Some (map_concurrent_out (length (node_batch event)) (po_out p)) else None)"

subsection \<open>Its results\<close>

lemma node_concurrency_pos: "0 < options_concurrency c"
proof -
  have "1 \<le> nat \<lfloor>n\<rfloor>" if "1 \<le> n" for n :: rat using that by (simp add: le_nat_iff one_le_floor)
  then show ?thesis
    by (fastforce simp: options_concurrency_def node_concurrency_def not_less split: option.splits)
qed

lemma map_concurrent_out_length: "length (map_concurrent_out n outs) = n"
  by (induction outs rule: rev_induct) (auto simp: map_concurrent_out_def)

lemma map_concurrent_out_nth:
  assumes "k < n"
  shows "map_concurrent_out n outs ! k = (if proj k outs = [] then None else Some (last (proj k outs)))"
proof (induction outs rule: rev_induct)
  case (snoc q outs)
  with assms map_concurrent_out_length[of n outs] show ?case
    by (cases q) (auto simp: map_concurrent_out_def nth_list_update)
qed (use assms in \<open>simp add: map_concurrent_out_def\<close>)

lemma node_handle_ok:
  "node_handle x handler c event ws = Some p \<Longrightarrow> pool_ok (options_concurrency c) (node_calls x handler event) p"
  unfolding node_handle_def by (erule pool_run_ok) (rule pool_begin_ok)

lemma node_calls_simps [simp]:
  "length (node_calls x handler event) = length (node_batch event)"
  "k < length (node_batch event) \<Longrightarrow> node_calls x handler event ! k = ([node_callback x handler (node_batch event ! k)], False)"
  by (simp_all add: node_calls_def)

lemma node_never_rejected: "pool_ok c (node_calls x handler event) p \<Longrightarrow> \<not> po_rejected p"
  using pool_okD(5) by (fastforce simp: node_calls_def)

lemma node_responses_all:
  assumes "pool_ok (options_concurrency c) (node_calls x handler event) p" and "node_responses event p = Some out"
  shows "out = map (Some \<circ> node_callback x handler) (node_batch event)"
proof -
  from assms(2) have fin: "pool_done p" and out: "out = map_concurrent_out (length (node_batch event)) (po_out p)"
    by (auto simp: node_responses_def split: if_splits)
  have "proj k (po_out p) = [node_callback x handler (node_batch event ! k)]" if "k < length (node_batch event)" for k
    using pool_end(1)[OF assms(1) fin node_never_rejected[OF assms(1)] node_concurrency_pos, of k] that by simp
  then show ?thesis
    by (intro nth_equalityI) (simp_all add: out map_concurrent_out_length map_concurrent_out_nth)
qed

text \<open>
  Property C99: the buffered Node adapter answers a batch in its order, whatever the order in which the
  handler calls settle. It never rejects, at most the configured number of calls runs at a time (at least
  one, whatever number the option is, and no more than there are items); when it returns, its list has the record of every item at
  the place of the item; and from every moment it can be brought to return.
\<close>

theorem node_handle_responses:
  assumes "node_handle x handler c event ws = Some p"
  shows "\<not> po_rejected p \<and>
    length (filter (\<lambda>h. h \<noteq> None) (po_workers p)) \<le> min (options_concurrency c) (length (node_batch event)) \<and>
    (case node_responses event p of
       Some out \<Rightarrow> out = map (Some \<circ> node_callback x handler) (node_batch event)
     | None \<Rightarrow> \<exists>ws' p'. node_handle x handler c event (ws @ ws') = Some p' \<and> node_responses event p' \<noteq> None)"
proof -
  have ok: "pool_ok (options_concurrency c) (node_calls x handler event) p" by (rule node_handle_ok[OF assms])
  from pool_can_end[OF ok] obtain ws' p' where "pool_run (node_calls x handler event) ws' p = Some p'" "pool_done p'" by blast
  with assms have "node_handle x handler c event (ws @ ws') = Some p'" "node_responses event p' \<noteq> None"
    by (simp_all add: node_handle_def pool_run_append node_responses_def)
  with node_never_rejected[OF ok] pool_length[OF ok] node_responses_all[OF ok] show ?thesis
    by (auto split: option.splits)
qed

definition node_event :: json where
  "node_event = JObj [(''v'', JInt 1), (''batch'', JArr (map (\<lambda>i. JObj [(''id'', JStr i)]) [''a'', ''b'', ''c'']))]"

definition node_sample :: "json \<Rightarrow> node_result" where
  "node_sample item =
     (if get_request_id item = ''a'' then NodeReturns \<lparr>nr_status_code = StNullish,
        nr_headers = [(''x-one'', ScValue (Some ''1'')), (''x-none'', ScNullish)], nr_cookies = [ScValue (Some '' k=v '')],
        nr_body = JsUint8Array ''AB'', nr_is_base64_encoded = False\<rparr>
      else if get_request_id item = ''b'' then NodeReturns \<lparr>nr_status_code = StNumber (Some (JsInt 201)), nr_headers = [],
        nr_cookies = [], nr_body = JsIter [JsText ''b1'', JsBuffer ''b2''] False (Some ''b1,b2''), nr_is_base64_encoded = False\<rparr>
      else NodeThrows)"

definition node_order :: "nat list" where
  "node_order = [1, 1, 0, 1, 1, 0]"

definition node_sample_items :: "node_item list" where
  "node_sample_items = [\<lparr>nt_id = ''a'', nt_status_code = JsInt 200, nt_headers = [(''x-one'', ''1'')], nt_body = ''65,66'',
     nt_is_base64_encoded = False, nt_cookies = [''k=v'']\<rparr>,
   \<lparr>nt_id = ''b'', nt_status_code = JsInt 201, nt_headers = [], nt_body = ''b1,b2'', nt_is_base64_encoded = False, nt_cookies = []\<rparr>,
   node_error_item ''c'']"

lemma node_sample_batch: "map (node_callback plain_ext node_sample) (node_batch node_event) = node_sample_items"
  by code_simp

lemma sample_concurrency: "options_concurrency (Some (Some (5/2))) = 2"
proof -
  have "\<lfloor>5/2 :: rat\<rfloor> = 2" by (rule floor_unique) simp_all
  then show ?thesis by (simp add: options_concurrency_def node_concurrency_def)
qed

lemma node_sample_handled:
  "node_handle plain_ext node_sample (Some (Some (5/2))) node_event node_order =
     Some \<lparr>po_next = 5, po_workers = [None, None], po_out = [(1, node_sample_items ! 1), (0, node_sample_items ! 0),
       (2, node_sample_items ! 2)], po_rejected = False\<rparr>"
proof -
  have "node_calls plain_ext node_sample node_event = map (\<lambda>it. ([it], False)) (map (node_callback plain_ext node_sample) (node_batch node_event))"
    by (simp add: node_calls_def)
  also have "\<dots> = map (\<lambda>it. ([it], False)) node_sample_items" by (simp only: node_sample_batch)
  finally show ?thesis
    by (simp add: node_handle_def sample_concurrency node_sample_items_def pool_begin_def pool_step_def pool_claim_def node_order_def numeral_2_eq_2)
qed

theorem node_handle_responses_witness:
  "\<exists>p. node_handle plain_ext node_sample (Some (Some (5/2))) node_event node_order = Some p \<and>
     node_responses node_event p = Some (map Some node_sample_items)"
  using node_handle_responses[OF node_sample_handled] node_sample_handled
  by (simp add: node_responses_def pool_done_def node_sample_batch flip: map_map)

end
