(* ===== verification/Na_Stream.thy ===== *)
theory Na_Stream
  imports Na_Adapter Ad_Ndjson
begin

text \<open>
  The streaming Node adapter (\<^verbatim>\<open>batchAdapterStream\<close> in \<^verbatim>\<open>lambda-kit/adapter-node/src/index.ts\<close>): the
  records of an item, with the places where its callback can reject, and the lines the workers write.
\<close>

subsection \<open>Records\<close>

datatype node_record =
    NodeWhole node_item
  | NodeHead string js_number "(string, string) hashmap" "string list"
  | NodeChunk string string bool
  | NodeEnd string
  | NodeError string string

fun enc_node_record :: "node_record \<Rightarrow> json" where
  "enc_node_record (NodeWhole r) = JObj ((''v'', JInt 1) # node_item_fields r)"
| "enc_node_record (NodeHead i status_code headers cookies) = JObj ([(''v'', JInt 1), (''id'', JStr i), (''type'', JStr ''head''),
     (''statusCode'', enc_number status_code), (''headers'', enc_str_map headers)] @ list_field ''cookies'' cookies)"
| "enc_node_record (NodeChunk i body is_b64) = JObj [(''v'', JInt 1), (''id'', JStr i), (''type'', JStr ''chunk''),
     (''body'', JStr body), (''isBase64Encoded'', JBool is_b64)]"
| "enc_node_record (NodeEnd i) = JObj [(''v'', JInt 1), (''id'', JStr i), (''type'', JStr ''end'')]"
| "enc_node_record (NodeError i message) = JObj [(''v'', JInt 1), (''id'', JStr i), (''type'', JStr ''error''),
     (''statusCode'', JInt 500), (''message'', JStr message)]"

text \<open>\<^verbatim>\<open>writeNdjsonLine\<close>; \<^verbatim>\<open>JSON.stringify\<close> is a parameter, it does not fail on these records.\<close>

definition node_line :: "(json \<Rightarrow> bytes) \<Rightarrow> node_record \<Rightarrow> bytes" where
  "node_line stringify r = stringify (enc_node_record r) @ [newline]"

subsection \<open>What the callback does for an item\<close>

text \<open>
  The loop over the chunks with its \<^verbatim>\<open>try\<close> and \<^verbatim>\<open>catch\<close>: a chunk that cannot be converted, or an iterable
  that fails, ends in an error record.
\<close>

fun node_chunk_records :: "ext \<Rightarrow> string \<Rightarrow> bool \<Rightarrow> js_value list \<Rightarrow> bool \<Rightarrow> node_record list" where
  "node_chunk_records x i is_b64 [] fails = (if fails then [NodeError i ''stream error''] else [NodeEnd i])"
| "node_chunk_records x i is_b64 (v # vs) fails =
     (case node_chunk x v is_b64 of
        None \<Rightarrow> [NodeError i ''stream error'']
      | Some (body, b64) \<Rightarrow> NodeChunk i body b64 # node_chunk_records x i is_b64 vs fails)"

text \<open>
  In the interleaved format the status, the headers and the cookies are converted outside of any
  \<^verbatim>\<open>try\<close>: when that throws, the callback rejects.
\<close>

definition node_interleaved :: "ext \<Rightarrow> (json \<Rightarrow> node_result) \<Rightarrow> json \<Rightarrow> node_record script" where
  "node_interleaved x handler item =
     (let i = get_request_id item
      in case handler item of
           NodeThrows \<Rightarrow> ([NodeError i ''internal error''], False)
         | NodeReturns r \<Rightarrow>
             (case (node_status (nr_status_code r), node_headers (nr_headers r), node_cookies (nr_cookies r)) of
                (Some status_code, Some headers, Some cookies) \<Rightarrow>
                  (NodeHead i status_code headers cookies #
                   (case to_async_iterable (nr_body r) of
                      (vs, fails) \<Rightarrow> node_chunk_records x i (nr_is_base64_encoded r) vs fails), False)
              | _ \<Rightarrow> ([], True)))"

definition node_script :: "ext \<Rightarrow> (json \<Rightarrow> node_result) \<Rightarrow> bool \<Rightarrow> json \<Rightarrow> node_record script" where
  "node_script x handler interleaved item =
     (if \<not> interleaved then ([NodeWhole (node_callback x handler item)], False) else node_interleaved x handler item)"

subsection \<open>The stream\<close>

text \<open>
  The workers run the scripts of the batch; what they write is on the response stream until all have
  returned or one has rejected, when the stream is ended (\<^verbatim>\<open>finally\<close>).
\<close>

definition node_scripts :: "ext \<Rightarrow> (json \<Rightarrow> node_result) \<Rightarrow> bool \<Rightarrow> json \<Rightarrow> node_record script list" where
  "node_scripts x handler interleaved event = map (node_script x handler interleaved) (node_batch event)"

definition node_stream :: "ext \<Rightarrow> (json \<Rightarrow> node_result) \<Rightarrow> bool \<Rightarrow> rat option option \<Rightarrow> json \<Rightarrow> nat list \<Rightarrow>
    node_record pool option" where
  "node_stream x handler interleaved concurrency event ws =
     (let scripts = node_scripts x handler interleaved event
      in pool_run scripts ws (pool_begin (options_concurrency concurrency) scripts))"

definition node_written :: "(json \<Rightarrow> bytes) \<Rightarrow> node_record pool \<Rightarrow> bytes list" where
  "node_written stringify p = map (\<lambda>(k, r). node_line stringify r) (po_out p)"

lemma node_scripts_simps [simp]:
  "length (node_scripts x handler il event) = length (node_batch event)"
  "k < length (node_batch event) \<Longrightarrow> node_scripts x handler il event ! k = node_script x handler il (node_batch event ! k)"
  by (simp_all add: node_scripts_def)

lemma node_stream_ok:
  "node_stream x handler il c event ws = Some p \<Longrightarrow> pool_ok (options_concurrency c) (node_scripts x handler il event) p"
  unfolding node_stream_def Let_def by (erule pool_run_ok) (rule pool_begin_ok)

lemma node_rejects_iff:
  "snd (node_script x handler il item) \<longleftrightarrow> il \<and> (\<exists>r. handler item = NodeReturns r \<and>
     (node_status (nr_status_code r) = None \<or> node_headers (nr_headers r) = None \<or> node_cookies (nr_cookies r) = None))"
  by (auto simp: node_script_def node_interleaved_def Let_def split: node_result.splits option.splits prod.splits)

text \<open>
  Property C37: one response can cut the stream of a batch. At every moment what is on the stream of an
  item is the beginning of its records. The stream ends by a rejection, whatever the other calls still
  had to write, exactly when the format is interleaved and the status, a header or a cookie of some
  response cannot be converted; in the other format such a response becomes a record of its own.
\<close>

theorem node_stream_cut:
  assumes "node_stream x handler il c event ws = Some p"
  shows "(\<forall>k < length (node_batch event). \<exists>rest.
      proj k (po_out p) @ rest = fst (node_script x handler il (node_batch event ! k))) \<and>
    (pool_done p \<longrightarrow> (po_rejected p \<longleftrightarrow> il \<and> (\<exists>item \<in> set (node_batch event). \<exists>r. handler item = NodeReturns r \<and>
       (node_status (nr_status_code r) = None \<or> node_headers (nr_headers r) = None \<or> node_cookies (nr_cookies r) = None))))"
proof -
  note ok = node_stream_ok[OF assms]
  have "(\<exists>s \<in> set (node_scripts x handler il event). snd s) \<longleftrightarrow> il \<and> (\<exists>item \<in> set (node_batch event). \<exists>r. handler item = NodeReturns r \<and>
       (node_status (nr_status_code r) = None \<or> node_headers (nr_headers r) = None \<or> node_cookies (nr_cookies r) = None))"
    by (auto simp: node_scripts_def node_rejects_iff)
  with pool_rejected_iff[OF ok _ node_concurrency_pos] pool_prefix[OF ok] show ?thesis by simp
qed

definition cutting_handler :: "json \<Rightarrow> node_result" where
  "cutting_handler item = NodeReturns \<lparr>nr_status_code = StNullish,
     nr_headers = (if get_request_id item = ''b'' then [(''x-bad'', ScValue None)] else []), nr_cookies = [],
     nr_body = JsText ''ok'', nr_is_base64_encoded = False\<rparr>"

lemma cutting_scripts:
  "node_scripts plain_ext cutting_handler True node_event =
    [([NodeHead ''a'' (JsInt 200) [] [], NodeChunk ''a'' ''ok'' False, NodeEnd ''a''], False), ([], True),
     ([NodeHead ''c'' (JsInt 200) [] [], NodeChunk ''c'' ''ok'' False, NodeEnd ''c''], False)]"
  by code_simp

lemma cutting_run:
  "node_stream plain_ext cutting_handler True (Some (Some (5/2))) node_event [0, 1] =
    Some \<lparr>po_next = 2, po_workers = [Some (0, [NodeChunk ''a'' ''ok'' False, NodeEnd ''a''], False), Some (1, [], True)],
      po_out = [(0, NodeHead ''a'' (JsInt 200) [] [])], po_rejected = True\<rparr>"
  by (simp add: node_stream_def cutting_scripts sample_concurrency pool_begin_def pool_step_def pool_claim_def
      numeral_2_eq_2 Let_def)

text \<open>The item \<open>a\<close> loses its body and its end, the item \<open>c\<close> is never handled, for a header of \<open>b\<close>.\<close>

theorem node_stream_cut_witness:
  "\<exists>p. node_stream plain_ext cutting_handler True (Some (Some (5/2))) node_event [0, 1] = Some p \<and>
     map snd (po_out p) = [NodeHead ''a'' (JsInt 200) [] []] \<and> po_rejected p \<and>
     (\<exists>item \<in> set (node_batch node_event). \<exists>r. cutting_handler item = NodeReturns r \<and>
       (node_status (nr_status_code r) = None \<or> node_headers (nr_headers r) = None \<or> node_cookies (nr_cookies r) = None))"
  using node_stream_cut[OF cutting_run] cutting_run by (simp add: pool_done_def)

end
