(* ===== verification/Na_Wire.thy ===== *)
theory Na_Wire
  imports Na_Stream Ad_Wire
begin

text \<open>
  The Node adapter and the gateway on one wire. What \<^verbatim>\<open>JSON.stringify\<close> prints is read by the gateway with
  all its fields, as a record of the Rust adapter would be, provided that the status is a \<^verbatim>\<open>u16\<close>; and
  the Node adapter gives the records of the Rust adapter for every response both can express.
\<close>

definition stringify_ok :: "ext \<Rightarrow> (json \<Rightarrow> bytes) \<Rightarrow> json \<Rightarrow> bool" where
  "stringify_ok x stringify j \<longleftrightarrow> x_json_parse x (stringify j) = Some j \<and> stringify j \<noteq> [] \<and>
     last (stringify j) \<noteq> carriage_return \<and> newline \<notin> set (stringify j)"

text \<open>The event of the gateway, as \<^verbatim>\<open>JSON.parse\<close> gives it: its items, under the ids of their requests.\<close>

lemma get_request_id_item: "item_id j = Some i \<Longrightarrow> get_request_id j = i"
  by (auto simp: item_id_def get_request_id_def split: bind_splits)

theorem payload_reaches_node:
  "node_batch (to_value (batch_event key t items)) = map (to_value \<circ> enc_batch_item) items \<and>
   map get_request_id (node_batch (to_value (batch_event key t items))) = map (rc_request_id \<circ> bi_request_context) items"
proof -
  have "value_get (to_value (batch_event key t items)) ''batch'' = Some (JArr (map (to_value \<circ> enc_batch_item) items))"
    unfolding batch_event_def by (subst value_get_to_value) auto
  then have "node_batch (to_value (batch_event key t items)) = map (to_value \<circ> enc_batch_item) items" by (simp add: node_batch_def)
  then show ?thesis using get_request_id_item[OF item_id_of_item] by simp
qed

subsection \<open>The record of the Rust adapter with the same content\<close>

fun as_ndjson :: "node_record \<Rightarrow> ndjson_record option" where
  "as_ndjson (NodeWhole r) =
     map_option (\<lambda>st. NdLegacy \<lparr>nl_v = 1, nl_id = nt_id r, nl_status_code = st, nl_headers = nt_headers r,
       nl_cookies = nt_cookies r, nl_body = nt_body r, nl_is_base64_encoded = nt_is_base64_encoded r\<rparr>)
     (dec_u16 (enc_number (nt_status_code r)))"
| "as_ndjson (NodeHead i status_code headers cookies) =
     map_option (\<lambda>st. NdInterleaved \<lparr>nd_v = 1, nd_id = i, nd_record_type = ''head'', nd_status_code = st,
       nd_headers = headers, nd_cookies = cookies, nd_body = None, nd_is_base64_encoded = None, nd_message = None\<rparr>)
     (dec_option dec_u16 (enc_number status_code))"
| "as_ndjson (NodeChunk i body is_b64) = Some (NdInterleaved (text_chunk i body is_b64))"
| "as_ndjson (NodeEnd i) = Some (NdInterleaved (end_record i))"
| "as_ndjson (NodeError i message) = Some (NdInterleaved ((failure_record i)\<lparr>nd_message := Some message\<rparr>))"

lemma node_whole_read:
  assumes "dec_u16 (enc_number (nt_status_code r)) = Some st"
  shows "dec_legacy_record (to_value (enc_node_record (NodeWhole r))) = Some \<lparr>lr_v = 1, lr_id = nt_id r, lr_status_code = st,
      lr_headers = last_wins (nt_headers r) [], lr_cookies = nt_cookies r, lr_body = nt_body r,
      lr_is_base64_encoded = nt_is_base64_encoded r\<rparr>"
    and "value_get (to_value (enc_node_record (NodeWhole r))) ''type'' = None"
proof -
  let ?names = "[''v'', ''id'', ''statusCode'', ''headers'', ''cookies'', ''body'', ''isBase64Encoded'']"
  define kvs where "kvs = (''v'', JInt 1) # node_item_fields r"
  have d: "distinct (map fst kvs)" by (simp add: kvs_def node_item_fields_def optional_names)
  define j where "j = to_value (JObj kvs)"
  obtain known where known: "struct_view ?names j = Some known"
    "\<And>k. map_of known k = (if k \<in> set ?names then map_option to_value (map_of kvs k) else None)"
    using struct_view_value[OF d] unfolding j_def by blast
  have m: "map_of kvs ''v'' = Some (JInt 1)" "map_of kvs ''id'' = Some (JStr (nt_id r))"
    "map_of kvs ''statusCode'' = Some (enc_number (nt_status_code r))" "map_of kvs ''headers'' = Some (enc_str_map (nt_headers r))"
    "map_of kvs ''cookies'' = (if nt_cookies r = [] then None else Some (enc_str_list (nt_cookies r)))"
    "map_of kvs ''body'' = Some (JStr (nt_body r))" "map_of kvs ''isBase64Encoded'' = Some (JBool (nt_is_base64_encoded r))"
    "map_of kvs ''type'' = None"
    by (simp_all add: kvs_def node_item_fields_def map_add_def)
  have num: "to_value (enc_number n) = enc_number n" for n by (cases n) simp_all
  show "dec_legacy_record (to_value (enc_node_record (NodeWhole r))) = Some \<lparr>lr_v = 1, lr_id = nt_id r, lr_status_code = st,
      lr_headers = last_wins (nt_headers r) [], lr_cookies = nt_cookies r, lr_body = nt_body r,
      lr_is_base64_encoded = nt_is_base64_encoded r\<rparr>"
    using assms by (simp only: enc_node_record.simps kvs_def[symmetric] j_def[symmetric])
      (simp add: dec_legacy_record_def known m req_field_def def_field_def dec_str_map_to_value num)
  show "value_get (to_value (enc_node_record (NodeWhole r))) ''type'' = None"
    by (simp only: enc_node_record.simps kvs_def[symmetric] value_get_to_value[OF d] m option.map)
qed

lemma node_interleaved_read:
  assumes r: "as_ndjson r = Some (NdInterleaved n)"
  shows "dec_interleaved_record (to_value (enc_node_record r)) =
      map_option (\<lambda>t. interleaved_of_ndjson t n) (record_variant (nd_record_type n))"
    and "value_get (to_value (enc_node_record r)) ''type'' \<noteq> None"
proof -
  let ?names = "[''v'', ''id'', ''type'', ''statusCode'', ''headers'', ''cookies'', ''body'', ''isBase64Encoded'', ''message'']"
  define kvs where "kvs = (case enc_node_record r of JObj kvs \<Rightarrow> kvs)"
  have enc: "enc_node_record r = JObj kvs" by (cases r) (simp_all add: kvs_def)
  have d: "distinct (map fst kvs)" using r by (cases r) (auto simp: kvs_def optional_names)
  define j where "j = to_value (JObj kvs)"
  obtain known where known: "struct_view ?names j = Some known"
    "\<And>k. map_of known k = (if k \<in> set ?names then map_option to_value (map_of kvs k) else None)"
    using struct_view_value[OF d] unfolding j_def by blast
  have num: "to_value (enc_number n) = enc_number n" for n by (cases n) simp_all
  have "dec_interleaved_record j = map_option (\<lambda>t. interleaved_of_ndjson t n) (record_variant (nd_record_type n))"
  proof (cases r)
    case (NodeHead i st hs cs)
    then have m: "map_of kvs ''v'' = Some (JInt 1)" "map_of kvs ''id'' = Some (JStr i)" "map_of kvs ''type'' = Some (JStr ''head'')"
      "map_of kvs ''statusCode'' = Some (enc_number st)" "map_of kvs ''headers'' = Some (enc_str_map hs)"
      "map_of kvs ''cookies'' = (if cs = [] then None else Some (enc_str_list cs))"
      "map_of kvs ''body'' = None" "map_of kvs ''isBase64Encoded'' = None" "map_of kvs ''message'' = None"
      by (simp_all add: kvs_def map_add_def)
    from NodeHead r show ?thesis
      by (auto simp: dec_interleaved_record_def known m req_field_def def_field_def num dec_str_map_to_value
          interleaved_of_ndjson_def dec_record_type_def record_variant_def split: option.splits)
  qed (use r in \<open>auto simp: dec_interleaved_record_def known kvs_def req_field_def def_field_def dec_record_type_def
      interleaved_of_ndjson_def text_chunk_def end_record_def failure_record_def record_variant_def\<close>)
  then show "dec_interleaved_record (to_value (enc_node_record r)) =
      map_option (\<lambda>t. interleaved_of_ndjson t n) (record_variant (nd_record_type n))" by (simp only: enc j_def)
  show "value_get (to_value (enc_node_record r)) ''type'' \<noteq> None"
    using r unfolding enc value_get_to_value[OF d] by (cases r) (auto simp: kvs_def map_add_def)
qed

lemma as_ndjson_variant: "as_ndjson r = Some (NdInterleaved n) \<Longrightarrow> record_variant (nd_record_type n) \<noteq> None"
  by (cases r) (auto simp: text_chunk_def end_record_def failure_record_def record_variant_def)

lemma parse_node:
  assumes "stringify_ok x stringify (enc_node_record r)" and "as_ndjson r = Some n"
  shows "parse_stream_record x (stringify (enc_node_record r)) = Inr (decode_ndjson n)"
proof (cases n)
  case (NdLegacy l)
  with assms(2) obtain it where it: "r = NodeWhole it" by (cases r) auto
  with assms(2) NdLegacy obtain st where "dec_u16 (enc_number (nt_status_code it)) = Some st"
    "l = \<lparr>nl_v = 1, nl_id = nt_id it, nl_status_code = st, nl_headers = nt_headers it,
       nl_cookies = nt_cookies it, nl_body = nt_body it, nl_is_base64_encoded = nt_is_base64_encoded it\<rparr>" by auto
  with assms(1) it NdLegacy node_whole_read[of it st] show ?thesis
    by (simp add: parse_stream_record_def from_slice_def stringify_ok_def legacy_of_ndjson_def del: enc_node_record.simps to_value.simps)
next
  case (NdInterleaved i)
  with assms node_interleaved_read[of r i] as_ndjson_variant[of r i] show ?thesis
    by (auto simp: parse_stream_record_def from_slice_def stringify_ok_def simp del: enc_node_record.simps to_value.simps)
qed

subsection \<open>The buffered document\<close>

definition node_gateway_item :: "node_item \<Rightarrow> batch_response_item option" where
  "node_gateway_item r = map_option (\<lambda>st. \<lparr>ri_id = nt_id r, ri_status_code = st, ri_headers = nt_headers r,
     ri_cookies = nt_cookies r, ri_body = nt_body r, ri_is_base64_encoded = nt_is_base64_encoded r\<rparr>)
     (dec_u16 (enc_number (nt_status_code r)))"

lemma node_headers_loop_ok: "node_headers_loop hs out = Some m \<Longrightarrow> hm_ok out \<Longrightarrow> hm_ok m"
  by (induction hs out rule: node_headers_loop.induct) (auto split: if_splits)

lemma node_item_headers_ok: "hm_ok (nt_headers (node_callback x handler item))"
proof -
  have "hm_ok m" if "node_headers hs = Some m" for hs m
    using that node_headers_loop_ok[of hs "[]" m] by (simp add: node_headers_def hm_ok_def)
  moreover have "hm_ok [(''content-type'', ''text/plain'')]" by (simp add: hm_ok_def)
  ultimately show ?thesis
    by (auto simp: node_callback_def node_item_of_def node_error_item_def Let_def split: node_result.splits option.splits bind_splits)
qed

lemma dec_node_item:
  assumes "hm_ok (nt_headers r)"
  shows "dec_batch_response_item (JObj (node_item_fields r)) = node_gateway_item r"
proof -
  let ?names = "[''id'', ''statusCode'', ''headers'', ''cookies'', ''body'', ''isBase64Encoded'']"
  define kvs where "kvs = node_item_fields r"
  define j where "j = JObj kvs"
  have "distinct (map fst kvs)" by (simp add: kvs_def node_item_fields_def optional_names)
  then obtain known where known: "struct_view ?names j = Some known"
    "\<And>k. map_of known k = (if k \<in> set ?names then map_of kvs k else None)"
    using struct_view_raw unfolding j_def by blast
  have m: "map_of kvs ''id'' = Some (JStr (nt_id r))" "map_of kvs ''statusCode'' = Some (enc_number (nt_status_code r))"
    "map_of kvs ''headers'' = Some (enc_str_map (nt_headers r))" "map_of kvs ''body'' = Some (JStr (nt_body r))"
    "map_of kvs ''cookies'' = (if nt_cookies r = [] then None else Some (enc_str_list (nt_cookies r)))"
    "map_of kvs ''isBase64Encoded'' = Some (JBool (nt_is_base64_encoded r))"
    by (simp_all add: kvs_def node_item_fields_def map_add_def)
  have "dec_batch_response_item j = node_gateway_item r"
    using assms by (cases "dec_u16 (enc_number (nt_status_code r))")
      (simp_all add: dec_batch_response_item_def known m req_field_def def_field_def node_gateway_item_def)
  then show ?thesis by (simp add: j_def kvs_def)
qed

lemma dec_node_response:
  assumes "\<forall>r \<in> set items. hm_ok (nt_headers r)"
  shows "dec_batch_response (enc_node_response items) =
    map_option (\<lambda>ris. \<lparr>br_v = 1, br_responses = ris\<rparr>) (all_some (map node_gateway_item items))"
proof -
  have "map (dec_batch_response_item \<circ> (JObj \<circ> node_item_fields)) items = map node_gateway_item items"
    using assms by (simp add: dec_node_item)
  then have "all_some (map (dec_batch_response_item \<circ> (JObj \<circ> node_item_fields)) items) = all_some (map node_gateway_item items)"
    by (rule arg_cong)
  then show ?thesis
    by (cases "all_some (map node_gateway_item items)")
      (simp_all only: dec_batch_response_def enc_node_response_def, simp_all add: struct_view_def req_field_def Let_def)
qed

subsection \<open>The same response in JavaScript\<close>

fun js_chunk :: "response_chunk \<Rightarrow> js_value" where
  "js_chunk (ChunkText s) = JsText s"
| "js_chunk (ChunkBinary bs) = JsUint8Array bs"

fun js_body :: "handler_body \<Rightarrow> js_value" where
  "js_body BodyEmpty = JsNullish"
| "js_body (BodyText s) = JsText s"
| "js_body (BodyBinary bs) = JsBuffer bs"
| "js_body (BodyStream cs) = JsIter (map js_chunk cs) False None"

definition js_response :: "handler_response \<Rightarrow> node_response" where
  "js_response r = \<lparr>nr_status_code = (if hr_status_code r = 0 then StNullish else StNumber (Some (JsInt (int (hr_status_code r))))),
     nr_headers = map (\<lambda>(k, v). (k, ScValue (Some v))) (hr_headers r), nr_cookies = map (ScValue \<circ> Some) (hr_cookies r),
     nr_body = js_body (hr_body r), nr_is_base64_encoded = hr_is_base64_encoded r\<rparr>"

definition js_result :: "handler_response option \<Rightarrow> node_result" where
  "js_result res = (case res of None \<Rightarrow> NodeThrows | Some r \<Rightarrow> NodeReturns (js_response r))"

text \<open>
  Where the adapters differ: Rust drops headers with a blank name, JavaScript those named
  \<^verbatim>\<open>__proto__\<close>; the two trim a cookie of different characters; and for a whole response Rust refuses a
  stream, JavaScript prints it by \<^verbatim>\<open>String\<close>.
\<close>

definition both_express :: "bool \<Rightarrow> handler_response \<Rightarrow> bool" where
  "both_express interleaved r \<longleftrightarrow> response_typed r \<and>
     (\<forall>k \<in> fst ` set (hr_headers r). trim k \<noteq> [] \<and> k \<noteq> ''__proto__'') \<and>
     (\<forall>c \<in> set (hr_cookies r). js_trim c = trim c) \<and>
     (\<not> interleaved \<longrightarrow> (\<forall>cs. hr_body r \<noteq> BodyStream cs))"

lemma normalize_headers_same: "\<forall>k \<in> fst ` set hs. trim k \<noteq> [] \<Longrightarrow> normalize_headers hs = hs"
  by (induction hs rule: normalize_headers.induct) auto

lemma node_headers_loop_all:
  "distinct (map fst (out @ hs)) \<Longrightarrow> \<forall>k \<in> fst ` set hs. k \<noteq> ''__proto__'' \<Longrightarrow>
   node_headers_loop (map (\<lambda>(k, v). (k, ScValue (Some v))) hs) out = Some (out @ hs)"
proof (induction hs arbitrary: out)
  case (Cons p hs)
  obtain k v where p: "p = (k, v)" by force
  with Cons.prems(1) have "k \<notin> fst ` set out" by auto
  then have "hm_insert k v out = out @ [(k, v)]" by (induction out) auto
  with Cons.IH[of "out @ [(k, v)]"] Cons.prems p show ?case by auto
qed simp

lemma node_cookies_all:
  "\<forall>c \<in> set cs. js_trim c = trim c \<Longrightarrow> node_cookies (map (ScValue \<circ> Some) cs) = Some (normalize_cookies cs)"
  by (induction cs) (auto simp: Let_def)

lemma js_response_fields:
  assumes "both_express il r"
  shows "node_status (nr_status_code (js_response r)) = Some (JsInt (int (response_status r)))"
    and "node_headers (nr_headers (js_response r)) = Some (normalize_headers (hr_headers r))"
    and "node_cookies (nr_cookies (js_response r)) = Some (normalize_cookies (hr_cookies r))"
  using assms node_headers_loop_all[of "[]" "hr_headers r"] normalize_headers_same[of "hr_headers r"] node_cookies_all[of "hr_cookies r"]
  by (auto simp: js_response_def both_express_def node_status_def response_status_def node_headers_def response_typed_def hm_ok_def)

lemma node_chunk_records_js:
  "map as_ndjson (node_chunk_records x i is_b64 (map js_chunk cs) False) =
     map (\<lambda>(body, b64). Some (NdInterleaved (text_chunk i body b64))) (map (chunk_text x is_b64) cs) @
     [Some (NdInterleaved (end_record i))]"
proof (induction cs)
  case (Cons c cs)
  then show ?case by (cases c) simp_all
qed simp

lemma js_body_records:
  "map as_ndjson (case to_async_iterable (js_body b) of (vs, fails) \<Rightarrow> node_chunk_records x i is_b64 vs fails) =
     map (\<lambda>p. Some (NdInterleaved (text_chunk i (fst p) (snd p)))) (body_chunks x is_b64 b) @ [Some (NdInterleaved (end_record i))]"
  by (cases b) (simp_all add: node_chunk_records_js case_prod_beta)

text \<open>
  Property C5: the two adapters are equivalent. For a response that both languages can express, handed
  to the Node adapter as the JavaScript object of the same content, the records of the item are those of
  the Rust adapter, one by one, in both formats, also when the handler fails; and the Node callback
  does not reject. (What the gateway decodes of a line is that of the corresponding Rust record.)
\<close>

theorem adapters_agree:
  assumes "get_request_id j = item_request_id req_id item" and "node_handler j = js_result (handler item)"
    and "pred_option (both_express interleaved) (handler item)"
  shows "map as_ndjson (fst (node_script x node_handler interleaved j)) = map Some (item_records x req_id handler interleaved item) \<and>
    \<not> snd (node_script x node_handler interleaved j)"
proof (cases "handler item")
  case None
  with assms(1,2) show ?thesis
    by (simp add: node_script_def node_callback_def node_interleaved_def js_result_def item_records_def Let_def node_error_item_def
        legacy_error_def failure_record_def)
next
  case (Some r)
  with assms(3) have both: "both_express interleaved r" by simp
  note fields = js_response_fields[OF both]
  from both have st: "response_status r < 65536" by (auto simp: both_express_def response_typed_def intro: response_status_less)
  show ?thesis
  proof (cases interleaved)
    case True
    with assms(1,2) Some fields st js_body_records[of x "item_request_id req_id item" "hr_is_base64_encoded r" "hr_body r"]
    show ?thesis
      by (simp add: node_script_def node_interleaved_def js_result_def item_records_def Let_def head_record_def comp_def
          case_prod_beta) (simp add: js_response_def)
  next
    case False
    with both have "\<And>cs. hr_body r \<noteq> BodyStream cs" by (simp add: both_express_def)
    then obtain b where body: "normalize_body x (hr_body r) (hr_is_base64_encoded r) = Inr b"
      "node_body x (nr_body (js_response r)) (nr_is_base64_encoded (js_response r)) = Some b"
      by (cases "hr_body r") (auto simp: normalize_body_def js_response_def)
    with False assms(1,2) Some fields st show ?thesis
      by (simp add: node_script_def node_callback_def node_item_of_def js_result_def item_records_def Let_def legacy_ok_def)
  qed
qed

definition sample_stream_response :: handler_response where
  "sample_stream_response = \<lparr>hr_status_code = 0, hr_headers = [(''x-a'', ''1'')], hr_cookies = ['' k=v ''],
     hr_body = BodyStream [ChunkText ''one'', ChunkBinary ''two''], hr_is_base64_encoded = False\<rparr>"

theorem adapters_agree_witness:
  "map as_ndjson (fst (node_script plain_ext (\<lambda>j. js_result (Some sample_stream_response)) True (JObj [(''id'', JStr ''a'')]))) =
     map Some [NdInterleaved (head_record ''a'' sample_stream_response), NdInterleaved (text_chunk ''a'' ''one'' False),
       NdInterleaved (text_chunk ''a'' ''two'' True), NdInterleaved (end_record ''a'')]"
proof -
  have "js_trim '' k=v '' = trim '' k=v ''" "trim ''x-a'' \<noteq> []" by code_simp+
  then have "both_express True sample_stream_response"
    by (simp add: both_express_def sample_stream_response_def response_typed_def hm_ok_def)
  moreover have "get_request_id (JObj [(''id'', JStr ''a'')]) = item_request_id Some ''a''"
    by (simp add: get_request_id_def item_request_id_def)
  ultimately show ?thesis
    using adapters_agree[of "JObj [(''id'', JStr ''a'')]" Some "''a''" "\<lambda>j. js_result (Some sample_stream_response)"
        "\<lambda>_. Some sample_stream_response" True plain_ext]
    by (simp add: item_records_def item_request_id_def Let_def del: node_chunk_records.simps)
      (simp add: sample_stream_response_def plain_ext_def)
qed

end
