(* ===== verification/Na_Service.thy ===== *)
theory Na_Service
  imports Na_Wire Ad_Service
begin

text \<open>
  The gateway with a function that uses the Node adapter: what every client of a batch gets for what the
  JavaScript handler answered to its request, and what one bad response does to the others.
\<close>

subsection \<open>Buffered\<close>

lemma map_Some_all2: "map f xs = map Some ys \<Longrightarrow> list_all2 (\<lambda>x y. f x = Some y) xs ys"
  by (induction xs arbitrary: ys) (auto simp: Cons_eq_map_conv)

lemma find_node_item:
  assumes "distinct (map get_request_id batch)" and "item \<in> set batch"
    and "list_all2 (\<lambda>it ri. node_gateway_item (node_callback x handler it) = Some ri) batch ris"
  shows "\<exists>ri. find (\<lambda>ri. ri_id ri = get_request_id item) ris = Some ri \<and> node_gateway_item (node_callback x handler item) = Some ri"
  using assms(3,1,2)
proof (induction batch ris rule: list_all2_induct)
  case (Cons it batch ri ris)
  have "nt_id (node_callback x handler it) = get_request_id it"
    by (auto simp: node_callback_def node_item_of_def node_error_item_def Let_def split: node_result.splits option.splits bind_splits)
  with Cons.hyps(1) have "ri_id ri = get_request_id it" by (auto simp: node_gateway_item_def)
  moreover from Cons.prems have "get_request_id it = get_request_id item \<Longrightarrow> it = item" by (auto simp: image_iff)
  ultimately show ?case using Cons by auto
qed simp

text \<open>
  Property C36: a batch answered by the buffered Node adapter. When its call has returned and its document
  was printed and read, every client of the batch gets exactly one reply. It is the conversion of what
  the handler answered to the request of that client, unless some handler of the batch answered with a
  status that is not a number from 0 to 65535: then no client of the batch gets its response, all get
  the 502 of a document that cannot be decoded.
\<close>

theorem node_buffered_answers:
  assumes "node_handle x handler conc event ws = Some p" and "node_responses event p = Some out"
    and "x_json_parse x b = Some (enc_node_response (map the out))"
    and "distinct (map get_request_id (node_batch event))"
    and "mset pending = mset (map (\<lambda>item. (get_request_id item, ch item)) (node_batch event))"
  shows "\<exists>new. dispatch_buffered x w b pending lg = lg @ new \<and>
    mset new = mset (map (\<lambda>item. Reply (ch item) (with_meta (length (node_batch event)) w
      (if \<forall>it \<in> set (node_batch event). node_gateway_item (node_callback x handler it) \<noteq> None
       then item_response x (the (node_gateway_item (node_callback x handler item)))
       else text_response 502 (''decode response: '' @ show_err x (BadJson b))))) (node_batch event))"
    (is "\<exists>new. _ \<and> mset new = mset (map (\<lambda>item. Reply (ch item) (with_meta ?n w (?answer item))) ?batch)")
proof -
  have "map the out = map (node_callback x handler) ?batch"
    using node_responses_all[OF node_handle_ok[OF assms(1)] assms(2)] by simp
  with dec_node_response[of "map the out"] node_item_headers_ok assms(3)
  have dec: "from_slice x dec_batch_response b = ok_or (BadJson b) (map_option (\<lambda>ris. \<lparr>br_v = 1, br_responses = ris\<rparr>)
      (all_some (map (\<lambda>it. node_gateway_item (node_callback x handler it)) ?batch)))"
    by (auto simp: from_slice_def comp_def)
  have out: "buffered_outcome x b (get_request_id item) = ?answer item" if item: "item \<in> set ?batch" for item
  proof (cases "all_some (map (\<lambda>it. node_gateway_item (node_callback x handler it)) ?batch)")
    case None
    moreover have "\<exists>it \<in> set ?batch. node_gateway_item (node_callback x handler it) = None"
    proof (rule ccontr)
      assume "\<not> ?thesis"
      then have "map (\<lambda>it. node_gateway_item (node_callback x handler it)) ?batch =
          map Some (map (\<lambda>it. the (node_gateway_item (node_callback x handler it))) ?batch)" by simp
      with None show False by (metis all_some_Some_iff option.distinct(1))
    qed
    ultimately show ?thesis by (auto simp: buffered_outcome_def dec ok_or_def)
  next
    case (Some ris)
    then have ris: "map (\<lambda>it. node_gateway_item (node_callback x handler it)) ?batch = map Some ris" by (simp add: all_some_Some_iff)
    then have all: "list_all2 (\<lambda>it ri. node_gateway_item (node_callback x handler it) = Some ri) ?batch ris"
      by (rule map_Some_all2)
    from find_node_item[OF assms(4) item all] obtain ri where "find (\<lambda>ri. ri_id ri = get_request_id item) ris = Some ri"
      "node_gateway_item (node_callback x handler item) = Some ri" by blast
    moreover have "\<forall>it \<in> set ?batch. node_gateway_item (node_callback x handler it) \<noteq> None"
      using ris by (metis in_set_conv_nth length_map nth_map option.distinct(1))
    ultimately show ?thesis by (simp add: buffered_outcome_def dec Some ok_or_def buffered_answer_def)
  qed
  from dispatch_buffered_batch[OF assms(4,5) out] show ?thesis .
qed

text \<open>The status 200.5 of one response costs the whole batch its responses.\<close>

definition bad_status_handler :: "json \<Rightarrow> node_result" where
  "bad_status_handler item = NodeReturns \<lparr>nr_status_code = (if get_request_id item = ''b'' then StNumber (Some (JsDec ''200.5''))
     else StNullish), nr_headers = [], nr_cookies = [], nr_body = JsText ''ok'', nr_is_base64_encoded = False\<rparr>"

definition bad_status_items :: "node_item list" where
  "bad_status_items = map (\<lambda>(i, st). \<lparr>nt_id = i, nt_status_code = st, nt_headers = [], nt_body = ''ok'',
     nt_is_base64_encoded = False, nt_cookies = []\<rparr>) [(''a'', JsInt 200), (''b'', JsDec ''200.5''), (''c'', JsInt 200)]"

definition bad_status_ext :: ext where
  "bad_status_ext = plain_ext\<lparr>x_json_parse := (\<lambda>b. Some (enc_node_response bad_status_items))\<rparr>"

lemma bad_status_calls: "node_calls bad_status_ext bad_status_handler node_event = map (\<lambda>it. ([it], False)) bad_status_items"
  by code_simp

lemma bad_status_handled:
  "\<exists>p. node_handle bad_status_ext bad_status_handler (Some (Some (5/2))) node_event node_order = Some p \<and>
     node_responses node_event p = Some (map Some bad_status_items)"
proof -
  have "length (node_batch node_event) = 3" by code_simp
  then show ?thesis
    by (simp add: node_handle_def bad_status_calls sample_concurrency bad_status_items_def pool_begin_def pool_step_def pool_claim_def
        node_order_def numeral_2_eq_2 numeral_3_eq_3 node_responses_def pool_done_def map_concurrent_out_def)
qed

theorem node_buffered_answers_witness:
  "\<exists>new. dispatch_buffered bad_status_ext 5 ''doc'' [(''c'', 3), (''a'', 1), (''b'', 2)] [] = new \<and>
     mset new = mset (map (\<lambda>c. Reply c (with_meta 3 5 (text_response 502 ''decode response: error''))) [1, 2, 3])"
proof -
  let ?ch = "\<lambda>item. if get_request_id item = ''a'' then 1 else if get_request_id item = ''b'' then 2 else 3 :: chan"
  obtain p where p: "node_handle bad_status_ext bad_status_handler (Some (Some (5/2))) node_event node_order = Some p"
    "node_responses node_event p = Some (map Some bad_status_items)" using bad_status_handled by blast
  have doc: "x_json_parse bad_status_ext ''doc'' = Some (enc_node_response (map the (map Some bad_status_items)))"
    by (simp add: bad_status_ext_def comp_def)
  have batch: "node_batch node_event = map (\<lambda>i. JObj [(''id'', JStr i)]) [''a'', ''b'', ''c'']"
    by (simp add: node_batch_def node_event_def)
  have ids: "get_request_id (JObj [(''id'', JStr i)]) = i" for i by (simp add: get_request_id_def)
  have bad: "\<not> (\<forall>it \<in> set (node_batch node_event). node_gateway_item (node_callback bad_status_ext bad_status_handler it) \<noteq> None)"
    by (simp add: batch node_gateway_item_def node_callback_def node_item_of_def bad_status_handler_def ids node_status_def
        node_headers_def)
  have err: "show_err bad_status_ext (BadJson ''doc'') = ''error''" by (simp add: bad_status_ext_def plain_ext_def)
  have "distinct (map get_request_id (node_batch node_event))"
    "mset [(''c'', 3), (''a'', 1), (''b'', 2)] = mset (map (\<lambda>item. (get_request_id item, ?ch item)) (node_batch node_event))"
    by (simp_all add: batch ids)
  from node_buffered_answers[OF p doc this, of 5 "[]", unfolded if_not_P[OF bad] err] show ?thesis
    by (simp add: batch ids numeral_3_eq_3)
qed

subsection \<open>What a client sees of a handler's result\<close>

text \<open>
  The specification, as for the Rust adapter: \<open>None\<close> when the answer cannot be converted. A failure in
  the middle of a body closes it like its end. A status that prints as \<^verbatim>\<open>null\<close> is read as missing.
\<close>

definition node_reply :: "ext \<Rightarrow> node_result \<Rightarrow> ext_error + gateway_response" where
  "node_reply x result =
     (let it = node_callback x (\<lambda>_. result) JNull
      in case dec_u16 (enc_number (nt_status_code it)) of
           None \<Rightarrow> Inl (BadStatus 0)
         | Some st \<Rightarrow> build_gateway_response_parts x st (last_wins (nt_headers it) []) (nt_cookies it) (nt_body it)
             (nt_is_base64_encoded it))"

fun node_bodies :: "ext \<Rightarrow> bool \<Rightarrow> js_value list \<Rightarrow> (string \<times> bool) list" where
  "node_bodies x is_b64 [] = []"
| "node_bodies x is_b64 (v # vs) = (case node_chunk x v is_b64 of None \<Rightarrow> [] | Some b \<Rightarrow> b # node_bodies x is_b64 vs)"

definition node_head_of :: "ext \<Rightarrow> nat \<Rightarrow> nat \<Rightarrow> node_response \<Rightarrow> stream_head option" where
  "node_head_of x bs w r = do {
     status_code \<leftarrow> node_status (nr_status_code r);
     headers \<leftarrow> node_headers (nr_headers r);
     cookies \<leftarrow> node_cookies (nr_cookies r);
     st \<leftarrow> dec_option dec_u16 (enc_number status_code);
     (case stream_head_of x bs w (case st of None \<Rightarrow> 200 | Some c \<Rightarrow> c) (last_wins headers []) cookies of
        Inl _ \<Rightarrow> None | Inr head \<Rightarrow> Some head)
   }"

definition node_events :: "ext \<Rightarrow> nat \<Rightarrow> nat \<Rightarrow> chan \<Rightarrow> chan \<Rightarrow> bool \<Rightarrow> node_result \<Rightarrow> log option" where
  "node_events x bs w c b interleaved result =
     (if \<not> interleaved then
        (case node_reply x result of
           Inl _ \<Rightarrow> None
         | Inr resp \<Rightarrow> Some [Init c (InitResponse (with_meta bs w resp)) True, BodyClosed b])
      else
        (case result of
           NodeThrows \<Rightarrow> Some [Init c (InitResponse (with_meta bs w
             (text_response (if x_status x 500 then 500 else 502) ''internal error''))) True, BodyClosed b]
         | NodeReturns r \<Rightarrow>
             (case (node_head_of x bs w r,
                 decoded_chunks x (node_bodies x (nr_is_base64_encoded r) (fst (to_async_iterable (nr_body r))))) of
                (Some head, Some chunks) \<Rightarrow>
                  Some (Init c (InitStream head) True # map (\<lambda>bs. Body b bs True) chunks @ [BodyClosed b])
              | _ \<Rightarrow> None)))"

subsection \<open>The run of one item's records\<close>

definition node_decoded :: "node_record list \<Rightarrow> stream_record list" where
  "node_decoded rs = map decode_ndjson (List.map_filter as_ndjson rs)"

lemma node_decoded_simps [simp]:
  "node_decoded [] = []"
  "node_decoded (r # rs) = (case as_ndjson r of None \<Rightarrow> node_decoded rs | Some n \<Rightarrow> decode_ndjson n # node_decoded rs)"
  by (simp_all add: node_decoded_def List.map_filter_def split: option.splits)

fun node_record_id :: "node_record \<Rightarrow> string" where
  "node_record_id (NodeWhole r) = nt_id r"
| "node_record_id (NodeHead i status_code headers cookies) = i"
| "node_record_id (NodeChunk i body is_b64) = i"
| "node_record_id (NodeEnd i) = i"
| "node_record_id (NodeError i message) = i"

lemma as_ndjson_id: "as_ndjson r = Some n \<Longrightarrow> record_id (decode_ndjson n) = node_record_id r"
  by (cases r) (auto simp: record_id_def legacy_of_ndjson_def interleaved_of_ndjson_def text_chunk_def end_record_def
      failure_record_def)

lemma node_chunk_records_id: "r \<in> set (node_chunk_records x i is_b64 vs fails) \<Longrightarrow> node_record_id r = i"
  by (induction x i is_b64 vs fails rule: node_chunk_records.induct) (auto split: option.splits if_splits)

lemma node_script_id: "r \<in> set (fst (node_script x handler il item)) \<Longrightarrow> node_record_id r = get_request_id item"
  by (auto simp: node_script_def node_interleaved_def node_callback_def node_item_of_def node_error_item_def Let_def
      split: if_splits node_result.splits option.splits prod.splits bind_splits dest: node_chunk_records_id)

lemma node_decoded_id: "r \<in> set (node_decoded rs) \<Longrightarrow> \<exists>r' \<in> set rs. record_id r = node_record_id r'"
  by (induction rs) (auto split: option.splits dest: as_ndjson_id)

lemma run_node_chunks:
  assumes "decoded_chunks x (node_bodies x is_b64 vs) = Some chunks"
  shows "run_records x all_alive bs w (node_decoded (node_chunk_records x i is_b64 vs fails))
      ([(i, \<lparr>st_init = None, st_body = b\<rparr>)], lg) = Some ([], lg @ map (\<lambda>bs. Body b bs True) chunks @ [BodyClosed b])"
  using assms
proof (induction x i is_b64 vs fails arbitrary: chunks lg rule: node_chunk_records.induct)
  case (1 x i is_b64 fails)
  then show ?case by (cases fails) (simp_all add: end_record_def failure_record_def record_run_defs)
next
  case (2 x i is_b64 v vs fails)
  show ?case
  proof (cases "node_chunk x v is_b64")
    case None
    with 2 show ?thesis by (simp add: failure_record_def record_run_defs)
  next
    case (Some q)
    obtain s b64 where q: "q = (s, b64)" by force
    from Some q "2.prems" obtain bytes rest where h: "decode_body_bytes x s b64 = Inr bytes"
      "decoded_chunks x (node_bodies x is_b64 vs) = Some rest" "chunks = bytes # rest" by (auto split: sum.splits)
    have "dispatch_stream_record x all_alive bs w (decode_ndjson (NdInterleaved (text_chunk i s b64)))
        ([(i, \<lparr>st_init = None, st_body = b\<rparr>)], lg) =
      (Inr (), [(i, \<lparr>st_init = None, st_body = b\<rparr>)], lg @ [Body b bytes True])" for lg
      by (simp add: text_chunk_def record_run_defs h(1))
    with "2.IH"[OF Some q[symmetric] h(2)] Some q h(3) show ?thesis by (simp del: decode_ndjson.simps)
  qed
qed

lemma node_item_fields_of:
  "nt_id (node_callback x handler item) = get_request_id item"
  "nt_status_code (node_callback x handler item) = nt_status_code (node_callback x (\<lambda>_. handler item) JNull)"
  "nt_headers (node_callback x handler item) = nt_headers (node_callback x (\<lambda>_. handler item) JNull)"
  "nt_cookies (node_callback x handler item) = nt_cookies (node_callback x (\<lambda>_. handler item) JNull)"
  "nt_body (node_callback x handler item) = nt_body (node_callback x (\<lambda>_. handler item) JNull)"
  "nt_is_base64_encoded (node_callback x handler item) = nt_is_base64_encoded (node_callback x (\<lambda>_. handler item) JNull)"
  by (auto simp: node_callback_def node_item_of_def node_error_item_def Let_def split: node_result.splits option.splits bind_splits)

lemma node_head_run:
  assumes "node_head_of x bs w r = Some head"
  obtains st hs cs n where "node_status (nr_status_code r) = Some st" "node_headers (nr_headers r) = Some hs"
    "node_cookies (nr_cookies r) = Some cs" "as_ndjson (NodeHead i st hs cs) = Some n"
    "dispatch_stream_record x all_alive bs w (decode_ndjson n) ([(i, \<lparr>st_init = Some c, st_body = b\<rparr>)], []) =
      (Inr (), [(i, \<lparr>st_init = None, st_body = b\<rparr>)], [Init c (InitStream head) True])"
proof -
  from assms obtain st hs cs z where h: "node_status (nr_status_code r) = Some st" "node_headers (nr_headers r) = Some hs"
    "node_cookies (nr_cookies r) = Some cs" "dec_option dec_u16 (enc_number st) = Some z"
    "stream_head_of x bs w (case z of None \<Rightarrow> 200 | Some c \<Rightarrow> c) (last_wins hs []) cs = Inr head"
    by (auto simp: node_head_of_def split: bind_splits sum.splits)
  show ?thesis
  proof (rule that[OF h(1-3)])
    show "as_ndjson (NodeHead i st hs cs) = Some (NdInterleaved \<lparr>nd_v = 1, nd_id = i, nd_record_type = ''head'',
       nd_status_code = z, nd_headers = hs, nd_cookies = cs, nd_body = None, nd_is_base64_encoded = None, nd_message = None\<rparr>)"
      using h(4) by simp
  qed (simp add: record_run_defs h(5))
qed

lemma run_node_item:
  assumes "node_events x bs w c b il (handler item) = Some evs"
  shows "run_records x all_alive bs w (node_decoded (fst (node_script x handler il item)))
      ([(get_request_id item, \<lparr>st_init = Some c, st_body = b\<rparr>)], []) = Some ([], evs)"
proof (cases il)
  case False
  let ?it = "node_callback x (\<lambda>_. handler item) JNull"
  from assms False obtain st resp where "dec_u16 (enc_number (nt_status_code ?it)) = Some st"
    "build_gateway_response_parts x st (last_wins (nt_headers ?it) []) (nt_cookies ?it) (nt_body ?it)
       (nt_is_base64_encoded ?it) = Inr resp" "evs = [Init c (InitResponse (with_meta bs w resp)) True, BodyClosed b]"
    by (auto simp: node_events_def node_reply_def Let_def split: option.splits sum.splits)
  with False node_item_fields_of[of x handler item] show ?thesis
    by (simp add: node_script_def record_run_defs)
next
  case True
  show ?thesis
  proof (cases "handler item")
    case NodeThrows
    with True assms show ?thesis
      by (simp add: node_events_def node_script_def node_interleaved_def Let_def failure_record_def record_run_defs)
  next
    case (NodeReturns r)
    obtain vs fails where vs: "to_async_iterable (nr_body r) = (vs, fails)" by force
    from assms True NodeReturns vs obtain head chunks where h: "node_head_of x bs w r = Some head"
      "decoded_chunks x (node_bodies x (nr_is_base64_encoded r) vs) = Some chunks"
      "evs = Init c (InitStream head) True # map (\<lambda>bs. Body b bs True) chunks @ [BodyClosed b]"
      by (auto simp: node_events_def split: option.splits)
    obtain st hs cs n where n: "node_status (nr_status_code r) = Some st" "node_headers (nr_headers r) = Some hs"
      "node_cookies (nr_cookies r) = Some cs" "as_ndjson (NodeHead (get_request_id item) st hs cs) = Some n"
      "dispatch_stream_record x all_alive bs w (decode_ndjson n) ([(get_request_id item, \<lparr>st_init = Some c, st_body = b\<rparr>)], []) =
        (Inr (), [(get_request_id item, \<lparr>st_init = None, st_body = b\<rparr>)], [Init c (InitStream head) True])"
      by (rule node_head_run[OF h(1)])
    show ?thesis
      using True NodeReturns n vs h(3) run_node_chunks[OF h(2), of bs w "get_request_id item" fails b "[Init c (InitStream head) True]"]
      by (simp add: node_script_def node_interleaved_def Let_def del: as_ndjson.simps)
  qed
qed

subsection \<open>The merged stream\<close>

interpretation node: item_streams x bs w get_request_id "\<lambda>item. node_decoded (fst (node_script x handler il item))"
  "\<lambda>c b item. node_events x bs w c b il (handler item)" for x bs w handler il
  by unfold_locales (auto dest!: node_decoded_id simp: node_script_id intro: run_node_item)

lemma node_events_head:
  assumes "node_events x bs w c b True (NodeReturns r) \<noteq> None"
  obtains st hs cs where "node_status (nr_status_code r) = Some st" "node_headers (nr_headers r) = Some hs"
    "node_cookies (nr_cookies r) = Some cs" "dec_option dec_u16 (enc_number st) \<noteq> None"
proof -
  from assms obtain head where "node_head_of x bs w r = Some head" by (auto simp: node_events_def split: option.splits)
  then show ?thesis using that by (auto simp: node_head_of_def split: bind_splits)
qed

lemma node_chunk_records_encodable: "r \<in> set (node_chunk_records x i is_b64 vs fails) \<Longrightarrow> as_ndjson r \<noteq> None"
  by (induction x i is_b64 vs fails rule: node_chunk_records.induct) (auto split: option.splits if_splits)

lemma node_events_convert:
  assumes "node_events x bs w c b il (handler item) \<noteq> None"
  shows "\<not> snd (node_script x handler il item) \<and> (\<forall>r \<in> set (fst (node_script x handler il item)). as_ndjson r \<noteq> None)"
proof (cases "il \<and> (\<exists>r. handler item = NodeReturns r)")
  case True
  then obtain r where r: "il" "handler item = NodeReturns r" by blast
  with assms have "node_events x bs w c b True (NodeReturns r) \<noteq> None" by simp
  then obtain st hs cs where "node_status (nr_status_code r) = Some st" "node_headers (nr_headers r) = Some hs"
    "node_cookies (nr_cookies r) = Some cs" "dec_option dec_u16 (enc_number st) \<noteq> None" by (rule node_events_head)
  with r show ?thesis
    by (auto simp: node_script_def node_interleaved_def Let_def split: prod.splits dest: node_chunk_records_encodable)
next
  case False
  with assms node_item_fields_of(2)[of x handler item] show ?thesis
    by (auto simp: node_script_def node_interleaved_def node_events_def node_reply_def Let_def
        split: node_result.splits option.splits)
qed

lemma mixes_cong: "(\<And>item. item \<in> set batch \<Longrightarrow> f item = g item) \<Longrightarrow> mixes f batch tout \<longleftrightarrow> mixes g batch tout"
  by (simp add: mixes_def)

lemma node_decoded_all:
  "(\<And>r. r \<in> set rs \<Longrightarrow> as_ndjson r \<noteq> None) \<Longrightarrow> node_decoded rs = map (decode_ndjson \<circ> the \<circ> as_ndjson) rs"
  by (induction rs) (auto split: option.splits)

lemma node_stream_mixes:
  assumes run: "node_stream x handler il conc event ws = Some p" "pool_done p"
    and good: "\<And>item. item \<in> set (node_batch event) \<Longrightarrow> \<not> snd (node_script x handler il item) \<and>
      (\<forall>r \<in> set (fst (node_script x handler il item)). as_ndjson r \<noteq> None \<and> stringify_ok x stringify (enc_node_record r))"
  shows "\<exists>tout. mixes (\<lambda>item. node_decoded (fst (node_script x handler il item))) (node_batch event) tout \<and>
    list_all2 (record_line x) (node_written stringify p) (map snd tout)"
proof -
  let ?recs = "\<lambda>item. fst (node_script x handler il item)" and ?dec = "decode_ndjson \<circ> the \<circ> as_ndjson"
  let ?tout = "map (\<lambda>(k, r). (k, ?dec r)) (po_out p)"
  note ok = node_stream_ok[OF run(1)]
  have "\<not> po_rejected p"
    using pool_rejected_iff[OF ok run(2) node_concurrency_pos] good by (auto simp: node_scripts_def)
  from pool_end(1)[OF ok run(2) this node_concurrency_pos] have mix: "mixes ?recs (node_batch event) (po_out p)"
    by (simp add: mixes_def)
  have "mixes (\<lambda>item. node_decoded (?recs item)) (node_batch event) ?tout \<longleftrightarrow> mixes (map ?dec \<circ> ?recs) (node_batch event) ?tout"
    using good by (intro mixes_cong) (simp add: node_decoded_all)
  with mixes_map[OF mix, of ?dec] have "mixes (\<lambda>item. node_decoded (?recs item)) (node_batch event) ?tout" by blast
  moreover have "record_line x (node_line stringify r) (?dec r)" if "(k, r) \<in> set (po_out p)" for k r
  proof -
    have "as_ndjson r \<noteq> None" "stringify_ok x stringify (enc_node_record r)"
      using mixes_member[OF mix that] good[of "node_batch event ! k"] by auto
    with parse_node[of x stringify r] show ?thesis
      unfolding record_line_def node_line_def by (auto simp: stringify_ok_def)
  qed
  then have "list_all2 (record_line x) (node_written stringify p) (map snd ?tout)"
    by (auto simp: node_written_def list_all2_conv_all_nth case_prod_beta) (metis nth_mem prod.collapse)
  ultimately show ?thesis by blast
qed

text \<open>
  Property C4: a batch served by the streaming Node adapter reaches its clients. However many workers ran,
  in whatever order their calls wrote and settled, and however the network cut the stream, every client
  gets exactly what the handler answered to its own request.
\<close>

theorem node_stream_answers:
  assumes "node_stream x handler il conc event ws = Some p" and "pool_done p"
    and "concat chunks = concat (node_written stringify p)" and "length (concat chunks) \<le> max_buffer_bytes"
    and "\<forall>item \<in> set (node_batch event).
      (\<forall>r \<in> set (fst (node_script x handler il item)). stringify_ok x stringify (enc_node_record r)) \<and>
      (\<forall>c b. node_events x (length (node_batch event)) w c b il (handler item) \<noteq> None)"
    and "distinct (map get_request_id (node_batch event))" and "clients_ok cs"
    and "map fst cs = map get_request_id (node_batch event)"
  shows "\<exists>new. dispatch_response_stream x (\<lambda>_ _. True) w (map Inr chunks) (start_table cs) lg = lg @ new \<and>
    (\<forall>item \<in> set (node_batch event). \<forall>c b. (get_request_id item, c, b) \<in> set cs \<longrightarrow>
       node_events x (length (node_batch event)) w c b il (handler item) = Some (filter (touches c b) new))"
proof -
  have "\<not> snd (node_script x handler il item) \<and>
      (\<forall>r \<in> set (fst (node_script x handler il item)). as_ndjson r \<noteq> None \<and> stringify_ok x stringify (enc_node_record r))"
    if "item \<in> set (node_batch event)" for item
    using assms(5) that node_events_convert[of x "length (node_batch event)" w undefined undefined il handler item] by blast
  from node_stream_mixes[OF assms(1,2) this] obtain tout where
    "mixes (\<lambda>item. node_decoded (fst (node_script x handler il item))) (node_batch event) tout"
    "list_all2 (record_line x) (node_written stringify p) (map snd tout)" by blast
  from node.mixed_answers[OF this assms(3,4,6-8) refl, of w lg] assms(5) show ?thesis by blast
qed

definition node_table :: "(bytes \<times> json) list" where
  "node_table = zip [''a0'', ''a1'', ''a2'', ''b0'', ''b1'', ''b2'', ''b3'', ''c0'']
     (map enc_node_record (concat (map (fst \<circ> node_script plain_ext node_sample True) (node_batch node_event))))"

definition node_print :: "json \<Rightarrow> bytes" where
  "node_print j = (case map_of (map prod.swap node_table) j of Some t \<Rightarrow> t | None \<Rightarrow> ''?'')"

definition node_ext :: ext where
  "node_ext = plain_ext\<lparr>x_json_parse := map_of node_table\<rparr>"

definition node_stream_order :: "nat list" where
  "node_stream_order = [1, 0, 1, 0, 0, 0, 0, 1, 1, 1, 0]"

lemma node_sample_scripts:
  "node_scripts node_ext node_sample True node_event =
    [([NodeHead ''a'' (JsInt 200) [(''x-one'', ''1'')] [''k=v''], NodeChunk ''a'' ''AB'' True, NodeEnd ''a''], False),
     ([NodeHead ''b'' (JsInt 201) [] [], NodeChunk ''b'' ''b1'' False, NodeChunk ''b'' ''b2'' True, NodeEnd ''b''], False),
     ([NodeError ''c'' ''internal error''], False)]"
  by code_simp

lemma node_sample_stream:
  "\<exists>p. node_stream node_ext node_sample True (Some (Some (5/2))) node_event node_stream_order = Some p \<and> pool_done p \<and>
     concat (node_written node_print p) = concat (map (\<lambda>t. t @ [newline]) [''b0'', ''a0'', ''b1'', ''a1'', ''a2'', ''c0'', ''b2'', ''b3''])"
proof -
  have prints: "map (node_print \<circ> enc_node_record) [NodeHead ''b'' (JsInt 201) [] [], NodeHead ''a'' (JsInt 200) [(''x-one'', ''1'')] [''k=v''],
      NodeChunk ''b'' ''b1'' False, NodeChunk ''a'' ''AB'' True, NodeEnd ''a'', NodeError ''c'' ''internal error'',
      NodeChunk ''b'' ''b2'' True, NodeEnd ''b''] = [''b0'', ''a0'', ''b1'', ''a1'', ''a2'', ''c0'', ''b2'', ''b3'']"
    by code_simp
  show ?thesis
    using prints
    by (simp add: node_stream_def node_sample_scripts sample_concurrency pool_begin_def pool_step_def pool_claim_def
        node_stream_order_def numeral_2_eq_2 pool_done_def node_written_def node_line_def Let_def del: enc_node_record.simps)
qed

theorem node_stream_answers_witness:
  "\<exists>new. dispatch_response_stream node_ext (\<lambda>_ _. True) 7
       [Inr ''b0'', Inr (newline # ''a0'' @ newline # ''b1'' @ newline # ''a1'' @ newline # ''a''),
        Inr (''2'' @ newline # ''c0'' @ newline # ''b2'' @ newline # ''b3'' @ [newline])]
       (start_table [(''a'', 1, 11), (''b'', 2, 12), (''c'', 3, 13)]) [] = new \<and>
     filter (touches 1 11) new = [Init 1 (InitStream \<lparr>sh_status = 200, sh_headers = [(''x-one'', ''1''), (''set-cookie'', ''k=v'')],
       sh_meta = \<lparr>rm_batch_size = 3, rm_batch_wait_ms = 7\<rparr>\<rparr>) True, Body 11 ''AB'' True, BodyClosed 11] \<and>
     filter (touches 2 12) new = [Init 2 (InitStream \<lparr>sh_status = 201, sh_headers = [],
       sh_meta = \<lparr>rm_batch_size = 3, rm_batch_wait_ms = 7\<rparr>\<rparr>) True, Body 12 ''b1'' True, Body 12 ''b2'' True, BodyClosed 12] \<and>
     filter (touches 3 13) new = [Init 3 (InitResponse (with_meta 3 7 (text_response 500 ''internal error''))) True, BodyClosed 13]"
proof -
  let ?cs = "[(''a'', 1, 11), (''b'', 2, 12), (''c'', 3, 13)] :: clients"
  let ?chunks = "[''b0'', newline # ''a0'' @ newline # ''b1'' @ newline # ''a1'' @ newline # ''a'',
    ''2'' @ newline # ''c0'' @ newline # ''b2'' @ newline # ''b3'' @ [newline]]"
  obtain p where p: "node_stream node_ext node_sample True (Some (Some (5/2))) node_event node_stream_order = Some p" "pool_done p"
    "concat (node_written node_print p) = concat ?chunks" using node_sample_stream by auto
  have batch: "node_batch node_event = map (\<lambda>i. JObj [(''id'', JStr i)]) [''a'', ''b'', ''c'']"
    by (simp add: node_batch_def node_event_def)
  have ids: "get_request_id (JObj [(''id'', JStr i)]) = i" for i by (simp add: get_request_id_def)
  have wire: "list_all (\<lambda>item. list_all (\<lambda>r. stringify_ok node_ext node_print (enc_node_record r))
      (fst (node_script node_ext node_sample True item))) (node_batch node_event)" by code_simp
  have evs: "map (\<lambda>item. node_events node_ext 3 7 c b True (node_sample item)) (node_batch node_event) =
    [Some [Init c (InitStream \<lparr>sh_status = 200, sh_headers = [(''x-one'', ''1''), (''set-cookie'', ''k=v'')],
       sh_meta = \<lparr>rm_batch_size = 3, rm_batch_wait_ms = 7\<rparr>\<rparr>) True, Body b ''AB'' True, BodyClosed b],
     Some [Init c (InitStream \<lparr>sh_status = 201, sh_headers = [],
       sh_meta = \<lparr>rm_batch_size = 3, rm_batch_wait_ms = 7\<rparr>\<rparr>) True, Body b ''b1'' True, Body b ''b2'' True, BodyClosed b],
     Some [Init c (InitResponse (with_meta 3 7 (text_response 500 ''internal error''))) True, BodyClosed b]]" for c b
    by code_simp
  have good: "\<forall>item \<in> set (node_batch node_event).
      (\<forall>r \<in> set (fst (node_script node_ext node_sample True item)). stringify_ok node_ext node_print (enc_node_record r)) \<and>
      (\<forall>c b. node_events node_ext (length (node_batch node_event)) 7 c b True (node_sample item) \<noteq> None)"
    using wire evs by (simp add: batch list_all_iff numeral_3_eq_3)
  have facts: "length (concat ?chunks) \<le> max_buffer_bytes" "distinct (map get_request_id (node_batch node_event))" "clients_ok ?cs"
    "map fst ?cs = map get_request_id (node_batch node_event)"
    by (simp_all add: max_buffer_bytes_def clients_ok_def batch ids)
  from node_stream_answers[OF p(1,2) p(3)[symmetric] facts(1) good facts(2-4), of "[]"] show ?thesis
    using evs[of 1 11] evs[of 2 12] evs[of 3 13] by (simp add: batch ids numeral_3_eq_3)
qed

end
