(* ===== verification/Gw_Shutdown.thy ===== *)
theory Gw_Shutdown
  imports Gw_Connections
begin

text \<open>
  The server's way out (\<^verbatim>\<open>shutdown_signal\<close> and \<^verbatim>\<open>run\<close> in \<^verbatim>\<open>gateway/src/server.rs\<close>): a signal makes \<^verbatim>\<open>/readyz\<close>
  unhealthy, new connections are accepted for a while longer so that a load balancer can notice, then the
  listener is closed and what is in flight is finished. \<^verbatim>\<open>with_graceful_shutdown\<close> closes the listener
  when its future has resolved. Time passes in milliseconds.
\<close>

subsection \<open>The future\<close>

datatype signal_phase = SpWaiting | SpDraining nat | SpResolved

text \<open>The future starts by registering its handlers for SIGTERM and SIGINT; when one fails it returns.\<close>

definition signal_begin :: "bool \<Rightarrow> bool \<Rightarrow> signal_phase" where
  "signal_begin sigterm_ok sigint_ok =
     (if \<not> sigterm_ok then SpResolved else if \<not> sigint_ok then SpResolved else SpWaiting)"

definition drain_delay_ms :: nat where
  "drain_delay_ms = 10 * 1000"

record hosted =
  ho_server :: server
  ho_phase :: signal_phase

definition host_begin :: "nat \<Rightarrow> bool \<Rightarrow> bool \<Rightarrow> hosted" where
  "host_begin max_inflight_requests sigterm_ok sigint_ok =
     \<lparr>ho_server = server_init max_inflight_requests, ho_phase = signal_begin sigterm_ok sigint_ok\<rparr>"

definition accepting :: "hosted \<Rightarrow> bool" where
  "accepting h \<longleftrightarrow> ho_phase h \<noteq> SpResolved"

datatype host_label = Serve server_label | Signalled | Elapse nat

text \<open>\<^verbatim>\<open>ready.store(false)\<close>, then the sleep unless the delay is zero.\<close>

definition on_signal :: "nat \<Rightarrow> hosted \<Rightarrow> hosted" where
  "on_signal drain_delay h =
     \<lparr>ho_server = (ho_server h)\<lparr>sv_ready := False\<rparr>, ho_phase = (if drain_delay = 0 then SpResolved else SpDraining drain_delay)\<rparr>"

fun host_exec :: "ext \<Rightarrow> 'r app_state \<Rightarrow> nat \<Rightarrow> hosted \<Rightarrow> host_label \<Rightarrow> hosted option" where
  "host_exec x app drain_delay h (Serve l) =
     (if l = ShutDown \<or> (\<exists>parts. l = Arrive parts) \<and> \<not> accepting h then None
      else map_option (\<lambda>s. h\<lparr>ho_server := s\<rparr>) (server_exec x app (ho_server h) l))"
| "host_exec x app drain_delay h Signalled = Some (if ho_phase h = SpWaiting then on_signal drain_delay h else h)"
| "host_exec x app drain_delay h (Elapse t) =
     (case ho_phase h of
        SpDraining d \<Rightarrow> Some (h\<lparr>ho_phase := if d \<le> t then SpResolved else SpDraining (d - t)\<rparr>)
      | _ \<Rightarrow> Some h)"

fun host_run :: "ext \<Rightarrow> 'r app_state \<Rightarrow> nat \<Rightarrow> hosted \<Rightarrow> host_label list \<Rightarrow> hosted option" where
  "host_run x app drain_delay h [] = Some h"
| "host_run x app drain_delay h (l # ls) = Option.bind (host_exec x app drain_delay h l) (\<lambda>h. host_run x app drain_delay h ls)"

lemma host_run_append:
  "host_run x app d h (ls @ ls') = Option.bind (host_run x app d h ls) (\<lambda>h. host_run x app d h ls')"
  by (induction ls arbitrary: h) (auto split: bind_splits)

interpretation hosting: machine "\<lambda>h l h'. host_exec x app d h l = Some h'" "\<lambda>h ls h'. host_run x app d h ls = Some h'" for x app d
  by unfold_locales (auto simp: host_run_append split: bind_splits)

subsection \<open>What a history says\<close>

text \<open>The time since the first signal, and the server's own labels: the first signal is its \<open>ShutDown\<close>.\<close>

fun elapsed :: "host_label \<Rightarrow> nat" where
  "elapsed (Elapse t) = t"
| "elapsed _ = 0"

fun since :: "host_label list \<Rightarrow> nat option" where
  "since [] = None"
| "since (Signalled # ls) = Some (\<Sum>l \<leftarrow> ls. elapsed l)"
| "since (_ # ls) = since ls"

fun server_labels :: "host_label list \<Rightarrow> server_label list" where
  "server_labels [] = []"
| "server_labels (Serve l # ls) = l # server_labels ls"
| "server_labels (Signalled # ls) = ShutDown # server_labels (filter (\<lambda>l. l \<noteq> Signalled) ls)"
| "server_labels (Elapse t # ls) = server_labels ls"

lemma since_snoc:
  "since (ls @ [l]) = (case since ls of None \<Rightarrow> if l = Signalled then Some 0 else None | Some t \<Rightarrow> Some (t + elapsed l))"
  by (induction ls rule: since.induct) (cases l; simp)+

lemma since_filter: "since (filter (\<lambda>l. l \<noteq> Signalled) ls) = None"
proof (induction ls)
  case (Cons l ls)
  then show ?case by (cases l) simp_all
qed simp

lemma server_labels_snoc:
  "server_labels (ls @ [l]) = server_labels ls @
     (case l of Serve k \<Rightarrow> [k] | Elapse t \<Rightarrow> [] | Signalled \<Rightarrow> if since ls = None then [ShutDown] else [])"
proof (induction ls rule: server_labels.induct)
  case (3 ls)
  then show ?case by (cases l) (simp_all add: since_filter)
qed (cases l; simp)+

lemma server_exec_ready: "server_exec x app s l = Some s' \<Longrightarrow> l \<noteq> ShutDown \<Longrightarrow> sv_ready s' = sv_ready s"
  by (cases l) (auto simp: release_def set_phase_def Let_def split: prod.splits sum.splits option.splits conn_phase.splits
      response_sink.splits if_splits bool.splits)

lemma server_exec_idle:
  "server_exec x app s l = Some s' \<Longrightarrow> sv_conns s = [] \<Longrightarrow> \<nexists>parts. l = Arrive parts \<Longrightarrow> sv_conns s' = []"
  by (cases l) (auto simp: phase_of_def)

text \<open>The phase, the readiness and the server are those the history gives.\<close>

definition phase_since :: "nat \<Rightarrow> nat option \<Rightarrow> signal_phase" where
  "phase_since drain_delay t =
     (case t of None \<Rightarrow> SpWaiting | Some t \<Rightarrow> if drain_delay \<le> t then SpResolved else SpDraining (drain_delay - t))"

definition host_ok :: "ext \<Rightarrow> 'r app_state \<Rightarrow> nat \<Rightarrow> nat \<Rightarrow> host_label list \<Rightarrow> hosted \<Rightarrow> bool" where
  "host_ok x app d n ls h \<longleftrightarrow> ho_phase h = phase_since d (since ls) \<and> sv_ready (ho_server h) = (since ls = None) \<and>
     server_run x app (server_init n) (server_labels ls) = Some (ho_server h)"

lemma host_exec_ok:
  assumes "host_ok x app d n ls h" and "host_exec x app d h l = Some h'"
  shows "host_ok x app d n (ls @ [l]) h'"
proof (cases l)
  case (Serve k)
  with assms(2) obtain s where s: "server_exec x app (ho_server h) k = Some s" "k \<noteq> ShutDown" "h' = h\<lparr>ho_server := s\<rparr>"
    by (auto split: if_splits)
  with assms(1) Serve server_exec_ready[OF s(1,2)] show ?thesis
    by (auto simp: host_ok_def since_snoc server_labels_snoc server_run_append split: option.splits)
next
  case Signalled
  with assms show ?thesis
    by (auto simp: host_ok_def since_snoc server_labels_snoc server_run_append on_signal_def phase_since_def
        split: option.splits if_splits)
next
  case (Elapse t)
  with assms show ?thesis
    by (auto simp: host_ok_def since_snoc server_labels_snoc phase_since_def split: option.splits if_splits signal_phase.splits)
qed

lemma host_run_ok:
  assumes "host_run x app d (host_begin n True True) ls = Some h"
  shows "host_ok x app d n ls h"
proof -
  have "host_ok x app d n [] (host_begin n True True)"
    by (simp add: host_ok_def host_begin_def signal_begin_def phase_since_def server_init_def)
  then show ?thesis by (rule hosting.history_invariant[OF assms]) (auto intro: host_exec_ok)
qed

text \<open>
  Property C28: the shutdown is graceful. When the handlers are registered, then at every moment of
  every run: new requests are accepted until the drain delay has passed since the first signal (later
  signals change nothing), \<^verbatim>\<open>/readyz\<close> answers 503 from that signal on and 200 before, and the server is
  in a state of its own machine, so that requests in flight go on as they would without the signal. When
  a registration fails, the future is resolved from the start: no request is ever accepted although the
  server still counts as ready.
\<close>

theorem graceful_shutdown:
  assumes "host_run x app d (host_begin n sigterm_ok sigint_ok) ls = Some h"
  shows "if sigterm_ok \<and> sigint_ok
    then (accepting h \<longleftrightarrow> (case since ls of None \<Rightarrow> True | Some t \<Rightarrow> t < d)) \<and>
      rs_status (readyz (sv_ready (ho_server h))) = (if since ls = None then 200 else 503) \<and>
      server_run x app (server_init n) (server_labels ls) = Some (ho_server h)
    else \<not> accepting h \<and> rs_status (readyz (sv_ready (ho_server h))) = 200 \<and> sv_conns (ho_server h) = []"
proof (cases "sigterm_ok \<and> sigint_ok")
  case True
  with assms host_run_ok[of x app d n ls h] show ?thesis
    by (auto simp: host_ok_def accepting_def phase_since_def readyz_def str_response_def split: option.splits)
next
  case False
  have "ho_phase h = SpResolved \<and> sv_ready (ho_server h) \<and> sv_conns (ho_server h) = []"
  proof (rule hosting.state_invariant[OF assms])
    show "ho_phase (host_begin n sigterm_ok sigint_ok) = SpResolved \<and> sv_ready (ho_server (host_begin n sigterm_ok sigint_ok)) \<and>
      sv_conns (ho_server (host_begin n sigterm_ok sigint_ok)) = []"
      using False by (auto simp: host_begin_def signal_begin_def server_init_def)
    show "ho_phase t' = SpResolved \<and> sv_ready (ho_server t') \<and> sv_conns (ho_server t') = []"
      if "ho_phase t = SpResolved \<and> sv_ready (ho_server t) \<and> sv_conns (ho_server t) = []" "host_exec x app d t l = Some t'" for t l t'
    proof (cases l)
      case (Serve k)
      with that obtain s where "server_exec x app (ho_server t) k = Some s" "k \<noteq> ShutDown" "\<nexists>parts. k = Arrive parts"
        "t' = t\<lparr>ho_server := s\<rparr>" by (auto simp: accepting_def split: if_splits)
      with that(1) server_exec_ready server_exec_idle show ?thesis by fastforce
    qed (use that in auto)
  qed
  with False show ?thesis by (auto simp: accepting_def readyz_def str_response_def)
qed

text \<open>A signal, nine seconds, a second signal, and one more second.\<close>

theorem graceful_shutdown_witness:
  "\<exists>h. host_run plain_ext (undefined :: unit app_state) drain_delay_ms (host_begin 1 True True)
      [Signalled, Elapse 9000, Signalled, Elapse 1000] = Some h \<and>
    \<not> accepting h \<and> rs_status (readyz (sv_ready (ho_server h))) = 503"
proof -
  have "host_run plain_ext (undefined :: unit app_state) drain_delay_ms (host_begin 1 True True)
      [Signalled, Elapse 9000, Signalled, Elapse 1000] =
    Some \<lparr>ho_server = (server_init 1)\<lparr>sv_ready := False\<rparr>, ho_phase = SpResolved\<rparr>"
    by (simp add: host_begin_def signal_begin_def on_signal_def drain_delay_ms_def)
  with graceful_shutdown[OF this] show ?thesis by (simp add: drain_delay_ms_def)
qed

end
