(* ===== verification/Lp_Routes.thy ===== *)
theory Lp_Routes
  imports Lp_Life
begin

text \<open>
  The routes of the layer proxy (\<^verbatim>\<open>router\<close> in \<^verbatim>\<open>bootstrap/layer-proxy/src/proxy.rs\<close>): which handler a request
  reaches, with what its extractors give. The matching of a path and the extractors are \<^verbatim>\<open>axum\<close>'s and
  parameters here. A request is served up to its first wait, so that a run of the server is a run of the
  machine of \<^verbatim>\<open>Lp_Proxy\<close>, in which completions are the bodies that were accepted.
\<close>

subsection \<open>The router\<close>

record incoming =
  ic_method :: string
  ic_path :: string
  ic_path_and_query :: string
  ic_headers :: header_map
  ic_body :: "bytes option"

text \<open>
  \<open>ax_match\<close> gives the route that matches a path, with the text of its parameter; \<open>ax_path\<close> and
  \<open>ax_bytes\<close> are the extractors \<^verbatim>\<open>Path<String>\<close> and \<^verbatim>\<open>Bytes\<close>, which refuse with a status.
\<close>

record axum =
  ax_match :: "string list \<Rightarrow> string \<Rightarrow> (string \<times> string) option"
  ax_path :: "string \<Rightarrow> nat + string"
  ax_bytes :: "bytes option \<Rightarrow> nat + bytes"

definition next_route :: string where
  "next_route = ''/2018-06-01/runtime/invocation/next''"

definition response_route :: string where
  "response_route = ''/2018-06-01/runtime/invocation/{id}/response''"

definition error_route :: string where
  "error_route = ''/2018-06-01/runtime/invocation/{id}/error''"

text \<open>What a request gets before anything is waited for: a response, a status, or nothing yet.\<close>

datatype served = Served http_response | ServedStatus nat | Awaiting

definition serve_next :: "ext \<Rightarrow> proxy \<Rightarrow> served \<times> proxy" where
  "serve_next x p =
     (case try_take_next x p of
        (Inl st, p) \<Rightarrow> (ServedStatus st, p)
      | (Inr (Some r), p) \<Rightarrow> (Served r, p)
      | (Inr None, p) \<Rightarrow> (Awaiting, p))"

definition serve_completion :: "axum \<Rightarrow> (string \<Rightarrow> header_map \<Rightarrow> bytes \<Rightarrow> proxy \<Rightarrow> nat option \<times> proxy) \<Rightarrow>
    string \<Rightarrow> incoming \<Rightarrow> proxy \<Rightarrow> served \<times> proxy" where
  "serve_completion lib handler raw rq p =
     (case ax_path lib raw of
        Inl st \<Rightarrow> (ServedStatus st, p)
      | Inr i \<Rightarrow>
          (case ax_bytes lib (ic_body rq) of
             Inl st \<Rightarrow> (ServedStatus st, p)
           | Inr b \<Rightarrow>
               (case handler i (ic_headers rq) b p of
                  (Some st, p) \<Rightarrow> (ServedStatus st, p)
                | (None, p) \<Rightarrow> (Awaiting, p))))"

definition router :: "ext \<Rightarrow> network \<Rightarrow> string \<Rightarrow> axum \<Rightarrow> incoming \<Rightarrow> proxy \<Rightarrow> served \<times> proxy" where
  "router x send base_url lib rq p =
     (case ax_match lib [next_route, response_route, error_route] (ic_path rq) of
        Some (route, raw) \<Rightarrow>
          if route = next_route then
            (if ic_method rq \<in> {''GET'', ''HEAD''} then serve_next x p else (ServedStatus 405, p))
          else if ic_method rq \<noteq> ''POST'' then (ServedStatus 405, p)
          else if route = response_route then serve_completion lib (handle_response x) raw rq p
          else serve_completion lib (handle_error x) raw rq p
      | None \<Rightarrow>
          (case handle_fallback x send base_url (ic_method rq) (ic_path_and_query rq) (ic_headers rq) (ic_body rq) of
             Inl st \<Rightarrow> (ServedStatus st, p)
           | Inr r \<Rightarrow> (Served r, p)))"

subsection \<open>A run of the server\<close>

text \<open>The id a request completes, if it reaches one of the two handlers, and the completion it makes.\<close>

definition addressed :: "axum \<Rightarrow> incoming \<Rightarrow> (string \<times> (header_map \<Rightarrow> bytes \<Rightarrow> completion_kind)) option" where
  "addressed lib rq =
     (case ax_match lib [next_route, response_route, error_route] (ic_path rq) of
        None \<Rightarrow> None
      | Some (route, raw) \<Rightarrow>
          if route = next_route \<or> ic_method rq \<noteq> ''POST'' then None
          else (case ax_path lib raw of
              Inl _ \<Rightarrow> None
            | Inr i \<Rightarrow> Some (i, if route = response_route then CkResponse else CkError)))"

definition posted :: "axum \<Rightarrow> incoming \<Rightarrow> (string \<times> completion_kind) option" where
  "posted lib rq =
     (case (addressed lib rq, ax_bytes lib (ic_body rq)) of
        (Some (i, kind), Inr b) \<Rightarrow> Some (i, kind (ic_headers rq) b)
      | _ \<Rightarrow> None)"

datatype http_label = Request incoming | Internal proxy_label

text \<open>What goes on between requests: fetches, forwarded calls, and the ends of streamed responses.\<close>

fun internal :: "proxy_label \<Rightarrow> bool" where
  "internal BeginFetch = True"
| "internal (EndFetch f) = True"
| "internal (ForwardDone r) = True"
| "internal Finalized = True"
| "internal _ = False"

text \<open>The runtime posts no completion while an earlier one is being forwarded.\<close>

definition http_calm :: "axum \<Rightarrow> proxy \<Rightarrow> http_label \<Rightarrow> bool" where
  "http_calm lib p l \<longleftrightarrow> (case l of Request rq \<Rightarrow> posted lib rq \<noteq> None \<longrightarrow> px_forwards p = 0 | Internal k \<Rightarrow> internal k)"

fun http_exec :: "ext \<Rightarrow> network \<Rightarrow> string \<Rightarrow> axum \<Rightarrow> proxy \<Rightarrow> http_label \<Rightarrow> proxy option" where
  "http_exec x send base_url lib p (Request rq) = Some (snd (router x send base_url lib rq p))"
| "http_exec x send base_url lib p (Internal l) = proxy_exec x p l"

fun http_run :: "ext \<Rightarrow> network \<Rightarrow> string \<Rightarrow> axum \<Rightarrow> proxy \<Rightarrow> http_label list \<Rightarrow> proxy option" where
  "http_run x send base_url lib p [] = Some p"
| "http_run x send base_url lib p (l # ls) =
     (if http_calm lib p l then Option.bind (http_exec x send base_url lib p l) (\<lambda>p. http_run x send base_url lib p ls)
      else None)"

lemma http_run_append:
  "http_run x send u lib p (ls @ ls') = Option.bind (http_run x send u lib p ls) (\<lambda>p. http_run x send u lib p ls')"
  by (induction ls arbitrary: p) (auto split: bind_splits)

interpretation routing: machine "\<lambda>p l p'. http_calm lib p l \<and> http_exec x send u lib p l = Some p'"
    "\<lambda>p ls p'. http_run x send u lib p ls = Some p'" for x send u lib
  by unfold_locales (auto simp: http_run_append split: bind_splits)

text \<open>A request is a step of the proxy, or changes nothing; it completes what it posted.\<close>

lemma serve_next_step:
  "serve_next x p = (out, p') \<Longrightarrow> p' = p \<or> (\<exists>r. proxy_step x p (Deliver r) p') \<or> (\<exists>st. proxy_step x p (TakeFailed st) p')"
  by (cases "try_take_next x p")
    (auto simp: serve_next_def proxy_step_simps try_take_next_def Let_def split: sum.splits option.splits active.splits
      list.splits if_splits)

lemma serve_completion_step:
  assumes "serve_completion lib (\<lambda>i h b p. (completion_reply (fst (handle_completion_inner x i (kind h b) p)),
      start_completion (fst (handle_completion_inner x i (kind h b) p)) (snd (handle_completion_inner x i (kind h b) p))))
    raw rq p = (out, p')"
  shows "p' = p \<or> (\<exists>i b. ax_path lib raw = Inr i \<and> ax_bytes lib (ic_body rq) = Inr b \<and>
    proxy_step x p (Complete i (kind (ic_headers rq) b)) p')"
  using assms by (auto simp: serve_completion_def proxy_step_simps prod_eq_iff split: sum.splits option.splits)

lemma handlers_eq:
  "handle_response x = (\<lambda>i h b p. (completion_reply (fst (handle_completion_inner x i (CkResponse h b) p)),
     start_completion (fst (handle_completion_inner x i (CkResponse h b) p)) (snd (handle_completion_inner x i (CkResponse h b) p))))"
  "handle_error x = (\<lambda>i h b p. (completion_reply (fst (handle_completion_inner x i (CkError h b) p)),
     start_completion (fst (handle_completion_inner x i (CkError h b) p)) (snd (handle_completion_inner x i (CkError h b) p))))"
  by (intro ext; simp add: handle_response_def handle_error_def case_prod_beta)+

lemma router_step:
  assumes "router x send u lib rq p = (out, p')"
  shows "p' = p \<or> (\<exists>l. proxy_step x p l p' \<and> (\<forall>i kind. l = Complete i kind \<longrightarrow> posted lib rq = Some (i, kind)))"
proof (cases "ax_match lib [next_route, response_route, error_route] (ic_path rq)")
  case None
  with assms show ?thesis by (auto simp: router_def split: sum.splits)
next
  case (Some m)
  obtain route raw where m: "m = (route, raw)" by (cases m)
  consider (taking) "route = next_route" | (refused) "route \<noteq> next_route" "ic_method rq \<noteq> ''POST''"
    | (completion) "route \<noteq> next_route" "ic_method rq = ''POST''" by blast
  then show ?thesis
  proof cases
    case taking
    with assms Some m serve_next_step[of x p out p'] show ?thesis by (auto simp: router_def split: if_splits)
  next
    case refused
    with assms Some m show ?thesis by (auto simp: router_def)
  next
    case completion
    define kind where "kind = (if route = response_route then CkResponse else CkError)"
    from completion assms Some m
    have "serve_completion lib (\<lambda>i h b p. (completion_reply (fst (handle_completion_inner x i (kind h b) p)),
      start_completion (fst (handle_completion_inner x i (kind h b) p)) (snd (handle_completion_inner x i (kind h b) p))))
      raw rq p = (out, p')" by (auto simp: router_def kind_def handlers_eq split: if_splits)
    from serve_completion_step[OF this] completion Some m show ?thesis
      by (auto simp: posted_def addressed_def kind_def)
  qed
qed

lemma http_run_simulated:
  assumes "http_run x send u lib p ls = Some p'"
  shows "\<exists>ks. proxy_run x calm p ks p' \<and>
    (\<forall>i kind. Complete i kind \<in> set ks \<longrightarrow> (\<exists>rq. Request rq \<in> set ls \<and> posted lib rq = Some (i, kind)))"
  using assms
proof (induction ls arbitrary: p)
  case Nil
  then show ?case by (intro exI[of _ "[]"]) (auto intro: proxy_run.start)
next
  case (Cons l ls)
  then obtain q where q: "http_calm lib p l" "http_exec x send u lib p l = Some q" "http_run x send u lib q ls = Some p'"
    by (auto split: if_splits bind_splits)
  from Cons.IH[OF q(3)] obtain ks where ks: "proxy_run x calm q ks p'"
    "\<forall>i kind. Complete i kind \<in> set ks \<longrightarrow> (\<exists>rq. Request rq \<in> set ls \<and> posted lib rq = Some (i, kind))" by blast
  have "q = p \<or> (\<exists>k. calm p k \<and> proxy_step x p k q \<and>
      (\<forall>i kind. k = Complete i kind \<longrightarrow> (\<exists>rq. l = Request rq \<and> posted lib rq = Some (i, kind))))"
  proof (cases l)
    case (Request rq)
    with q(2) have "router x send u lib rq p = (fst (router x send u lib rq p), q)" by auto
    from router_step[OF this] show ?thesis
    proof
      assume "\<exists>k. proxy_step x p k q \<and> (\<forall>i kind. k = Complete i kind \<longrightarrow> posted lib rq = Some (i, kind))"
      then obtain k where k: "proxy_step x p k q" "\<forall>i kind. k = Complete i kind \<longrightarrow> posted lib rq = Some (i, kind)" by blast
      with q(1) Request have "calm p k" by (auto simp: http_calm_def calm_def)
      with k Request show ?thesis by blast
    qed simp
  next
    case (Internal k)
    with q(2) have "proxy_step x p k q" by (simp only: http_exec.simps proxy_exec_iff)
    moreover from q(1) Internal have "internal k" by (simp add: http_calm_def)
    moreover from this have "\<forall>i kind. k \<noteq> Complete i kind" by auto
    ultimately have "calm p k \<and> proxy_step x p k q \<and> (\<forall>i kind. k \<noteq> Complete i kind)" by (simp add: calm_def)
    then show ?thesis by blast
  qed
  then show ?case
  proof
    assume "q = p"
    with ks show ?thesis by (intro exI[of _ ks]) auto
  next
    assume "\<exists>k. calm p k \<and> proxy_step x p k q \<and>
      (\<forall>i kind. k = Complete i kind \<longrightarrow> (\<exists>rq. l = Request rq \<and> posted lib rq = Some (i, kind)))"
    then obtain k where k: "calm p k" "proxy_step x p k q"
      "\<forall>i kind. k = Complete i kind \<longrightarrow> (\<exists>rq. l = Request rq \<and> posted lib rq = Some (i, kind))" by blast
    from run_trans[OF ks(1) proxy_single[of calm, OF k(1,2)]] ks(2) k(3) show ?thesis
      by (intro exI[of _ "k # ks"]) (auto, blast+)
  qed
qed

subsection \<open>A large answer\<close>

text \<open>
  The extractor \<^verbatim>\<open>Bytes\<close> refuses a body of more than two megabytes, when no layer sets another
  \<^verbatim>\<open>DefaultBodyLimit\<close>; the router sets none.
\<close>

definition default_body_limit :: "axum \<Rightarrow> bool" where
  "default_body_limit lib \<longleftrightarrow> (\<forall>b. ax_bytes lib (Some b) = (if length b \<le> 2 * 1024 * 1024 then Inr b else Inl 413))"

lemma addressed_refused:
  assumes "addressed lib rq = Some (i, kind)" and "ax_bytes lib (ic_body rq) = Inl st"
  shows "router x send u lib rq p = (ServedStatus st, p)" and "posted lib rq = None"
  using assms by (auto simp: addressed_def posted_def router_def serve_completion_def split: option.splits prod.splits
      if_splits sum.splits)

text \<open>
  Property C38: an answer of more than two megabytes holds up its batch. It is refused with a 413 in every
  state, although Lambda takes six and the fallback route ten megabytes; and as long as nothing smaller
  is posted under that id, whatever other requests come and however the other items are answered, the
  batch stays active with the id in flight and its response stream open.
\<close>

theorem large_answer_refused:
  assumes "prints x" and "default_body_limit lib" and "http_run x send u lib proxy_init ls = Some p"
    and "px_active p = AcSmugBatch b" and "i \<in> set (sb_inflight b)" and "http_run x send u lib p ls' = Some p'"
    and "\<And>rq kind. Request rq \<in> set ls' \<Longrightarrow> addressed lib rq = Some (i, kind) \<Longrightarrow>
      \<exists>c. ic_body rq = Some c \<and> 2 * 1024 * 1024 < length c"
  shows "(\<forall>rq kind q. Request rq \<in> set ls' \<and> addressed lib rq = Some (i, kind) \<longrightarrow>
      router x send u lib rq q = (ServedStatus 413, q)) \<and>
    (\<exists>b' s. px_active p' = AcSmugBatch b' \<and> i \<in> set (sb_inflight b') \<and> sb_stream b = Some s \<and> sb_stream b' = Some s \<and>
      \<not> us_closed (px_streams p' ! s))"
proof -
  have large: "ax_bytes lib (ic_body rq) = Inl 413" if "Request rq \<in> set ls'" "addressed lib rq = Some (i, kind)" for rq kind
    using assms(7)[OF that] assms(2) by (auto simp: default_body_limit_def)
  obtain ks where "proxy_run x calm proxy_init ks p" using http_run_simulated[OF assms(3)] by blast
  then have ok: "proxy_ok p" by (rule proxy_run_ok[OF _ proxy_init_ok assms(1)])
  obtain ks' where ks': "proxy_run x calm p ks' p'"
    "\<forall>i kind. Complete i kind \<in> set ks' \<longrightarrow> (\<exists>rq. Request rq \<in> set ls' \<and> posted lib rq = Some (i, kind))"
    using http_run_simulated[OF assms(6)] by blast
  have "Complete i kind \<notin> set ks'" for kind
  proof
    assume "Complete i kind \<in> set ks'"
    with ks'(2) obtain rq where rq: "Request rq \<in> set ls'" "posted lib rq = Some (i, kind)" by blast
    then obtain k where "addressed lib rq = Some (i, k)" by (auto simp: posted_def split: option.splits sum.splits)
    with addressed_refused(2) large rq show False by fastforce
  qed
  then obtain b' where b': "px_active p' = AcSmugBatch b'" "i \<in> set (sb_inflight b')" "sb_stream b' = sb_stream b"
    using inflight_run[OF ks'(1) ok assms(1,4,5)] by blast
  from batch_streamD[OF proxy_run_ok[OF ks'(1) ok assms(1)] b'(1)] obtain s where
    "sb_stream b' = Some s" "\<not> us_closed (px_streams p' ! s)" by metis
  with b' addressed_refused(1) large show ?thesis by (metis (no_types))
qed

text \<open>
  A router for the three patterns, the two items of a batch taken, one answered at its full size of
  two megabytes and a byte, the other with a short body.
\<close>

definition demo_axum :: axum where
  "demo_axum = \<lparr>ax_match = (\<lambda>routes path.
       if path = next_route then Some (next_route, [])
       else if path = upstream_path ''i1'' ''response'' then Some (response_route, ''i1'')
       else if path = upstream_path ''i2'' ''response'' then Some (response_route, ''i2'') else None),
     ax_path = Inr, ax_bytes = (\<lambda>b. case b of None \<Rightarrow> Inl 400 | Some b \<Rightarrow> if length b \<le> 2 * 1024 * 1024 then Inr b else Inl 413)\<rparr>"

definition large_body :: bytes where
  "large_body = replicate (2 * 1024 * 1024 + 1) (CHR ''x'')"

definition demo_post :: "string \<Rightarrow> bytes \<Rightarrow> incoming" where
  "demo_post i b = \<lparr>ic_method = ''POST'', ic_path = upstream_path i ''response'', ic_path_and_query = upstream_path i ''response'',
     ic_headers = [], ic_body = Some b\<rparr>"

definition demo_get :: incoming where
  "demo_get = \<lparr>ic_method = ''GET'', ic_path = next_route, ic_path_and_query = next_route, ic_headers = [], ic_body = Some []\<rparr>"

lemma large_body_length: "length large_body = 2097153"
  by (simp only: large_body_def length_replicate)

lemma demo_routes:
  "router x send u demo_axum demo_get p = serve_next x p"
  "length b \<le> 2 * 1024 * 1024 \<Longrightarrow> addressed demo_axum (demo_post ''i2'' b) = Some (''i2'', CkResponse) \<and>
     router x send u demo_axum (demo_post ''i2'' b) p = (case handle_response x ''i2'' [] b p of
       (Some st, p) \<Rightarrow> (ServedStatus st, p) | (None, p) \<Rightarrow> (Awaiting, p))"
  "addressed demo_axum (demo_post ''i1'' b) = Some (''i1'', CkResponse)"
  by (simp_all add: router_def addressed_def demo_get_def demo_post_def demo_axum_def serve_completion_def next_route_def
      response_route_def error_route_def upstream_path_def)

definition demo_opening :: "http_label list" where
  "demo_opening = [Internal BeginFetch, Internal (EndFetch (Inr (demo_next ''o'' ''b''))), Request demo_get, Request demo_get]"

theorem large_answer_refused_witness:
  "\<exists>p p' b' s. http_run demo_ext (\<lambda>_. Inl []) ''u'' demo_axum proxy_init demo_opening = Some p \<and>
     http_run demo_ext (\<lambda>_. Inl []) ''u'' demo_axum p [Request (demo_post ''i1'' large_body), Request (demo_post ''i2'' ''r'')] = Some p' \<and>
     router demo_ext (\<lambda>_. Inl []) ''u'' demo_axum (demo_post ''i1'' large_body) p = (ServedStatus 413, p) \<and>
     px_active p' = AcSmugBatch b' \<and> sb_queue b' = [] \<and> sb_inflight b' = [''i1''] \<and> sb_stream b' = Some s \<and>
     \<not> us_closed (px_streams p' ! s)"
proof -
  let ?run = "http_run demo_ext (\<lambda>_. Inl []) ''u'' demo_axum"
  define b where "b = \<lparr>sb_outer_request_id = ''o'', sb_base_headers = [], sb_queue = [], sb_inflight = [''i2'', ''i1''], sb_stream = Some 0\<rparr>"
  define p where "p = proxy_init\<lparr>px_active := AcSmugBatch b, px_streams := [\<lparr>us_request_id = ''o'', us_ids = [''i1'', ''i2''],
    us_lines = [], us_closed = False\<rparr>]\<rparr>"
  have "http_calm demo_axum q (Request demo_get)" for q
    by (simp add: http_calm_def posted_def addressed_def demo_get_def demo_axum_def)
  then have p: "?run proxy_init demo_opening = Some p"
    by (simp add: demo_opening_def demo_routes serve_next_def proxy_eval http_calm_def p_def b_def)
  have limit: "default_body_limit demo_axum" by (simp add: default_body_limit_def demo_axum_def)
  have large: "ax_bytes demo_axum (ic_body (demo_post ''i1'' large_body)) = Inl 413"
    by (simp add: demo_axum_def demo_post_def large_body_length)
  note refused = addressed_refused[OF demo_routes(3) large]
  have small: "length ''r'' \<le> 2 * 1024 * 1024" by simp
  have step: "handle_response demo_ext ''i2'' [] ''r'' p = (Some 202, p\<lparr>px_active := AcSmugBatch (b\<lparr>sb_inflight := [''i1'']\<rparr>),
      px_streams := [\<lparr>us_request_id = ''o'', us_ids = [''i1'', ''i2''], us_lines = [(''i2'', ''p'' @ [CHR 0x0A])], us_closed = False\<rparr>]\<rparr>)"
    (is "_ = (_, ?p')")
    by (simp add: proxy_eval completion_reply_def p_def b_def)
  have run: "?run p [Request (demo_post ''i1'' large_body), Request (demo_post ''i2'' ''r'')] = Some ?p'"
    by (simp add: refused demo_routes(2)[OF small] step http_calm_def) (simp add: p_def proxy_init_def)
  have "px_active p = AcSmugBatch b" "''i1'' \<in> set (sb_inflight b)" by (simp_all add: p_def b_def)
  moreover have "\<exists>c. ic_body rq = Some c \<and> 2 * 1024 * 1024 < length c"
    if "Request rq \<in> set [Request (demo_post ''i1'' large_body), Request (demo_post ''i2'' ''r'')]"
      "addressed demo_axum rq = Some (''i1'', kind)" for rq kind
    using that demo_routes(2)[OF small] large_body_length by (auto simp: demo_post_def)
  ultimately have "(\<forall>rq kind q. Request rq \<in> set [Request (demo_post ''i1'' large_body), Request (demo_post ''i2'' ''r'')] \<and>
      addressed demo_axum rq = Some (''i1'', kind) \<longrightarrow> router demo_ext (\<lambda>_. Inl []) ''u'' demo_axum rq q = (ServedStatus 413, q)) \<and>
    (\<exists>b' s. px_active ?p' = AcSmugBatch b' \<and> ''i1'' \<in> set (sb_inflight b') \<and> sb_stream b = Some s \<and> sb_stream b' = Some s \<and>
      \<not> us_closed (px_streams ?p' ! s))"
    by (intro large_answer_refused[OF demo_prints limit p _ _ run])
  with p run demo_routes(3) show ?thesis by (intro exI[of _ p] exI[of _ ?p']) (auto simp: b_def)
qed

end
