(* ===== verification/Spec2Isabelle.thy ===== *)
theory Spec2Isabelle
  imports Gw_Response_Stream Gw_Dispatcher Gw_Lp_Service Gw_Startup Gw_Telemetry Gw_Lambda Lp_Startup Gw_Types Ad_Service Na_Service
    Gw_Shutdown Lp_Routes
begin

text \<open>
  A verification library for the request-multiplexing gateway, its Lambda layer proxy and the Rust and
  Node adapters for functions.

  \<^bold>\<open>The program.\<close> The gateway (\<^verbatim>\<open>src/gateway\<close>) accepts HTTP requests, matches each to an operation of an
  OpenAPI-like spec, and collects requests with the same batch key into batches. A batch is sent to
  a Lambda function as one invocation, and the answer, one JSON document or a stream of NDJSON
  records, is taken apart and given back to the waiting clients. A function can know about batches,
  with the help of an adapter (\<^verbatim>\<open>src/lambda-kit/adapter-rust\<close> or \<^verbatim>\<open>adapter-node\<close>), which runs a handler
  of single requests on every item and writes the document or the records. Or it need not: then the layer proxy
  (\<^verbatim>\<open>src/bootstrap/layer-proxy\<close>) runs beside it, fetches the outer invocation from the Runtime API, hands
  its items to the runtime one by one, and streams the runtime's answers back as records.

  \<^bold>\<open>Theories and sources.\<close>
  \<^item> Shared: \<^verbatim>\<open>Gw_Prelude\<close> (results, strings as the Rust code treats them, \<^verbatim>\<open>HashMap\<close>s as association lists
    with distinct keys), \<^verbatim>\<open>Gw_Json\<close> (JSON documents, the decoders that \<^verbatim>\<open>derive(Deserialize)\<close> gives, and the
    record \<open>ext\<close> of library functions), \<^verbatim>\<open>Gw_Float\<close> (IEEE doubles as rationals with rounding to
    nearest even), \<^verbatim>\<open>Gw_Machine\<close> and \<^verbatim>\<open>Gw_Queue\<close> (the contracts of labelled machines and of bounded
    queues).
  \<^item> Configuration and start-up: \<^verbatim>\<open>Gw_Numbers\<close> (\<^verbatim>\<open>serde_ext.rs\<close>), \<^verbatim>\<open>Gw_Config\<close> (\<^verbatim>\<open>config.rs\<close> and the decoders of
    \<^verbatim>\<open>spec.rs\<close>), \<^verbatim>\<open>Gw_Types\<close> (what is decoded is of its Rust type), \<^verbatim>\<open>Gw_Startup\<close> (\<^verbatim>\<open>location.rs\<close>, \<^verbatim>\<open>main.rs\<close>, the state
    \<^verbatim>\<open>server::run\<close> builds), \<^verbatim>\<open>Gw_Telemetry\<close> (the request span of \<^verbatim>\<open>server.rs\<close>).
  \<^item> \<^verbatim>\<open>Gw_Spec\<close>: \<^verbatim>\<open>gateway/src/spec.rs\<close>, the compilation of the spec and the match of a request.
  \<^item> \<^verbatim>\<open>gateway/src/server.rs\<close>: \<^verbatim>\<open>Gw_Server\<close> (header policy, request data, submission, responses),
    \<^verbatim>\<open>Gw_Connections\<close> (all connections together with the permits, as a labelled machine) and \<^verbatim>\<open>Gw_Shutdown\<close>
    (\<^verbatim>\<open>shutdown_signal\<close>, and the server until its listener is closed).
  \<^item> \<^verbatim>\<open>gateway/src/batching.rs\<close>: \<^verbatim>\<open>Gw_Http\<close> (conversion of a record to a response), \<^verbatim>\<open>Gw_Channels\<close>
    (reply channels, failing a batch; the locale \<open>failing_sink\<close> of what both sinks promise),
    \<^verbatim>\<open>Gw_Plan\<close> (batch key, items, payload, splitting by size), \<^verbatim>\<open>Gw_Buffered\<close> (one JSON answer),
    \<^verbatim>\<open>Gw_Stream\<close>, \<^verbatim>\<open>Gw_Framing\<close>, \<^verbatim>\<open>Gw_Session\<close>, \<^verbatim>\<open>Gw_Isolation\<close>, \<^verbatim>\<open>Gw_Response_Stream\<close> (a stream of records),
    \<^verbatim>\<open>Gw_Flush\<close> (from a batch to queued jobs to replies), \<^verbatim>\<open>Gw_Batcher\<close> (the fixed and the dynamic
    batching task), \<^verbatim>\<open>Gw_Manager\<close> (the registry of tasks and \<^verbatim>\<open>enqueue\<close>), \<^verbatim>\<open>Gw_Dispatcher\<close> (the bounded
    invocation queue and its permits). \<^verbatim>\<open>Gw_Lambda\<close>: \<^verbatim>\<open>lambda.rs\<close>, the invocation and the pump of its stream.
  \<^item> \<^verbatim>\<open>bootstrap/layer-proxy/src\<close>: \<^verbatim>\<open>Lp_Protocol\<close> (\<^verbatim>\<open>smug.rs\<close>, \<^verbatim>\<open>ndjson.rs\<close>, record conversion), \<^verbatim>\<open>Lp_Client\<close>
    (\<^verbatim>\<open>runtime_api.rs\<close>, the fallback route, \<^verbatim>\<open>config.rs\<close>), \<^verbatim>\<open>Lp_Proxy\<close> (the state of \<^verbatim>\<open>state.rs\<close> and the handlers
    of \<^verbatim>\<open>proxy.rs\<close> as a labelled step relation), \<^verbatim>\<open>Lp_Life\<close> (what its runs guarantee), \<^verbatim>\<open>Lp_Routes\<close> (the router
    and the extractors in front of the handlers), \<^verbatim>\<open>Lp_Startup\<close>
    (\<^verbatim>\<open>extension.rs\<close>).
  \<^item> \<^verbatim>\<open>lambda-kit/adapter-rust/src/lib.rs\<close>: \<^verbatim>\<open>Ad_Adapter\<close> (responses of a handler, the buffered adapter as a
    labelled machine), \<^verbatim>\<open>Ad_Select\<close> (\<^verbatim>\<open>ConcurrentSelect\<close>, the merge of the streams of a batch), \<^verbatim>\<open>Ad_Ndjson\<close> (the
    records of the streaming adapter).
  \<^item> \<^verbatim>\<open>lambda-kit/adapter-node/src/index.ts\<close>: \<^verbatim>\<open>Na_Pool\<close> (\<^verbatim>\<open>mapConcurrent\<close> and \<^verbatim>\<open>forEachConcurrent\<close>, workers that
    share a counter, as a labelled machine), \<^verbatim>\<open>Na_Adapter\<close> (JavaScript values and their normalisation,
    \<^verbatim>\<open>batchAdapter\<close>), \<^verbatim>\<open>Na_Stream\<close> (\<^verbatim>\<open>batchAdapterStream\<close>).
  \<^item> Together: \<^verbatim>\<open>Gw_Lp_Wire\<close> and \<^verbatim>\<open>Gw_Lp_Service\<close> (gateway and proxy), \<^verbatim>\<open>Gw_Merge\<close> (what clients see of
    the merged records of a batch), \<^verbatim>\<open>Ad_Wire\<close> and \<^verbatim>\<open>Ad_Service\<close> (gateway and Rust adapter), \<^verbatim>\<open>Na_Wire\<close> and
    \<^verbatim>\<open>Na_Service\<close> (gateway and Node adapter; the two adapters compared).

  \<^bold>\<open>How the code is represented.\<close> Structs are records and enums datatypes with the source's names;
  a handler that holds a lock, or a task between two awaits, is one function of its state; tasks
  that interleave are step relations with labels, and statements about them hold for every run.
  A channel is a number, and every use of a sender (a send, or its drop) is an entry of a log: that
  a client is answered exactly once is a statement about the multiset of settled channels. Whether
  a receiver is still there when something is sent is asked of an environment \<open>env\<close>; what \<^verbatim>\<open>try_send\<close>,
  timers and \<^verbatim>\<open>select!\<close> give is a list of outcomes the task consumes, so any schedule is some list;
  which streams \<^verbatim>\<open>SelectAll\<close> finds ready is a list of positions.
  Errors are values of a sum, a panic or a call that does not return is \<open>None\<close>. Milliseconds and payload
  limits are naturals; the epoch times are 64-bit words, as they are serialized. Strings are lists of
  bytes.

  \<^bold>\<open>Library functions.\<close> Code that is not part of the repository is a parameter: the JSON reader and
  printer, base64, header and status validation and error texts are fields of \<open>ext\<close>; the YAML reader,
  the path router (\<^verbatim>\<open>matchit\<close>), the Lambda invoker, the upstream HTTP client, the socket and the
  handlers given to the adapters are arguments of the definitions that use them. A theorem that relies
  on one names what it needs: \<open>prints\<close> (a record can be printed), \<open>wire_ok\<close> (a document is printed on
  one line and read back), \<open>default_body_limit\<close> (the limit of \<^verbatim>\<open>axum\<close>'s \<^verbatim>\<open>Bytes\<close> extractor). Every such theorem has an instance on a concrete environment beside it.

  \<^bold>\<open>Contracts.\<close> Where several parts rely on the same promise it is a locale, with its lemmas proved
  once: \<open>keyed_map\<close> (\<^verbatim>\<open>HashMap\<close> and \<^verbatim>\<open>BTreeMap\<close> filled entry by entry), \<open>machine\<close> (dispatcher, proxy and
  its routes, connections, the server and its shutdown, moves of the registry, buffered adapter, workers of the
  Node adapter: invariants, composition, progress), \<open>bounded_queue\<close> (the queue of a batch key and that
  of the dispatcher), \<open>failing_sink\<close> (the two kinds of pending table), \<open>batch_loop\<close> (the loops of the
  fixed and the dynamic batcher), \<open>item_streams\<close> (the streaming adapters: from what one item's records
  give on their own to what a client sees of any merge of them).

  \<^bold>\<open>What the lemmas show.\<close> Conservation: splitting, failing, dispatching and flushing neither lose
  nor duplicate a reply channel (\<open>covers\<close>, \<open>keeps\<close>, the \<open>_totals\<close> lemmas), so every client is
  settled exactly once. Framing: the stream loop computes a function of the text alone. Sessions:
  every client's events are accepted by the protocol automaton; isolation: they depend on that
  client's records alone. Batching: batches are bounded, ordered, and waits lie within the
  configured bounds. Registry, dispatcher and connections: invariants of every interleaving and
  bounds of the queues and permits. Layer proxy: every closed response stream is complete, a batch
  can always be finished, and the composition with the gateway serves every client its own answer.
  Adapters: bounded concurrency, responses in the order of the batch, a merged stream that loses and
  reorders nothing within a request and terminates; composed with the gateway every client gets what
  the handler answered to it; and the two adapters write the same records for the same response. Where the code does not do what it means to, a theorem exhibits
  the run: a bad record failing its whole batch, a request lost in an idle race, two tasks for one
  key, a queue depth of 0, an empty or undeliverable outer batch, a batch discarded by a stale
  completion, a free place of the merge left unused, a stream or a document of the Node adapter lost
  for one bad response, a batch held up by one large answer.

  \<^bold>\<open>Bounds and fuel.\<close> The batching tasks consume a finite list of outcomes, on which they
  recurse; \<open>enqueue_loop\<close> counts its retries, and \<open>enqueue_outcome\<close> shows when two are enough;
  \<open>poll_next\<close> is a partial function, and \<open>select_terminates\<close> shows that it returns. No other definition
  uses fuel: the line loop, the batch splitter and the refill of the merge have termination measures.

  \<^bold>\<open>Not modelled.\<close> Logging and metrics; the matching of paths and the listeners of \<^verbatim>\<open>axum\<close>, and in
  the gateway its two health routes in front of the handler; in the proxy the waiting on
  \<^verbatim>\<open>Notify\<close> (a step is possible whenever its handler would act, whether or not somebody is awake to take
  it); the trivial conversions into \<^verbatim>\<open>ResponseBody\<close> and \<^verbatim>\<open>ResponseChunk\<close>; in the Node adapter the checks of its
  arguments (a handler that is no function, no \<^verbatim>\<open>streamifyResponse\<close>), \<^verbatim>\<open>setContentType\<close> and the waiting for
  \<^verbatim>\<open>drain\<close> (a worker that waits takes no step); \<^verbatim>\<open>shutdown_signal\<close> on other systems than unix; the Python
  code (the deployment macro and the publisher of the configuration: CloudFormation glue), the
  benchmark and the samples.
\<close>

end
